(* ===== verification/Prelude.thy ===== *)
theory Prelude
  imports "HOL-Library.Word"
begin

text \<open>
  Shared vocabulary of the development: the machine types of the C sources, the byte order
  of the host the Makefile builds for (x86, little endian) with \<open>htons\<close>, \<open>htonl\<close> and
  \<open>memcpy\<close> between integers and bytes, the faults a C operation can run into, and a result
  type with its sequencing operator.  The lemma collection \<open>res_eqs\<close> inverts sequenced
  results; the byte-order lemmas are simplification rules.
\<close>

unbundle bit_operations_syntax

named_theorems res_eqs

subsection \<open>Machine types and byte order\<close>

type_synonym byte = "8 word"
type_synonym u16 = "16 word"
type_synonym u32 = "32 word"

text \<open>
  \<open>memcpy(p, &x, n)\<close> writes the bytes of \<open>x\<close> from the least significant one up;
  \<open>memcpy(&x, p, n)\<close> reads them back.
\<close>

definition store16 :: "u16 \<Rightarrow> byte list" where
  "store16 x = [ucast x, ucast (drop_bit 8 x)]"

definition store32 :: "u32 \<Rightarrow> byte list" where
  "store32 x = [ucast x, ucast (drop_bit 8 x), ucast (drop_bit 16 x), ucast (drop_bit 24 x)]"

definition load16 :: "byte \<Rightarrow> byte \<Rightarrow> u16" where
  "load16 b0 b1 = ucast b0 OR push_bit 8 (ucast b1)"

definition load32 :: "byte \<Rightarrow> byte \<Rightarrow> byte \<Rightarrow> byte \<Rightarrow> u32" where
  "load32 b0 b1 b2 b3 = ucast b0 OR push_bit 8 (ucast b1) OR
     push_bit 16 (ucast b2) OR push_bit 24 (ucast b3)"

text \<open>On a little-endian host \<open>htons\<close>/\<open>ntohs\<close> and \<open>htonl\<close>/\<open>ntohl\<close> reverse the bytes.\<close>

definition htons :: "u16 \<Rightarrow> u16" where
  "htons x = load16 (ucast (drop_bit 8 x)) (ucast x)"

definition htonl :: "u32 \<Rightarrow> u32" where
  "htonl x = load32 (ucast (drop_bit 24 x)) (ucast (drop_bit 16 x)) (ucast (drop_bit 8 x)) (ucast x)"

abbreviation "ntohs \<equiv> htons"
abbreviation "ntohl \<equiv> htonl"

lemma bit_byte_beyond: "8 \<le> n \<Longrightarrow> \<not> bit (b :: byte) n"
  using bit_imp_le_length [of b n] by auto

lemma load16_bytes [simp]:
  "ucast (load16 a b) = a" "ucast (drop_bit 8 (load16 a b)) = b"
  by (rule bit_word_eqI; auto simp: load16_def bit_simps bit_byte_beyond)+

lemma load32_bytes [simp]:
  "ucast (load32 a b c d) = a" "ucast (drop_bit 8 (load32 a b c d)) = b"
  "ucast (drop_bit 16 (load32 a b c d)) = c" "ucast (drop_bit 24 (load32 a b c d)) = d"
  by (rule bit_word_eqI; auto simp: load32_def bit_simps bit_byte_beyond)+

lemma load16_store16 [simp]: "load16 (ucast x) (ucast (drop_bit 8 x)) = x"
  by (rule bit_word_eqI) (auto simp: load16_def bit_simps)

lemma load32_store32 [simp]:
  "load32 (ucast x) (ucast (drop_bit 8 x)) (ucast (drop_bit 16 x)) (ucast (drop_bit 24 x)) = x"
proof (rule bit_word_eqI)
  fix n assume "n < LENGTH(32)"
  then show "bit (load32 (ucast x) (ucast (drop_bit 8 x)) (ucast (drop_bit 16 x))
      (ucast (drop_bit 24 x))) n = bit x n"
    by (cases "n < 8"; cases "n < 16"; cases "n < 24") (auto simp: load32_def bit_simps)
qed

lemma htons_htons [simp]: "htons (htons x) = x"
  by (simp add: htons_def)

lemma htonl_htonl [simp]: "htonl (htonl x) = x"
  by (simp add: htonl_def)

lemma htons_load16: "htons (load16 a b) = load16 b a"
  by (simp add: htons_def)

lemma htons_eq_iff [simp]: "htons x = htons y \<longleftrightarrow> x = y"
  by (metis htons_htons)

lemma htons_0 [simp]: "htons 0 = 0"
  by (simp add: htons_def load16_def)

lemma htons_eq_0_iff [simp]: "htons x = 0 \<longleftrightarrow> x = 0"
  using htons_eq_iff [of x 0] by simp

text \<open>The two bytes of a 16-bit number change places.\<close>

lemma load16_plus: "load16 a b = ucast a + push_bit 8 (ucast b)"
  unfolding load16_def by (rule disjunctive_add [symmetric]) (auto simp: bit_simps bit_byte_beyond)

lemma load16_int: "load16 a b = word_of_int (uint a + 256 * uint b)"
  unfolding load16_plus by (simp add: push_bit_eq_mult)

lemma unat_htons:
  assumes "0 \<le> n" "n < 65536"
  shows "int (unat (htons (word_of_int n))) = 256 * (n mod 256) + n div 256"
proof -
  let ?l = "word_of_int (n mod 256) :: byte" and ?h = "word_of_int (n div 256) :: byte"
  have "0 \<le> n div 256" "n div 256 < 256" using assms by simp_all
  then have u: "uint ?l = n mod 256" "uint ?h = n div 256"
    by (simp_all add: uint_word_of_int_eq take_bit_eq_mod)
  have n: "n = n mod 256 + 256 * (n div 256)" by simp
  have "(word_of_int n :: u16) = load16 ?l ?h" unfolding load16_int u by (subst n) (rule refl)
  then have "htons (word_of_int n) = load16 ?h ?l" by (simp only: htons_load16)
  then have e: "htons (word_of_int n) = word_of_int (n div 256 + 256 * (n mod 256))"
    unfolding load16_int u .
  have "0 \<le> n mod 256" "n mod 256 < 256" by simp_all
  then show ?thesis unfolding e using \<open>0 \<le> n div 256\<close> \<open>n div 256 < 256\<close>
    by (simp add: uint_word_of_int_eq take_bit_eq_mod flip: uint_nat del: of_int_add of_int_mult)
qed

lemma length_store16 [simp]: "length (store16 x) = 2"
  by (simp add: store16_def)

lemma length_store32 [simp]: "length (store32 x) = 4"
  by (simp add: store32_def)

subsection \<open>Faults and results\<close>

text \<open>
  What undefined behaviour or a trap the C operation meets.  A computation that meets one
  has no result: every property that says an operation returns \<open>Inr\<close> says that it stays
  clear of all of these.
\<close>

datatype fault = OutOfBounds | NullPointer | DivideByZero | Uninitialised

type_synonym 'a res = "fault + 'a"

fun rbind :: "'a res \<Rightarrow> ('a \<Rightarrow> 'b res) \<Rightarrow> 'b res" where
  "rbind (Inl e) k = Inl e"
| "rbind (Inr x) k = k x"

definition guard :: "fault \<Rightarrow> bool \<Rightarrow> unit res" where
  "guard e c = (if c then Inr () else Inl e)"

lemma rbind_eq_Inr [res_eqs]: "rbind m k = Inr y \<longleftrightarrow> (\<exists>x. m = Inr x \<and> k x = Inr y)"
  by (cases m) auto

lemma rbind_eq_Inl [res_eqs]:
  "rbind m k = Inl e \<longleftrightarrow> m = Inl e \<or> (\<exists>x. m = Inr x \<and> k x = Inl e)"
  by (cases m) auto

lemma guard_eq_Inr [res_eqs]: "guard e c = Inr u \<longleftrightarrow> c"
  by (simp add: guard_def)

lemma guard_eq_Inl [res_eqs]: "guard e c = Inl e' \<longleftrightarrow> \<not> c \<and> e' = e"
  by (auto simp: guard_def)

lemma guard_True [simp]: "c \<Longrightarrow> guard e c = Inr ()"
  by (simp add: guard_def)

lemma guard_False [simp]: "\<not> c \<Longrightarrow> guard e c = Inl e"
  by (simp add: guard_def)

lemma rbind_cong [fundef_cong]:
  "m = m' \<Longrightarrow> (\<And>x. m' = Inr x \<Longrightarrow> k x = k' x) \<Longrightarrow> rbind m k = rbind m' k'"
  by (cases m') auto

lemma rbind_assoc: "rbind (rbind m k) h = rbind m (\<lambda>x. rbind (k x) h)"
  by (cases m) auto

text \<open>
  Why a run of a whole process ends early: a fault, a call of \<open>exit\<close>, or a wait on a network
  whose schedule has no further event.
\<close>

datatype stop = Fault fault | Exited int | Blocked

definition to_stop :: "'a res \<Rightarrow> stop + 'a" where
  "to_stop r = (case r of Inl e \<Rightarrow> Inl (Fault e) | Inr x \<Rightarrow> Inr x)"

lemma to_stop_simps [simp]: "to_stop (Inl e) = Inl (Fault e)" "to_stop (Inr x) = Inr x"
  by (simp_all add: to_stop_def)

lemma to_stop_eq_Inr [res_eqs]: "to_stop r = Inr x \<longleftrightarrow> r = Inr x"
  by (cases r) auto

subsection \<open>Runs of a process\<close>

text \<open>
  A program is a function from the process's world to an outcome and a new world; \<open>bnd\<close>
  sequences programs.
\<close>

type_synonym ('w, 'a) run = "'w \<Rightarrow> (stop + 'a) \<times> 'w"

definition ret :: "'a \<Rightarrow> ('w, 'a) run" where
  "ret x w = (Inr x, w)"

definition stop_with :: "stop \<Rightarrow> ('w, 'a) run" where
  "stop_with s w = (Inl s, w)"

definition lift :: "(stop + 'a) \<Rightarrow> ('w, 'a) run" where
  "lift r w = (r, w)"

definition bnd :: "('w, 'a) run \<Rightarrow> ('a \<Rightarrow> ('w, 'b) run) \<Rightarrow> ('w, 'b) run" where
  "bnd m k w = (case m w of (Inl s, w') \<Rightarrow> (Inl s, w') | (Inr x, w') \<Rightarrow> k x w')"

lemma bnd_cong [fundef_cong]:
  "m w = m' w' \<Longrightarrow> (\<And>x v. m' w' = (Inr x, v) \<Longrightarrow> k x v = k' x v) \<Longrightarrow> bnd m k w = bnd m' k' w'"
  by (auto simp: bnd_def split: prod.splits sum.splits)

lemma prog_simps [simp]:
  "bnd (ret x) k w = k x w" "bnd (stop_with s) k w = (Inl s, w)"
  "bnd (lift (Inr x)) k w = k x w" "bnd (lift (Inl s)) k w = (Inl s, w)"
  "ret x w = (Inr x, w)" "stop_with s w = (Inl s, w)" "lift r w = (r, w)"
  by (simp_all add: bnd_def ret_def stop_with_def lift_def)

lemma bnd_assoc: "bnd (bnd m k) h w = bnd m (\<lambda>x. bnd (k x) h) w"
  by (auto simp: bnd_def split: prod.splits sum.splits)

lemma bnd_step [simp]: "m w = (Inr x, v) \<Longrightarrow> bnd m k w = k x v" "m w = (Inl s, v) \<Longrightarrow> bnd m k w = (Inl s, v)"
  by (simp_all add: bnd_def)

lemma bnd_eq_Inr: "bnd m k w = (Inr y, v) \<longleftrightarrow> (\<exists>x u. m w = (Inr x, u) \<and> k x u = (Inr y, v))"
  by (auto simp: bnd_def split: prod.splits sum.splits)

subsection \<open>Memory and arithmetic shared by the components\<close>

text \<open>
  \<open>memcpy\<close> of \<open>src\<close> into an object of \<open>cap\<close> bytes at offset \<open>off\<close>.  Only the bytes
  written so far are recorded; the objects of this program are filled from the front.
\<close>

definition memcpy_at :: "nat \<Rightarrow> byte list \<Rightarrow> nat \<Rightarrow> byte list \<Rightarrow> byte list res" where
  "memcpy_at cap buf off src =
     (if off + length src \<le> cap
      then Inr (take off buf @ src @ drop (off + length src) buf)
      else Inl OutOfBounds)"

text \<open>
  The \<open>len\<close> bytes that \<open>memcpy\<close> or \<open>fwrite\<close> reads from an object holding \<open>src\<close>.  A
  negative length turns into a huge \<open>size_t\<close>.
\<close>

definition read_bytes :: "byte list \<Rightarrow> int \<Rightarrow> byte list res" where
  "read_bytes src len =
     (if len < 0 \<or> int (length src) < len then Inl OutOfBounds
      else Inr (take (nat len) src))"

lemma read_bytes_all [simp]: "read_bytes src (int (length src)) = Inr src"
  by (simp add: read_bytes_def)

lemma read_bytes_eq_Inr [res_eqs]:
  "read_bytes src len = Inr bs \<longleftrightarrow> 0 \<le> len \<and> len \<le> int (length src) \<and> bs = take (nat len) src"
  by (auto simp: read_bytes_def)

text \<open>
  \<open>seq % n\<close> for a \<open>uint32_t\<close> and an \<open>int\<close>: C converts the \<open>int\<close> to unsigned, and a zero
  divisor traps.
\<close>

definition umod :: "u32 \<Rightarrow> int \<Rightarrow> nat res" where
  "umod x n =
     (let d = unat (word_of_int n :: u32)
      in if d = 0 then Inl DivideByZero else Inr (unat x mod d))"

lemma unat_word_of_small_int: "0 \<le> n \<Longrightarrow> n < 2 ^ 31 \<Longrightarrow> unat (word_of_int n :: u32) = nat n"
  by (simp add: unat_eq_nat_uint uint_word_of_int_eq take_bit_int_eq_self)

lemma umod_pos [simp]: "0 < n \<Longrightarrow> n < 2 ^ 31 \<Longrightarrow> umod x n = Inr (unat x mod nat n)"
  by (simp add: umod_def unat_word_of_small_int)

lemma umod_0 [simp]: "umod x 0 = Inl DivideByZero"
  by (simp add: umod_def)

lemma residue_gap:
  assumes "(a :: nat) mod n = b mod n" "a < b" shows "n \<le> b - a"
proof -
  have "n dvd b - a" using assms by (simp add: mod_eq_dvd_iff_nat [symmetric])
  then show ?thesis using assms(2) by (intro dvd_imp_le) simp_all
qed

text \<open>Element \<open>i\<close> of an array.\<close>

definition arr_get :: "'a list \<Rightarrow> nat \<Rightarrow> 'a res" where
  "arr_get xs i = (if i < length xs then Inr (xs ! i) else Inl OutOfBounds)"

lemma arr_get_ok [simp]: "i < length xs \<Longrightarrow> arr_get xs i = Inr (xs ! i)"
  by (simp add: arr_get_def)

lemma arr_get_eq_Inr [res_eqs]: "arr_get xs i = Inr x \<longleftrightarrow> i < length xs \<and> x = xs ! i"
  by (auto simp: arr_get_def)

lemma unat_u32_less: "unat (x :: u32) < 4294967296"
proof -
  have "unat x < 2 ^ LENGTH(32)" by (rule unsigned_less)
  then show ?thesis by simp
qed

lemma unat_Suc_u32: "unat (x :: u32) + 1 < 4294967296 \<Longrightarrow> unat (x + 1) = unat x + 1"
  by (simp add: unat_word_ariths)

text \<open>The loop \<open>for (uint32_t i = a; i < n; i++) body(i)\<close> over a state that \<open>body\<close> changes.\<close>

function for_u32 :: "(u32 \<Rightarrow> 's \<Rightarrow> 's res) \<Rightarrow> u32 \<Rightarrow> u32 \<Rightarrow> 's \<Rightarrow> 's res" where
  "for_u32 body i n s = (if i < n then rbind (body i s) (for_u32 body (i + 1) n) else Inr s)"
  by pat_completeness auto
termination
proof (relation "measure (\<lambda>(body, i, n, s). unat n - unat i)")
  fix body :: "u32 \<Rightarrow> 's \<Rightarrow> 's res" and i n :: u32 and s x :: 's
  assume "i < n"
  then have less: "unat i < unat n" by (simp add: word_less_nat_alt)
  moreover have "unat (i + 1) = unat i + 1"
    using less unat_u32_less [of n] by (intro unat_Suc_u32) simp
  ultimately show "((body, i + 1, n, x), (body, i, n, s)) \<in> measure (\<lambda>(body, i, n, s). unat n - unat i)"
    by simp
qed simp

declare for_u32.simps [simp del]

subsection \<open>Files as numbered chunks\<close>

text \<open>The file cut into chunks of \<open>b\<close> bytes, numbered from 1.\<close>

definition file_chunk :: "nat \<Rightarrow> byte list \<Rightarrow> nat \<Rightarrow> byte list" where
  "file_chunk b f s = take b (drop ((s - 1) * b) f)"

lemma length_file_chunk: "length (file_chunk b f s) \<le> b"
  by (simp add: file_chunk_def)

lemma concat_file_chunks: "concat (map (file_chunk b f) [1..<Suc n]) = take (n * b) f"
proof (induction n)
  case (Suc n)
  have "[1..<Suc (Suc n)] = [1..<Suc n] @ [Suc n]" by simp
  then have "concat (map (file_chunk b f) [1..<Suc (Suc n)]) = take (n * b) f @ file_chunk b f (Suc n)"
    using Suc by simp
  also have "\<dots> = take (n * b + b) f" by (simp add: file_chunk_def take_add)
  finally show ?case by (simp add: add.commute)
qed simp

subsection \<open>Text\<close>

text \<open>A C string ends at its first zero byte.\<close>

definition c_string :: "byte list \<Rightarrow> byte list" where
  "c_string s = takeWhile (\<lambda>c. c \<noteq> 0) s"

lemma c_string_terminated: "c_string (xs @ [0]) = c_string xs"
  by (induction xs) (simp_all add: c_string_def)

lemma c_string_no_zero: "0 \<notin> set s \<Longrightarrow> c_string (s @ [0] @ t) = s"
  unfolding c_string_def by (induction s) auto

text \<open>The characters of a literal, and what \<open>%d\<close> prints.\<close>

definition str :: "string \<Rightarrow> byte list" where
  "str s = map of_char s"

fun digits :: "nat \<Rightarrow> byte list" where
  "digits n = (if n < 10 then [48 + word_of_nat n] else digits (n div 10) @ [48 + word_of_nat (n mod 10)])"

declare digits.simps [simp del]

definition print_int :: "int \<Rightarrow> byte list" where
  "print_int n = (if n < 0 then 45 # digits (nat (- n)) else digits (nat n))"

end
