(* ===== verification/PollLib.thy ===== *)
theory PollLib
  imports Prelude
begin

text \<open>
  The poll set of \<open>pollLib.c\<close>: the array of \<open>struct pollfd\<close>, its size and the high-water
  mark \<open>maxFileDescriptor\<close>, each operation with the allocation that can fail under it, and
  \<open>pollCall\<close> over the result of the system call.  The lemmas state the one contract the
  programs rely on: after \<open>setupPollSet\<close> and \<open>addToPollSet\<close> of a single socket,
  \<open>pollCall\<close> returns that socket when a datagram waits and \<open>-1\<close> when the wait timed out, as long
  as \<open>poll\<close> has nothing to report on the standard input, which the unused elements name.
\<close>

subsection \<open>State and operations\<close>

record pollfd =
  fd :: int
  events :: int

record pollset =
  pollFileDescriptors :: "pollfd list"
  maxFileDescriptor :: int
  currentPollSetSize :: int

definition POLL_SET_SIZE :: int where "POLL_SET_SIZE = 10"
definition POLLIN :: int where "POLLIN = 1"

definition zero_pollfd :: pollfd where
  "zero_pollfd = \<lparr>fd = 0, events = 0\<rparr>"

definition initial_pollset :: pollset where
  "initial_pollset = \<lparr>pollFileDescriptors = [], maxFileDescriptor = 0, currentPollSetSize = 0\<rparr>"

text \<open>\<open>sCalloc\<close> and \<open>srealloc\<close> leave the process when the allocator fails.\<close>

definition sCalloc :: "bool \<Rightarrow> 'a \<Rightarrow> stop + 'a" where
  "sCalloc mem block = (if mem then Inr block else Inl (Exited (-1)))"

definition srealloc :: "bool \<Rightarrow> 'a \<Rightarrow> stop + 'a" where
  "srealloc mem block = (if mem then Inr block else Inl (Exited (-1)))"

definition setupPollSet :: "bool \<Rightarrow> pollset \<Rightarrow> stop + pollset" where
  "setupPollSet mem ps =
     (case sCalloc mem (replicate (nat POLL_SET_SIZE) zero_pollfd) of
        Inl s \<Rightarrow> Inl s
      | Inr block \<Rightarrow> Inr (ps\<lparr>currentPollSetSize := POLL_SET_SIZE, pollFileDescriptors := block\<rparr>))"

definition growPollSet :: "bool \<Rightarrow> int \<Rightarrow> pollset \<Rightarrow> stop + pollset" where
  "growPollSet mem newSetSize ps =
     (if newSetSize \<le> currentPollSetSize ps then Inl (Exited (-1))
      else case srealloc mem (take (nat (currentPollSetSize ps)) (pollFileDescriptors ps) @
               replicate (nat (newSetSize - currentPollSetSize ps)) zero_pollfd) of
             Inl s \<Rightarrow> Inl s
           | Inr block \<Rightarrow> Inr (ps\<lparr>pollFileDescriptors := block, currentPollSetSize := newSetSize\<rparr>))"

definition set_pollfd :: "int \<Rightarrow> pollfd \<Rightarrow> pollset \<Rightarrow> stop + pollset" where
  "set_pollfd i p ps =
     (if 0 \<le> i \<and> nat i < length (pollFileDescriptors ps)
      then Inr (ps\<lparr>pollFileDescriptors := (pollFileDescriptors ps)[nat i := p]\<rparr>)
      else Inl (Fault OutOfBounds))"

definition addToPollSet :: "bool \<Rightarrow> int \<Rightarrow> pollset \<Rightarrow> stop + pollset" where
  "addToPollSet mem socketNumber ps =
     (case (if socketNumber \<ge> currentPollSetSize ps
            then growPollSet mem (socketNumber + POLL_SET_SIZE) ps else Inr ps) of
        Inl s \<Rightarrow> Inl s
      | Inr ps1 \<Rightarrow>
          let ps2 = (if socketNumber + 1 \<ge> maxFileDescriptor ps1
                     then ps1\<lparr>maxFileDescriptor := socketNumber + 1\<rparr> else ps1)
          in set_pollfd socketNumber \<lparr>fd = socketNumber, events = POLLIN\<rparr> ps2)"

definition removeFromPollSet :: "int \<Rightarrow> pollset \<Rightarrow> stop + pollset" where
  "removeFromPollSet socketNumber ps = set_pollfd socketNumber zero_pollfd ps"

text \<open>The scan for the lowest index whose \<open>revents\<close> is positive.\<close>

fun first_ready :: "int \<Rightarrow> int list \<Rightarrow> int" where
  "first_ready i [] = -1"
| "first_ready i (r # rs) = (if r > 0 then i else first_ready (i + 1) rs)"

text \<open>
  \<open>pollValue\<close> and \<open>revents\<close> are what \<open>poll(2)\<close> returned and wrote for the first
  \<open>maxFileDescriptor\<close> elements.
\<close>

definition pollCall :: "pollset \<Rightarrow> int \<Rightarrow> int list \<Rightarrow> stop + int" where
  "pollCall ps pollValue revents =
     (if nat (maxFileDescriptor ps) > length (pollFileDescriptors ps) then Inl (Fault OutOfBounds)
      else if pollValue < 0 then Inl (Exited (-1))
      else if pollValue > 0
      then Inr (first_ready 0 (take (nat (maxFileDescriptor ps)) revents))
      else Inr (-1))"

text \<open>
  What \<open>poll(2)\<close> reports.  An element polled for \<open>POLLIN\<close> reports it when a datagram waits.  The
  unused elements have \<open>events = 0\<close>, but their \<open>fd = 0\<close> still names descriptor 0, and
  \<open>POLLHUP\<close>, \<open>POLLERR\<close> and \<open>POLLNVAL\<close> are reported whatever \<open>events\<close> is: \<open>stdin_state\<close> is what
  \<open>poll\<close> finds of these on the standard input, 0 for one that is open and not hung up.  The
  conditions are other bits than \<open>POLLIN\<close>, so adding them is their union.
\<close>

definition os_revents :: "int \<Rightarrow> bool \<Rightarrow> pollset \<Rightarrow> int list" where
  "os_revents stdin_state ready ps =
     map (\<lambda>p. (if fd p = 0 then stdin_state else 0) + (if ready \<and> events p = POLLIN then POLLIN else 0))
       (take (nat (maxFileDescriptor ps)) (pollFileDescriptors ps))"

definition os_poll_value :: "int \<Rightarrow> bool \<Rightarrow> pollset \<Rightarrow> int" where
  "os_poll_value stdin_state ready ps =
     int (length (filter (\<lambda>r. r \<noteq> 0) (os_revents stdin_state ready ps)))"

definition poll_result :: "int \<Rightarrow> bool \<Rightarrow> pollset \<Rightarrow> stop + int" where
  "poll_result stdin_state ready ps =
     pollCall ps (os_poll_value stdin_state ready ps) (os_revents stdin_state ready ps)"

subsection \<open>The contract of a one-socket poll set\<close>

definition pollset_ok :: "pollset \<Rightarrow> bool" where
  "pollset_ok ps \<longleftrightarrow> int (length (pollFileDescriptors ps)) = currentPollSetSize ps \<and>
     maxFileDescriptor ps \<le> currentPollSetSize ps"

text \<open>\<open>single s ps\<close>: only socket \<open>s\<close> is polled; the other elements are unused.\<close>

definition single :: "int \<Rightarrow> pollset \<Rightarrow> bool" where
  "single s ps \<longleftrightarrow> pollset_ok ps \<and> 0 \<le> s \<and> s < maxFileDescriptor ps \<and>
     (\<forall>i < length (pollFileDescriptors ps).
        pollFileDescriptors ps ! i = (if int i = s then \<lparr>fd = s, events = POLLIN\<rparr> else zero_pollfd))"

lemma first_ready_at:
  assumes "n < length rs" "rs ! n > 0" "\<forall>i < n. rs ! i \<le> 0"
  shows "first_ready k rs = k + int n"
  using assms
proof (induction rs arbitrary: k n)
  case Nil
  then show ?case by simp
next
  case (Cons r rs)
  show ?case
  proof (cases n)
    case 0
    then show ?thesis using Cons.prems by simp
  next
    case (Suc m)
    have "\<forall>i < m. rs ! i \<le> 0" using Cons.prems(3) Suc by auto
    moreover have "\<not> r > 0" using Cons.prems(3) Suc by auto
    ultimately show ?thesis using Cons.IH [of m "k + 1"] Cons.prems Suc by simp
  qed
qed

lemma first_ready_none: "\<forall>r \<in> set rs. r \<le> 0 \<Longrightarrow> first_ready k rs = -1"
  by (induction rs arbitrary: k) auto

lemma first_ready_range: "first_ready k rs = -1 \<or> k \<le> first_ready k rs \<and> first_ready k rs < k + int (length rs)"
proof (induction rs arbitrary: k)
  case (Cons r rs)
  from Cons.IH [of "k + 1"] show ?case by auto
qed simp

lemma poll_result_quiet:
  assumes "nat (maxFileDescriptor ps) \<le> length (pollFileDescriptors ps)"
  shows "poll_result 0 False ps = Inr (-1)"
  using assms by (simp add: poll_result_def pollCall_def os_poll_value_def os_revents_def)

lemma single_revents:
  assumes "single s ps" "i < length (os_revents st ready ps)"
  shows "os_revents st ready ps ! i =
    (if int i = s then (if s = 0 then st else 0) + (if ready then POLLIN else 0) else st)"
  using assms by (auto simp: single_def os_revents_def zero_pollfd_def POLLIN_def)

text \<open>Element \<open>n\<close> is the first that reports something.\<close>

lemma poll_result_first:
  assumes "single s ps" "n < nat (maxFileDescriptor ps)" "os_revents st ready ps ! n > 0"
    and "\<forall>i < n. os_revents st ready ps ! i \<le> 0"
  shows "poll_result st ready ps = Inr (int n)"
proof -
  let ?rs = "os_revents st ready ps"
  have len: "length ?rs = nat (maxFileDescriptor ps)" "nat (maxFileDescriptor ps) \<le> length (pollFileDescriptors ps)"
    using assms(1) by (auto simp: single_def pollset_ok_def os_revents_def)
  have "?rs ! n \<in> set ?rs" using assms(2) len(1) by simp
  then have "0 < length (filter (\<lambda>r. r \<noteq> 0) ?rs)"
    using assms(3) by (auto simp: filter_empty_conv intro!: bexI [of _ "?rs ! n"])
  moreover have "first_ready 0 (take (nat (maxFileDescriptor ps)) ?rs) = 0 + int n"
    using assms(2-4) len(1) by (intro first_ready_at) simp_all
  ultimately show ?thesis using len(2) by (simp add: poll_result_def pollCall_def os_poll_value_def)
qed

lemma poll_result_ready:
  assumes "single s ps"
  shows "poll_result 0 True ps = Inr s"
proof -
  have s: "0 \<le> s" "nat s < nat (maxFileDescriptor ps)" "int (nat s) = s"
    "length (os_revents 0 True ps) = nat (maxFileDescriptor ps)"
    using assms by (auto simp: single_def pollset_ok_def os_revents_def)
  have "os_revents 0 True ps ! nat s > 0" "\<forall>i < nat s. os_revents 0 True ps ! i \<le> 0"
    using s by (auto simp: single_revents [OF assms] POLLIN_def)
  from poll_result_first [OF assms s(2) this] s(3) show ?thesis by simp
qed

text \<open>With the standard input closed or hung up, element 0 is always the first.\<close>

lemma poll_result_stdin:
  assumes "single s ps" "0 < st"
  shows "poll_result st ready ps = Inr 0"
proof -
  have s: "0 < nat (maxFileDescriptor ps)" "length (os_revents st ready ps) = nat (maxFileDescriptor ps)"
    using assms(1) by (auto simp: single_def pollset_ok_def os_revents_def)
  have "os_revents st ready ps ! 0 > 0"
    using s assms(2) by (auto simp: single_revents [OF assms(1)] POLLIN_def)
  from poll_result_first [OF assms(1) s(1) this] show ?thesis by simp
qed

lemma setup_add_single:
  assumes "maxFileDescriptor ps \<le> s + 1" "0 \<le> s" "setupPollSet True ps = Inr ps1"
  shows "\<exists>ps2. addToPollSet True s ps1 = Inr ps2 \<and> single s ps2 \<and> maxFileDescriptor ps2 = s + 1"
proof -
  have ps1: "pollFileDescriptors ps1 = replicate 10 zero_pollfd" "currentPollSetSize ps1 = 10"
    "maxFileDescriptor ps1 = maxFileDescriptor ps"
    using assms(3) by (auto simp: setupPollSet_def sCalloc_def POLL_SET_SIZE_def)
  show ?thesis
  proof (cases "s < 10")
    case True
    then show ?thesis using assms ps1
      by (auto simp: addToPollSet_def set_pollfd_def single_def pollset_ok_def zero_pollfd_def
          nth_list_update Let_def)
  next
    case False
    then show ?thesis using assms ps1
      by (auto simp: addToPollSet_def growPollSet_def srealloc_def set_pollfd_def single_def
          pollset_ok_def zero_pollfd_def nth_list_update nth_append Let_def POLL_SET_SIZE_def)
  qed
qed

subsection \<open>The interface\<close>

text \<open>
  What the programs do with a poll set: before each wait they set it up again and add their
  one socket, then they poll.
\<close>

fun set_up_times ::
    "('p \<Rightarrow> stop + 'p) \<Rightarrow> (int \<Rightarrow> 'p \<Rightarrow> stop + 'p) \<Rightarrow> nat \<Rightarrow> int \<Rightarrow> 'p \<Rightarrow> stop + 'p" where
  "set_up_times prep add 0 s ps = Inr ps"
| "set_up_times prep add (Suc n) s ps =
     (case prep ps of
        Inl e \<Rightarrow> Inl e
      | Inr ps1 \<Rightarrow> (case add s ps1 of Inl e \<Rightarrow> Inl e | Inr ps2 \<Rightarrow> set_up_times prep add n s ps2))"

text \<open>
  \<open>usable s ps\<close>: socket \<open>s\<close> may be added after the next set-up; \<open>polls s ps\<close>: it is the one
  polled.
\<close>

locale one_socket =
  fixes prep :: "'p \<Rightarrow> stop + 'p" and add :: "int \<Rightarrow> 'p \<Rightarrow> stop + 'p"
    and result :: "int \<Rightarrow> bool \<Rightarrow> 'p \<Rightarrow> stop + int"
    and usable polls :: "int \<Rightarrow> 'p \<Rightarrow> bool"
  assumes set_up: "usable s ps \<Longrightarrow> \<exists>ps1 ps2. prep ps = Inr ps1 \<and> add s ps1 = Inr ps2 \<and> polls s ps2"
    and again: "polls s ps \<Longrightarrow> usable s ps"
    and ready: "polls s ps \<Longrightarrow> result 0 True ps = Inr s"
    and quiet: "polls s ps \<Longrightarrow> result 0 False ps = Inr (-1)"
    and stdin_gone: "polls s ps \<Longrightarrow> 0 < st \<Longrightarrow> result st waiting ps = Inr 0"
begin

lemma set_up_times_polls: "usable s ps \<Longrightarrow> \<exists>ps'. set_up_times prep add (Suc n) s ps = Inr ps' \<and> polls s ps'"
proof (induction n arbitrary: ps)
  case 0
  from set_up [OF 0] show ?case by auto
next
  case (Suc n)
  from set_up [OF Suc.prems] obtain ps1 ps2 where
    "prep ps = Inr ps1" "add s ps1 = Inr ps2" "polls s ps2" by blast
  with Suc.IH [OF again] show ?case by auto
qed

lemma waits:
  assumes "usable s ps"
  shows "\<exists>ps'. set_up_times prep add (Suc n) s ps = Inr ps' \<and>
    (\<forall>waiting. result 0 waiting ps' = Inr (if waiting then s else -1)) \<and>
    (\<forall>st > 0. \<forall>waiting. result st waiting ps' = Inr 0)"
proof -
  obtain ps' where ps': "set_up_times prep add (Suc n) s ps = Inr ps'" "polls s ps'"
    using set_up_times_polls [OF assms] by blast
  have "result 0 waiting ps' = Inr (if waiting then s else -1)" for waiting
    using ready [OF ps'(2)] quiet [OF ps'(2)] by (cases waiting) simp_all
  with ps' stdin_gone [OF ps'(2)] show ?thesis by blast
qed

end

definition can_add :: "int \<Rightarrow> pollset \<Rightarrow> bool" where
  "can_add s ps \<longleftrightarrow> 0 \<le> s \<and> maxFileDescriptor ps \<le> s + 1"

interpretation pset_single: one_socket "setupPollSet True" "addToPollSet True" poll_result can_add
    "\<lambda>s ps. single s ps \<and> can_add s ps"
proof unfold_locales
  fix s ps
  assume c: "can_add s ps"
  obtain ps1 where ps1: "setupPollSet True ps = Inr ps1" by (simp add: setupPollSet_def sCalloc_def)
  with c setup_add_single [of ps s ps1] show "\<exists>ps1 ps2. setupPollSet True ps = Inr ps1 \<and>
      addToPollSet True s ps1 = Inr ps2 \<and> single s ps2 \<and> can_add s ps2"
    by (auto simp: can_add_def)
qed (auto simp: single_def pollset_ok_def intro!: poll_result_ready poll_result_quiet poll_result_stdin)

subsection \<open>Properties\<close>

text \<open>
  C40: Setting up the poll set and adding one socket, any number of times over as the programs
  do before each wait, on a heap that allocates and with a high-water mark no further than
  that socket, gives a set on which \<open>pollCall\<close> returns that socket when it has input and \<open>-1\<close>
  on a timeout, also for descriptors beyond the initial ten elements, as long as \<open>poll\<close> finds
  nothing exceptional on descriptor 0, which every unused element names.  With the standard input
  closed or hung up \<open>pollCall\<close> returns 0 at once, whatever the socket holds: it neither waits nor
  reports the socket.
\<close>

theorem single_socket_contract:
  assumes "0 \<le> s" "maxFileDescriptor ps \<le> s + 1"
  shows "\<exists>ps'. set_up_times (setupPollSet True) (addToPollSet True) (Suc n) s ps = Inr ps' \<and>
    (\<forall>waiting. poll_result 0 waiting ps' = Inr (if waiting then s else -1)) \<and>
    (\<forall>st > 0. \<forall>waiting. poll_result st waiting ps' = Inr 0)"
  by (rule pset_single.waits) (simp add: can_add_def assms)

theorem single_socket_contract_witness:
  "\<exists>ps'. set_up_times (setupPollSet True) (addToPollSet True) 3 12 initial_pollset = Inr ps' \<and>
     poll_result 0 True ps' = Inr 12 \<and> poll_result 0 False ps' = Inr (-1) \<and> poll_result 16 True ps' = Inr 0"
  using single_socket_contract [of 12 initial_pollset 2]
  by (auto simp: initial_pollset_def numeral_3_eq_3 simp del: set_up_times.simps)

text \<open>
  \<open>setupPollSet\<close> allocates ten elements but leaves the static high-water mark of an
  earlier set in place: after a descriptor of ten or more, setting up a set for a smaller one
  makes \<open>pollCall\<close> run past the array.
\<close>

lemma stale_high_water_mark:
  assumes "10 < maxFileDescriptor ps" "0 \<le> s" "s < 10"
  shows "\<exists>ps1 ps2. setupPollSet True ps = Inr ps1 \<and> addToPollSet True s ps1 = Inr ps2 \<and>
    pollCall ps2 v rs = Inl (Fault OutOfBounds)"
  using assms
  by (auto simp: setupPollSet_def sCalloc_def addToPollSet_def set_pollfd_def pollCall_def
      POLL_SET_SIZE_def Let_def)

end
