(* ===== verification/Pdu.thy ===== *)
theory Pdu
  imports Prelude
begin

text \<open>
  The application PDU of \<open>functions.c\<close>: a seven byte header (sequence number in network
  order, checksum, flag) and the payload.  \<open>in_cksum\<close> comes from the binary library
  \<open>libcpe464\<close>; it is the parameter \<open>ck\<close> of every definition that calls it.  The lemmas give
  the bytes each builder writes, their round trip through the header accessors the receivers
  use, and the bounds under which the builders stay inside their buffers.
\<close>

subsection \<open>The builders\<close>

type_synonym cksum = "byte list \<Rightarrow> u16"

definition MAXBUF :: nat where "MAXBUF = 1400"

text \<open>
  \<open>createPDU\<close>: \<open>cap\<close> is the size of the object behind \<open>pduBuffer\<close>, \<open>payload\<close> the bytes
  that can be read from the payload pointer (none for \<open>NULL\<close>).  The returned length is the
  length of the returned list.
\<close>

definition createPDU :: "cksum \<Rightarrow> nat \<Rightarrow> u32 \<Rightarrow> byte \<Rightarrow> byte list \<Rightarrow> int \<Rightarrow> byte list res" where
  "createPDU ck cap sequenceNumber flag payload payloadLen =
     rbind (memcpy_at cap [] 0 (store32 (htonl sequenceNumber))) (\<lambda>b.
     rbind (memcpy_at cap b 4 (store16 0)) (\<lambda>b.
     rbind (memcpy_at cap b 6 [flag]) (\<lambda>b.
     rbind (read_bytes payload payloadLen) (\<lambda>p.
     rbind (memcpy_at cap b 7 p) (\<lambda>b.
       memcpy_at cap b 4 (store16 (ck b)))))))"

definition send_rr :: "cksum \<Rightarrow> u32 \<Rightarrow> byte list res" where
  "send_rr ck next =
     rbind (memcpy_at 7 [] 0 (store32 (htonl next))) (\<lambda>b.
     rbind (memcpy_at 7 b 4 [0, 0]) (\<lambda>b.
     rbind (memcpy_at 7 b 6 [5]) (\<lambda>b.
       memcpy_at 7 b 4 (store16 (ck b)))))"

definition send_srej :: "cksum \<Rightarrow> u32 \<Rightarrow> byte list res" where
  "send_srej ck missingSeq =
     rbind (memcpy_at 7 [] 0 (store32 (htonl missingSeq))) (\<lambda>b.
     rbind (memcpy_at 7 b 4 [0, 0]) (\<lambda>b.
     rbind (memcpy_at 7 b 6 [6]) (\<lambda>b.
       memcpy_at 7 b 4 (store16 (ck b)))))"

text \<open>
  A receive buffer: the datagram's bytes, then whatever the stack held there.
\<close>

type_synonym rbuf = "nat \<Rightarrow> byte"

definition rbuf_of :: "byte list \<Rightarrow> (nat \<Rightarrow> byte) \<Rightarrow> rbuf" where
  "rbuf_of d junk = (\<lambda>i. if i < length d then d ! i else junk i)"

definition hdr_seq :: "rbuf \<Rightarrow> u32" where
  "hdr_seq b = ntohl (load32 (b 0) (b 1) (b 2) (b 3))"

definition hdr_cksum :: "rbuf \<Rightarrow> u16" where
  "hdr_cksum b = load16 (b 4) (b 5)"

definition hdr_flag :: "rbuf \<Rightarrow> byte" where
  "hdr_flag b = b 6"

text \<open>
  \<open>printPDU\<close>: \<open>None\<close> is the \<open>exit(-1)\<close> on a bad checksum, \<open>Some\<close> the four printed
  values.  The payload goes through \<open>%.*s\<close>: it ends at a zero byte, and a negative precision
  counts as none.
\<close>

definition printf_prec :: "byte list \<Rightarrow> int \<Rightarrow> byte list res" where
  "printf_prec src prec =
     (if 0 \<le> prec
      then if int (length src) < prec \<and> 0 \<notin> set src then Inl OutOfBounds
           else Inr (takeWhile (\<lambda>c. c \<noteq> 0) (take (nat prec) src))
      else if 0 \<in> set src then Inr (takeWhile (\<lambda>c. c \<noteq> 0) src) else Inl OutOfBounds)"

definition printPDU :: "cksum \<Rightarrow> byte list \<Rightarrow> int \<Rightarrow> (u32 \<times> byte \<times> byte list \<times> int) option res" where
  "printPDU ck aPDU pduLength =
     rbind (read_bytes aPDU pduLength) (\<lambda>p.
       if ck p \<noteq> 0 then Inr None
       else rbind (guard OutOfBounds (7 \<le> length aPDU)) (\<lambda>_.
            rbind (printf_prec (drop 7 aPDU) (pduLength - 7)) (\<lambda>s.
              let b = (\<lambda>i. aPDU ! i)
              in Inr (Some (hdr_seq b, hdr_flag b, s, pduLength - 7)))))"

subsection \<open>The bytes of a PDU\<close>

definition pdu_of :: "cksum \<Rightarrow> u32 \<Rightarrow> byte \<Rightarrow> byte list \<Rightarrow> byte list" where
  "pdu_of ck sq fl p =
     store32 (htonl sq) @ store16 (ck (store32 (htonl sq) @ [0, 0, fl] @ p)) @ fl # p"

lemma store16_0 [simp]: "store16 0 = [0, 0]"
  by (simp add: store16_def)

lemma length_pdu_of [simp]: "length (pdu_of ck sq fl p) = 7 + length p"
  by (simp add: pdu_of_def)

lemma drop_pdu_of [simp]: "drop 7 (pdu_of ck sq fl p) = p"
  by (simp add: pdu_of_def)

lemma nth_pdu_of:
  "pdu_of ck sq fl p ! 0 = ucast (htonl sq)"
  "pdu_of ck sq fl p ! Suc 0 = ucast (drop_bit 8 (htonl sq))"
  "pdu_of ck sq fl p ! 2 = ucast (drop_bit 16 (htonl sq))"
  "pdu_of ck sq fl p ! 3 = ucast (drop_bit 24 (htonl sq))"
  "pdu_of ck sq fl p ! 6 = fl"
  by (simp_all add: pdu_of_def store32_def store16_def nth_Cons')

lemma createPDU_eq:
  assumes "0 \<le> n" "n \<le> int (length payload)" "7 + nat n \<le> cap"
  shows "createPDU ck cap sq fl payload n = Inr (pdu_of ck sq fl (take (nat n) payload))"
  using assms by (simp add: createPDU_def memcpy_at_def read_bytes_def pdu_of_def store32_def
      store16_def min_def)

lemma createPDU_full:
  "7 + length p \<le> cap \<Longrightarrow> createPDU ck cap sq fl p (int (length p)) = Inr (pdu_of ck sq fl p)"
  by (simp add: createPDU_eq)

lemma createPDU_empty [simp]: "7 \<le> cap \<Longrightarrow> createPDU ck cap sq fl [] 0 = Inr (pdu_of ck sq fl [])"
  by (simp add: createPDU_eq)

lemma createPDU_negative: "n < 0 \<Longrightarrow> createPDU ck cap sq fl payload n = Inl OutOfBounds"
  by (simp add: createPDU_def memcpy_at_def read_bytes_def)

lemma createPDU_Inr:
  assumes "createPDU ck cap sq fl payload n = Inr b"
  shows "0 \<le> n" "n \<le> int (length payload)" "7 + nat n \<le> cap"
    and "b = pdu_of ck sq fl (take (nat n) payload)"
proof -
  from assms show "0 \<le> n" "n \<le> int (length payload)" and "7 + nat n \<le> cap"
    by (auto simp: createPDU_def memcpy_at_def res_eqs split: if_splits)
  with assms show "b = pdu_of ck sq fl (take (nat n) payload)"
    by (simp add: createPDU_eq)
qed

lemma send_rr_eq [simp]: "send_rr ck n = Inr (pdu_of ck n 5 [])"
  by (simp add: send_rr_def memcpy_at_def pdu_of_def store32_def store16_def)

lemma send_srej_eq [simp]: "send_srej ck n = Inr (pdu_of ck n 6 [])"
  by (simp add: send_srej_def memcpy_at_def pdu_of_def store32_def store16_def)

lemma hdr_pdu_of [simp]:
  "hdr_seq (rbuf_of (pdu_of ck sq fl p) junk) = sq"
  "hdr_flag (rbuf_of (pdu_of ck sq fl p) junk) = fl"
  "hdr_cksum (rbuf_of (pdu_of ck sq fl p) junk)
     = ck (store32 (htonl sq) @ [0, 0, fl] @ p)"
proof -
  show "hdr_seq (rbuf_of (pdu_of ck sq fl p) junk) = sq"
    by (simp add: hdr_seq_def rbuf_of_def nth_pdu_of)
  show "hdr_flag (rbuf_of (pdu_of ck sq fl p) junk) = fl"
    by (simp add: hdr_flag_def rbuf_of_def nth_pdu_of)
  show "hdr_cksum (rbuf_of (pdu_of ck sq fl p) junk) = ck (store32 (htonl sq) @ [0, 0, fl] @ p)"
    by (simp add: hdr_cksum_def rbuf_of_def pdu_of_def store32_def store16_def nth_Cons')
qed

subsection \<open>Whole transfers\<close>

text \<open>What a server sends over a network that behaves: the chunks \<open>k\<close>, \dots,
  \<open>n - 1\<close>, then EOF; and what the client answers.\<close>

definition data_run :: "cksum \<Rightarrow> (nat \<Rightarrow> byte list) \<Rightarrow> nat \<Rightarrow> nat \<Rightarrow> byte list list" where
  "data_run ck chunk k n =
     map (\<lambda>s. pdu_of ck (word_of_nat s) 16 (chunk s)) [k..<n] @ [pdu_of ck (word_of_nat n) 10 []]"

definition rr_run :: "cksum \<Rightarrow> nat \<Rightarrow> nat \<Rightarrow> byte list list" where
  "rr_run ck k n =
     map (\<lambda>s. pdu_of ck (word_of_nat (Suc s)) 5 []) [k..<n] @ [pdu_of ck (word_of_nat n) 35 []]"

lemma run_rec:
  "k < n \<Longrightarrow> data_run ck chunk k n = pdu_of ck (word_of_nat k) 16 (chunk k) # data_run ck chunk (Suc k) n"
  "k < n \<Longrightarrow> rr_run ck k n = pdu_of ck (word_of_nat (Suc k)) 5 [] # rr_run ck (Suc k) n"
  "data_run ck chunk n n = [pdu_of ck (word_of_nat n) 10 []]"
  "rr_run ck n n = [pdu_of ck (word_of_nat n) 35 []]"
  by (simp_all add: data_run_def rr_run_def upt_conv_Cons)

subsection \<open>Properties\<close>

text \<open>
  C25: \<open>createPDU\<close> succeeds exactly when the payload length is not negative, that many
  payload bytes can be read and header and payload fit the buffer; it then writes the
  sequence number in network order, the checksum taken with a zero checksum field, the flag
  and the payload, and nothing else.
\<close>

theorem createPDU_spec:
  "createPDU ck cap sq fl payload n = Inr b \<longleftrightarrow>
     0 \<le> n \<and> n \<le> int (length payload) \<and> 7 + nat n \<le> cap \<and>
     b = store32 (htonl sq) @
         store16 (ck (store32 (htonl sq) @ [0, 0, fl] @ take (nat n) payload)) @
         fl # take (nat n) payload"
proof
  assume "createPDU ck cap sq fl payload n = Inr b"
  from createPDU_Inr [OF this] show "0 \<le> n \<and> n \<le> int (length payload) \<and> 7 + nat n \<le> cap \<and>
      b = store32 (htonl sq) @ store16 (ck (store32 (htonl sq) @ [0, 0, fl] @ take (nat n) payload)) @
          fl # take (nat n) payload" by (simp add: pdu_of_def)
qed (simp add: createPDU_eq pdu_of_def)

text \<open>
  C26: The receivers' header accessors recover from the PDU of \<open>createPDU\<close> the sequence
  number, the flag and the payload, whatever follows it in the receive buffer.
\<close>

theorem header_roundtrip:
  assumes "createPDU ck cap sq fl payload n = Inr b"
  shows "hdr_seq (rbuf_of b junk) = sq \<and> hdr_flag (rbuf_of b junk) = fl \<and>
    int (length b) - 7 = n \<and> map (\<lambda>i. rbuf_of b junk (7 + i)) [0..<nat n] = take (nat n) payload"
proof -
  note C = createPDU_Inr [OF assms]
  have "map (\<lambda>i. rbuf_of b junk (7 + i)) [0..<nat n] = take (nat n) payload"
  proof (rule nth_equalityI)
    fix i assume "i < length (map (\<lambda>i. rbuf_of b junk (7 + i)) [0..<nat n])"
    moreover have "drop 7 b = take (nat n) payload" using C(4) by simp
    then have "b ! (7 + i) = take (nat n) payload ! i" using C by (metis drop_pdu_of length_pdu_of le_add1 nth_drop)
    ultimately show "map (\<lambda>i. rbuf_of b junk (7 + i)) [0..<nat n] ! i = take (nat n) payload ! i"
      using C by (simp add: rbuf_of_def)
  qed (use C in simp)
  with C show ?thesis by simp
qed

theorem header_roundtrip_witness:
  "\<exists>b. createPDU (\<lambda>_. 7) 16 258 10 [1, 2] 2 = Inr b \<and> hdr_seq (rbuf_of b (\<lambda>_. 9)) = 258 \<and>
     hdr_flag (rbuf_of b (\<lambda>_. 9)) = 10"
proof -
  have c: "createPDU (\<lambda>_. 7) 16 258 10 [1, 2] 2 = Inr (pdu_of (\<lambda>_. 7) 258 10 [1, 2])"
    by (simp add: createPDU_eq)
  from header_roundtrip [OF c, of "\<lambda>_. 9"] c show ?thesis by blast
qed

text \<open>
  A PDU whose stored checksum makes \<open>in_cksum\<close> over the whole PDU zero is printed by
  \<open>printPDU\<close> with its own number, flag and length, the payload up to its first zero byte.
\<close>

lemma printPDU_prints:
  assumes "createPDU ck cap sq fl payload n = Inr b" "ck b = 0"
  shows "printPDU ck b (int (length b)) =
    Inr (Some (sq, fl, takeWhile (\<lambda>c. c \<noteq> 0) (take (nat n) payload), n))"
proof -
  note C = createPDU_Inr [OF assms(1)]
  have "drop 7 b = take (nat n) payload" "int (length b) - 7 = n" "7 \<le> length b" using C by simp_all
  moreover have "hdr_seq (\<lambda>i. b ! i) = sq" "hdr_flag (\<lambda>i. b ! i) = fl"
    using C(4) by (simp_all add: hdr_seq_def hdr_flag_def nth_pdu_of)
  ultimately show ?thesis
    using C(1,2) assms(2) by (simp add: printPDU_def printf_prec_def Let_def)
qed

text \<open>
  A checksum with that property to instantiate the parameter: the one's complement sum of the
  16 bit words, an odd last byte padded with zero (RFC 1071).
\<close>

fun sum16 :: "byte list \<Rightarrow> int" where
  "sum16 [] = 0"
| "sum16 [a] = uint a"
| "sum16 (a # b # bs) = uint a + 256 * uint b + sum16 bs"

definition inet_cksum :: cksum where
  "inet_cksum bs = (let s = sum16 bs; t = s mod 65536 + s div 65536
                    in NOT (word_of_int (t + t div 65536)))"

end
