(* ===== verification/Platform.thy ===== *)
theory Platform
  imports Complex_Main PollLib Pdu
begin

text \<open>
  The process around the C code: the network schedule it will observe, its poll set, the
  allocator, its descriptors, the files it can reach and the log of the datagrams it hands to
  \<open>sendtoErr\<close>.  A program is a run over this world.  \<open>safeUtil.c\<close>'s checked calls and the UDP set-up functions of
  \<open>networks.c\<close> are modelled here on top of the system calls they make.
\<close>

subsection \<open>World and programs\<close>

type_synonym addr = nat

text \<open>
  What the network does next to this process: a datagram arrives from an address, a receive
  fails, or nothing arrives within one poll interval.  Every wait consumes from the front of
  the schedule; a process that waits on an empty schedule is \<open>Blocked\<close>.
\<close>

datatype event = Arrive "byte list" addr | RecvError | Quiet

record world =
  schedule :: "event list"
  pset :: pollset
  junk :: "nat \<Rightarrow> nat \<Rightarrow> byte"
  heap :: "nat \<Rightarrow> bool"
  allocs :: nat
  open_fds :: "nat list"
  sockets_ok :: bool
  resolve :: "byte list \<Rightarrow> int \<Rightarrow> addr option"
  readable :: "byte list \<Rightarrow> byte list option"
  writable :: "byte list \<Rightarrow> bool"
  sent :: "(int \<times> byte list \<times> addr) list"

type_synonym 'a prog = "(world, 'a) run"

subsection \<open>Allocation and polling\<close>

text \<open>The \<open>n\<close>-th allocation of the run succeeds when \<open>heap n\<close> does.\<close>

definition alloc :: "bool prog" where
  "alloc w = (Inr (heap w (allocs w)), w\<lparr>allocs := allocs w + 1\<rparr>)"

definition on_pset :: "(pollset \<Rightarrow> stop + pollset) \<Rightarrow> unit prog" where
  "on_pset f w = (case f (pset w) of Inl s \<Rightarrow> (Inl s, w) | Inr ps \<Rightarrow> (Inr (), w\<lparr>pset := ps\<rparr>))"

definition setup_poll_set :: "unit prog" where
  "setup_poll_set = bnd alloc (\<lambda>mem. on_pset (setupPollSet mem))"

text \<open>Only a growing poll set allocates.\<close>

definition add_to_poll_set :: "int \<Rightarrow> unit prog" where
  "add_to_poll_set s w =
     (if s \<ge> currentPollSetSize (pset w) then bnd alloc (\<lambda>mem. on_pset (addToPollSet mem s)) w
      else on_pset (addToPollSet True s) w)"

text \<open>
  \<open>pollCall\<close>: a quiet interval is consumed and reported as a timeout (a negative timeout
  waits through quiet intervals); a waiting datagram stays where it is.  The worlds of this
  development are those of a process whose standard input is open and not hung up (the 0 given to
  \<open>poll_result\<close>); what \<open>pollCall\<close> does otherwise is \<open>poll_result_stdin\<close> in \<open>PollLib\<close>.
\<close>

definition poll_call :: "int \<Rightarrow> int prog" where
  "poll_call timeInMilliSeconds w =
     (case (if timeInMilliSeconds < 0 then dropWhile (\<lambda>e. e = Quiet) (schedule w) else schedule w) of
        [] \<Rightarrow> (Inl Blocked, w\<lparr>schedule := []\<rparr>)
      | Quiet # es \<Rightarrow> (poll_result 0 False (pset w), w\<lparr>schedule := es\<rparr>)
      | e # es \<Rightarrow> (poll_result 0 True (pset w), w\<lparr>schedule := e # es\<rparr>))"

lemma on_pset_schedule: "on_pset f w = (r, w') \<Longrightarrow> schedule w' = schedule w"
  by (auto simp: on_pset_def split: sum.splits)

lemma setup_poll_set_schedule: "setup_poll_set w = (r, w') \<Longrightarrow> schedule w' = schedule w"
  by (auto simp: setup_poll_set_def bnd_def alloc_def dest: on_pset_schedule)

lemma add_to_poll_set_schedule: "add_to_poll_set s w = (r, w') \<Longrightarrow> schedule w' = schedule w"
  by (auto simp: add_to_poll_set_def bnd_def alloc_def dest: on_pset_schedule split: if_splits)

text \<open>A poll either consumes a quiet interval and reports \<open>-1\<close>, or leaves a waiting event.\<close>

lemma poll_call_cases:
  assumes "poll_call t w = (Inr r, w')" "0 \<le> t"
  obtains es where "schedule w = Quiet # es" "schedule w' = es" "r = -1" "pset w' = pset w"
  | "schedule w \<noteq> []" "hd (schedule w) \<noteq> Quiet" "w' = w" "poll_result 0 True (pset w) = Inr r"
proof -
  have quiet: "poll_result 0 False ps = Inr r \<Longrightarrow> r = -1" for ps
    by (auto simp: poll_result_def pollCall_def os_poll_value_def os_revents_def split: if_splits)
  show thesis
    using assms that
    by (auto simp: poll_call_def split: list.splits event.splits dest: quiet)
qed

lemma poll_call_schedule:
  "poll_call t w = (Inr r, w') \<Longrightarrow> 0 \<le> t \<Longrightarrow>
   length (schedule w') < length (schedule w) \<or> w' = w"
  by (erule poll_call_cases) auto

text \<open>Polling one socket, on a set just set up or left over from before.\<close>

definition pset_sane :: "world \<Rightarrow> bool" where
  "pset_sane w \<longleftrightarrow> nat (maxFileDescriptor (pset w)) \<le> length (pollFileDescriptors (pset w))"

lemma poll_call_quiet:
  "pset_sane w \<Longrightarrow> schedule w = Quiet # es \<Longrightarrow> 0 \<le> t \<Longrightarrow> poll_call t w = (Inr (-1), w\<lparr>schedule := es\<rparr>)"
  by (simp add: poll_call_def poll_result_quiet pset_sane_def)

lemma setup_poll_ready:
  assumes "heap w = (\<lambda>_. True)" "0 \<le> s" "maxFileDescriptor (pset w) \<le> s + 1"
  obtains ps n where "bnd setup_poll_set (\<lambda>_. bnd (add_to_poll_set s) k) w = k () (w\<lparr>allocs := n, pset := ps\<rparr>)"
    "single s ps" "maxFileDescriptor ps = s + 1"
proof -
  obtain ps1 where ps1: "setupPollSet True (pset w) = Inr ps1"
    by (simp add: setupPollSet_def sCalloc_def)
  from setup_add_single [OF assms(3,2) ps1] obtain ps2 where ps2: "addToPollSet True s ps1 = Inr ps2"
    "single s ps2" "maxFileDescriptor ps2 = s + 1" by blast
  have "bnd setup_poll_set (\<lambda>_. bnd (add_to_poll_set s) k) w =
    k () (w\<lparr>allocs := allocs w + (if s \<ge> currentPollSetSize ps1 then 2 else 1), pset := ps2\<rparr>)"
    using assms(1) ps1 ps2(1)
    by (simp add: setup_poll_set_def add_to_poll_set_def alloc_def on_pset_def bnd_def)
  with ps2(2,3) that show thesis by blast
qed

lemma single_sane: "single s (pset w) \<Longrightarrow> pset_sane w"
  by (auto simp: single_def pollset_ok_def pset_sane_def)

lemma poll_call_arrive:
  "single s (pset w) \<Longrightarrow> schedule w = Arrive d a # es \<Longrightarrow> poll_call t w = (Inr s, w)"
  by (simp add: poll_call_def poll_result_ready)

subsection \<open>Checked calls of \<open>safeUtil.c\<close>\<close>

text \<open>
  \<open>recvfrom\<close> fails on a descriptor that is not open.  On an open one it waits through quiet
  intervals, cuts a datagram at the length the caller asked for and leaves the rest of the
  caller's buffer as the stack had it.
\<close>

definition is_open :: "world \<Rightarrow> int \<Rightarrow> bool" where
  "is_open w s \<longleftrightarrow> 0 \<le> s \<and> nat s \<in> set (open_fds w)"

definition recvfrom :: "int \<Rightarrow> nat \<Rightarrow> (rbuf \<times> int \<times> addr) prog" where
  "recvfrom s len w =
     (let stack = junk w (length (schedule w))
      in if \<not> is_open w s then (Inr (stack, -1, 0), w)
         else case dropWhile (\<lambda>e. e = Quiet) (schedule w) of
                [] \<Rightarrow> (Inl Blocked, w\<lparr>schedule := []\<rparr>)
              | Arrive d a # es \<Rightarrow>
                  (Inr (rbuf_of (take len d) stack, int (length (take len d)), a), w\<lparr>schedule := es\<rparr>)
              | _ # es \<Rightarrow> (Inr (stack, -1, 0), w\<lparr>schedule := es\<rparr>))"

definition safeRecvfrom :: "int \<Rightarrow> nat \<Rightarrow> (rbuf \<times> int \<times> addr) prog" where
  "safeRecvfrom s len =
     bnd (recvfrom s len) (\<lambda>(b, returnValue, src).
       if returnValue < 0 then stop_with (Exited (-1)) else ret (b, returnValue, src))"

lemma safeRecvfrom_schedule:
  "safeRecvfrom s n w = (Inr r, w') \<Longrightarrow> length (schedule w') < length (schedule w)"
proof -
  assume a: "safeRecvfrom s n w = (Inr r, w')"
  then obtain e es where "dropWhile (\<lambda>e. e = Quiet) (schedule w) = e # es" "schedule w' = es"
    by (auto simp: safeRecvfrom_def bnd_eq_Inr recvfrom_def Let_def split: list.splits event.splits if_splits)
  then show ?thesis using length_dropWhile_le [of "\<lambda>e. e = Quiet" "schedule w"] by simp
qed

lemma safeRecvfrom_arrive:
  "is_open w s \<Longrightarrow> schedule w = Arrive d a # es \<Longrightarrow> length d \<le> len \<Longrightarrow>
   safeRecvfrom s len w =
     (Inr (rbuf_of d (junk w (Suc (length es))), int (length d), a), w\<lparr>schedule := es\<rparr>)"
  by (simp add: safeRecvfrom_def recvfrom_def bnd_def Let_def)

text \<open>\<open>sendtoErr\<close> belongs to \<open>libcpe464\<close>: what counts here is what it is given.\<close>

definition sendtoErr :: "int \<Rightarrow> byte list \<Rightarrow> addr \<Rightarrow> unit prog" where
  "sendtoErr socketNum msg dst w = (Inr (), w\<lparr>sent := sent w @ [(socketNum, msg, dst)]\<rparr>)"

text \<open>\<open>sendto_value\<close> is what \<open>sendtoErr\<close> returns.\<close>

definition safeSendto :: "(byte list \<Rightarrow> int) \<Rightarrow> int \<Rightarrow> byte list \<Rightarrow> addr \<Rightarrow> int prog" where
  "safeSendto sendto_value socketNum buf srcAddr =
     bnd (sendtoErr socketNum buf srcAddr) (\<lambda>_.
       if sendto_value buf < 0 then stop_with (Exited (-1)) else ret (sendto_value buf))"

fun send_all :: "int \<Rightarrow> byte list list \<Rightarrow> addr \<Rightarrow> unit prog" where
  "send_all s [] dst = ret ()"
| "send_all s (m # ms) dst = bnd (sendtoErr s m dst) (\<lambda>_. send_all s ms dst)"

lemma send_all_eq: "send_all s ms dst w = (Inr (), w\<lparr>sent := sent w @ map (\<lambda>m. (s, m, dst)) ms\<rparr>)"
  by (induction ms arbitrary: w) (simp_all add: sendtoErr_def)

subsection \<open>Descriptors\<close>

text \<open>The kernel hands out the lowest descriptor that is not open.\<close>

definition lowest_free :: "nat list \<Rightarrow> nat" where
  "lowest_free fds = hd (filter (\<lambda>i. i \<notin> set fds) [0..<Suc (length fds)])"

definition open_fd :: "nat prog" where
  "open_fd w = (let n = lowest_free (open_fds w) in (Inr n, w\<lparr>open_fds := n # open_fds w\<rparr>))"

definition close_fd :: "int \<Rightarrow> unit prog" where
  "close_fd n w = (Inr (), w\<lparr>open_fds := filter (\<lambda>i. int i \<noteq> n) (open_fds w)\<rparr>)"

lemma hd_filter_upt:
  assumes "y < n" "P y" "\<forall>i < y. \<not> P i"
  shows "hd (filter P [0..<n]) = y"
proof -
  have "[0..<n] = [0..<y] @ y # [Suc y..<n]"
    using assms(1) upt_add_eq_append [of 0 y "n - y"] by (simp add: upt_conv_Cons)
  moreover have "filter P [0..<y] = []" using assms(3) by (simp add: filter_empty_conv)
  ultimately show ?thesis using assms(2) by simp
qed

lemma some_fd_free: "\<exists>i < Suc (length fds). i \<notin> set fds"
proof (rule ccontr)
  assume "\<not> ?thesis"
  then have "{..<Suc (length fds)} \<subseteq> set fds" by auto
  then have "Suc (length fds) \<le> card (set fds)"
    using card_mono [of "set fds" "{..<Suc (length fds)}"] by simp
  then show False using card_length [of fds] by simp
qed

lemma lowest_free_unique:
  assumes "n \<notin> set fds" "\<forall>i < n. i \<in> set fds"
  shows "lowest_free fds = n"
proof -
  obtain j where "j < Suc (length fds)" "j \<notin> set fds" using some_fd_free [of fds] by blast
  moreover have "n \<le> j" using assms(2) \<open>j \<notin> set fds\<close> by (metis not_le)
  ultimately have "n < Suc (length fds)" by simp
  then show ?thesis unfolding lowest_free_def using assms by (intro hd_filter_upt) auto
qed

lemma lowest_free_props:
  "lowest_free fds \<notin> set fds" "i < lowest_free fds \<Longrightarrow> i \<in> set fds"
proof -
  have "\<exists>n. n \<notin> set fds \<and> (\<forall>i < n. i \<in> set fds)"
    using some_fd_free [of fds] exists_least_iff [of "\<lambda>i. i \<notin> set fds"] by auto
  then obtain n where n: "n \<notin> set fds" "\<forall>i < n. i \<in> set fds" by blast
  then have eq: "lowest_free fds = n" by (rule lowest_free_unique)
  show "lowest_free fds \<notin> set fds" using n eq by simp
  show "i < lowest_free fds \<Longrightarrow> i \<in> set fds" using n eq by simp
qed

subsection \<open>UDP set-up of \<open>networks.c\<close>\<close>

text \<open>
  \<open>sockets_ok\<close> tells whether \<open>socket\<close> and \<open>bind\<close> succeed, \<open>resolve\<close> what
  \<open>gethostbyname6\<close> finds for a host name, paired with the port the caller stores.
\<close>

definition udpServerSetup :: "int \<Rightarrow> int prog" where
  "udpServerSetup serverPort w =
     (if sockets_ok w then bnd open_fd (\<lambda>n. ret (int n)) w else (Inl (Exited (-1)), w))"

definition setupUdpClientToServer :: "byte list \<Rightarrow> int \<Rightarrow> (int \<times> addr) prog" where
  "setupUdpClientToServer hostName serverPort w =
     (if \<not> sockets_ok w then (Inl (Exited (-1)), w)
      else bnd open_fd (\<lambda>n v.
             case resolve v hostName serverPort of
               None \<Rightarrow> (Inl (Exited (-1)), v)
             | Some a \<Rightarrow> (Inr (int n, a), v)) w)"

lemma udpServerSetup_eq:
  "sockets_ok w \<Longrightarrow> udpServerSetup p w =
     (Inr (int (lowest_free (open_fds w))), w\<lparr>open_fds := lowest_free (open_fds w) # open_fds w\<rparr>)"
  by (simp add: udpServerSetup_def bnd_def open_fd_def Let_def)

lemma setupUdpClientToServer_eq:
  "sockets_ok w \<Longrightarrow> resolve w host p = Some a \<Longrightarrow> setupUdpClientToServer host p w =
     (Inr (int (lowest_free (open_fds w)), a), w\<lparr>open_fds := lowest_free (open_fds w) # open_fds w\<rparr>)"
  by (simp add: setupUdpClientToServer_def bnd_def open_fd_def Let_def)

lemma open_fd_schedule: "open_fd w = (r, w') \<Longrightarrow> schedule w' = schedule w"
  by (auto simp: open_fd_def Let_def)

lemma close_fd_schedule: "close_fd s w = (r, w') \<Longrightarrow> schedule w' = schedule w"
  by (auto simp: close_fd_def)

lemma setup_client_schedule:
  "setupUdpClientToServer h p w = (Inr r, w') \<Longrightarrow> schedule w' = schedule w"
  by (auto simp: setupUdpClientToServer_def bnd_eq_Inr split: if_splits option.splits dest!: open_fd_schedule)

subsection \<open>Numbers on the command line\<close>

text \<open>
  \<open>atoi\<close>: white space, a sign, digits; the value saturates to \<open>long\<close> and is cut to
  \<open>int\<close>, as glibc's \<open>(int) strtol(s, NULL, 10)\<close> does.
\<close>

definition is_space :: "byte \<Rightarrow> bool" where
  "is_space c \<longleftrightarrow> c = 32 \<or> 9 \<le> c \<and> c \<le> 13"

definition is_digit :: "byte \<Rightarrow> bool" where
  "is_digit c \<longleftrightarrow> 48 \<le> c \<and> c \<le> 57"

definition digits_value :: "byte list \<Rightarrow> int" where
  "digits_value ds = foldl (\<lambda>v c. 10 * v + (uint c - 48)) 0 (takeWhile is_digit ds)"

definition strtol10 :: "byte list \<Rightarrow> int" where
  "strtol10 s =
     (case dropWhile is_space s of
        [] \<Rightarrow> 0
      | c # cs \<Rightarrow>
          max (- (2 ^ 63)) (min (2 ^ 63 - 1)
            (if c = 45 then - digits_value cs
             else if c = 43 then digits_value cs
             else digits_value (c # cs))))"

definition atoi :: "byte list \<Rightarrow> int" where
  "atoi s = sint (word_of_int (strtol10 s) :: 32 word)"

text \<open>
  What \<open>atof\<close> makes of the error rate, as a \<open>float\<close>: a number, or \<open>None\<close> for NaN, with which every
  comparison is false (an infinity stands among the numbers of at least 1 or below 0).  The check
  both programs make of it lets NaN pass.
\<close>

type_synonym c_float = "rat option"

fun bad_error_rate :: "c_float \<Rightarrow> bool" where
  "bad_error_rate None = False"
| "bad_error_rate (Some errorRate) = (errorRate < 0 \<or> errorRate \<ge> 1)"

text \<open>
  The world a process starts in when the allocator, the sockets, name resolution and every
  output file work: three descriptors open, nothing sent yet, zeros on the stack.
\<close>

definition start_world :: "event list \<Rightarrow> world" where
  "start_world es =
     \<lparr>schedule = es, pset = initial_pollset, junk = (\<lambda>_ _. 0), heap = (\<lambda>_. True), allocs = 0,
      open_fds = [2, 1, 0], sockets_ok = True, resolve = (\<lambda>_ _. Some 0), readable = (\<lambda>_. None),
      writable = (\<lambda>_. True), sent = []\<rparr>"

end
