(* ===== verification/CircularQueue.thy ===== *)
theory CircularQueue
  imports Prelude
begin

text \<open>
  The retransmission buffer of \<open>circularQueue.c\<close>: an array of \<open>WindowSize\<close> slots, slot
  \<open>seq % WindowSize\<close> for sequence number \<open>seq\<close>.  \<open>queue_lookup\<close> reads the queue as a finite
  map from sequence numbers to packets; the lemmas show that every operation keeps the
  representation invariant \<open>queue_ok\<close> and refines the map operation.  The locale
  \<open>send_window\<close> states that contract and derives what the sender relies on: a contiguous
  window of sequence numbers stays contiguous under insertion and cumulative removal.
\<close>

subsection \<open>State and operations\<close>

text \<open>
  \<open>packet\<close> is the heap block the pointer owns (\<open>None\<close> for \<open>NULL\<close>); \<open>entries\<close> is \<open>None\<close>
  for \<open>NULL\<close>.
\<close>

record QueueEntry =
  packet :: "byte list option"
  packetLen :: int
  sequenceNum :: u32
  valid :: bool

record CircularQueue =
  entries :: "QueueEntry list option"
  WindowSize :: int
  ValidCount :: int

definition zero_entry :: QueueEntry where
  "zero_entry = \<lparr>packet = None, packetLen = 0, sequenceNum = 0, valid = False\<rparr>"

definition entries_of :: "CircularQueue \<Rightarrow> QueueEntry list res" where
  "entries_of q = (case entries q of None \<Rightarrow> Inl NullPointer | Some es \<Rightarrow> Inr es)"

text \<open>\<open>mem\<close> tells whether the allocation succeeds; a negative size never does.\<close>

definition CircularQueue_init :: "bool \<Rightarrow> CircularQueue \<Rightarrow> int \<Rightarrow> int \<times> CircularQueue" where
  "CircularQueue_init mem q windowSize =
     (if \<not> mem \<or> windowSize < 0 then (-1, q\<lparr>entries := None\<rparr>)
      else (0, \<lparr>entries = Some (replicate (nat windowSize) zero_entry),
                WindowSize = windowSize, ValidCount = 0\<rparr>))"

definition CircularQueue_is_full :: "CircularQueue \<Rightarrow> bool" where
  "CircularQueue_is_full q \<longleftrightarrow> ValidCount q \<ge> WindowSize q"

definition CircularQueue_is_empty :: "CircularQueue \<Rightarrow> bool" where
  "CircularQueue_is_empty q \<longleftrightarrow> ValidCount q = 0"

definition CircularQueue_insert ::
    "bool \<Rightarrow> CircularQueue \<Rightarrow> u32 \<Rightarrow> byte list \<Rightarrow> int \<Rightarrow> (int \<times> CircularQueue) res" where
  "CircularQueue_insert mem q sq pkt len =
     (if CircularQueue_is_full q then Inr (-1, q)
      else rbind (umod sq (WindowSize q)) (\<lambda>index.
           rbind (entries_of q) (\<lambda>es.
           rbind (arr_get es index) (\<lambda>e.
             if valid e then Inr (-1, q)
             else if \<not> mem \<or> len < 0
             then Inr (-1, q\<lparr>entries := Some (es[index := e\<lparr>packet := None\<rparr>])\<rparr>)
             else rbind (read_bytes pkt len) (\<lambda>p.
               Inr (0, q\<lparr>entries := Some (es[index :=
                            e\<lparr>packet := Some p, packetLen := len, sequenceNum := sq, valid := True\<rparr>]),
                         ValidCount := ValidCount q + 1\<rparr>))))))"

text \<open>The returned pointer \<open>&queue->entries[index]\<close> is the index.\<close>

definition CircularQueue_get :: "CircularQueue \<Rightarrow> u32 \<Rightarrow> nat option res" where
  "CircularQueue_get q sq =
     rbind (umod sq (WindowSize q)) (\<lambda>index.
     rbind (entries_of q) (\<lambda>es.
     rbind (arr_get es index) (\<lambda>e.
       if valid e \<or> sequenceNum e \<noteq> sq then Inr (Some index) else Inr None)))"

definition CircularQueue_remove :: "CircularQueue \<Rightarrow> u32 \<Rightarrow> (int \<times> CircularQueue) res" where
  "CircularQueue_remove q sq =
     rbind (umod sq (WindowSize q)) (\<lambda>index.
     rbind (entries_of q) (\<lambda>es.
     rbind (arr_get es index) (\<lambda>e.
       if \<not> valid e \<or> sequenceNum e \<noteq> sq then Inr (-1, q)
       else Inr (0, q\<lparr>entries := Some (es[index := e\<lparr>packet := None, valid := False\<rparr>]),
                      ValidCount := ValidCount q - 1\<rparr>))))"

fun clear_loop :: "nat list \<Rightarrow> QueueEntry list \<Rightarrow> QueueEntry list res" where
  "clear_loop [] es = Inr es"
| "clear_loop (i # is) es =
     rbind (arr_get es i) (\<lambda>e.
       clear_loop is (if valid e then es[i := e\<lparr>packet := None, valid := False\<rparr>] else es))"

definition CircularQueue_clear :: "CircularQueue \<Rightarrow> (int \<times> CircularQueue) res" where
  "CircularQueue_clear q =
     (if WindowSize q \<le> 0 then Inr (0, q\<lparr>ValidCount := 0\<rparr>)
      else rbind (entries_of q) (\<lambda>es.
           rbind (clear_loop [0..<nat (WindowSize q)] es) (\<lambda>es'.
             Inr (0, q\<lparr>entries := Some es', ValidCount := 0\<rparr>))))"

definition CircularQueue_free :: "CircularQueue \<Rightarrow> (int \<times> CircularQueue) res" where
  "CircularQueue_free q =
     rbind (CircularQueue_clear q) (\<lambda>(_, q').
       Inr (0, q'\<lparr>entries := None, WindowSize := 0\<rparr>))"

subsection \<open>Invariant and abstraction\<close>

definition entry_ok :: "nat \<Rightarrow> nat \<Rightarrow> QueueEntry \<Rightarrow> bool" where
  "entry_ok w i e \<longleftrightarrow> (valid e \<longrightarrow> unat (sequenceNum e) mod w = i \<and>
     (\<exists>p. packet e = Some p \<and> packetLen e = int (length p))) \<and>
     (\<not> valid e \<longrightarrow> packet e = None)"

definition queue_ok :: "CircularQueue \<Rightarrow> bool" where
  "queue_ok q \<longleftrightarrow> 0 < WindowSize q \<and> WindowSize q < 2 ^ 31 \<and>
     (case entries q of None \<Rightarrow> False
      | Some es \<Rightarrow> length es = nat (WindowSize q) \<and>
          ValidCount q = int (length (filter valid es)) \<and>
          (\<forall>i < length es. entry_ok (length es) i (es ! i)))"

definition slot_lookup :: "QueueEntry list \<Rightarrow> u32 \<Rightarrow> byte list option" where
  "slot_lookup es sq =
     (let e = es ! (unat sq mod length es)
      in if valid e \<and> sequenceNum e = sq then packet e else None)"

definition queue_lookup :: "CircularQueue \<Rightarrow> u32 \<Rightarrow> byte list option" where
  "queue_lookup q sq = (case entries q of None \<Rightarrow> None | Some es \<Rightarrow> slot_lookup es sq)"

definition queue_cap :: "CircularQueue \<Rightarrow> nat" where
  "queue_cap q = nat (WindowSize q)"

lemma queue_okE:
  assumes "queue_ok q"
  obtains es where "entries q = Some es" "length es = nat (WindowSize q)" "0 < length es"
    "0 < WindowSize q" "WindowSize q < 2 ^ 31" "ValidCount q = int (length (filter valid es))"
    "\<And>i. i < length es \<Longrightarrow> entry_ok (length es) i (es ! i)"
  using assms by (auto simp: queue_ok_def split: option.splits)

lemma queue_okI:
  assumes "entries q = Some es" "length es = nat (WindowSize q)" "0 < WindowSize q"
    "WindowSize q < 2 ^ 31" "ValidCount q = int (length (filter valid es))"
    "\<And>i. i < length es \<Longrightarrow> entry_ok (length es) i (es ! i)"
  shows "queue_ok q"
  using assms by (auto simp: queue_ok_def)

lemma length_filter_update:
  assumes "i < length xs"
  shows "int (length (filter P (xs[i := x]))) =
    int (length (filter P xs)) - (if P (xs ! i) then 1 else 0) + (if P x then 1 else 0)"
  using assms
proof (induction xs arbitrary: i)
  case Nil
  then show ?case by simp
next
  case (Cons y ys)
  then show ?case
  proof (cases i)
    case (Suc j)
    with Cons.prems have "j < length ys" by simp
    from Cons.IH [OF this] Suc show ?thesis by auto
  qed auto
qed

lemma queue_ok_update:
  assumes "queue_ok q" "entries q = Some es" "i < length es" "entry_ok (length es) i e"
    and "n = ValidCount q - (if valid (es ! i) then 1 else 0) + (if valid e then 1 else 0)"
  shows "queue_ok (q\<lparr>entries := Some (es[i := e]), ValidCount := n\<rparr>)"
proof -
  have "\<And>j. j < length es \<Longrightarrow> entry_ok (length es) j (es[i := e] ! j)"
    using assms by (auto elim!: queue_okE simp: nth_list_update)
  then show ?thesis
    using assms by (intro queue_okI) (auto elim!: queue_okE simp: length_filter_update)
qed

lemma slot_lookup_update:
  assumes "0 < length es" "i = unat sq mod length es"
    and "\<not> valid (es ! i) \<or> sequenceNum (es ! i) = sq"
    and "valid e \<longrightarrow> sequenceNum e = sq"
  shows "slot_lookup (es[i := e]) =
    (slot_lookup es)(sq := (if valid e then packet e else None))"
  using assms by (auto simp: slot_lookup_def fun_eq_iff Let_def nth_list_update)

lemma dom_slot_lookup:
  assumes "\<And>i. i < length es \<Longrightarrow> entry_ok (length es) i (es ! i)" and "0 < length es"
  shows "dom (slot_lookup es) = (\<lambda>i. sequenceNum (es ! i)) ` {i. i < length es \<and> valid (es ! i)}"
    (is "_ = ?f ` ?V")
proof (rule set_eqI, rule iffI)
  fix s assume "s \<in> dom (slot_lookup es)"
  then have "s = ?f (unat s mod length es)" "unat s mod length es \<in> ?V"
    using assms(2) by (auto simp: slot_lookup_def Let_def split: if_splits)
  then show "s \<in> ?f ` ?V" by (rule image_eqI)
next
  fix s assume "s \<in> ?f ` ?V"
  then obtain i where i: "i < length es" "valid (es ! i)" "s = sequenceNum (es ! i)" by auto
  with assms(1) [OF i(1)] have "unat s mod length es = i" "packet (es ! i) \<noteq> None"
    by (auto simp: entry_ok_def split: option.splits)
  with i show "s \<in> dom (slot_lookup es)" by (auto simp: slot_lookup_def Let_def)
qed

lemma card_dom_slot_lookup:
  assumes "\<And>i. i < length es \<Longrightarrow> entry_ok (length es) i (es ! i)" and "0 < length es"
  shows "card (dom (slot_lookup es)) = length (filter valid es)"
proof -
  have "inj_on (\<lambda>i. sequenceNum (es ! i)) {i. i < length es \<and> valid (es ! i)}"
  proof (rule inj_onI)
    fix i j
    assume "i \<in> {i. i < length es \<and> valid (es ! i)}" "j \<in> {i. i < length es \<and> valid (es ! i)}"
      and "sequenceNum (es ! i) = sequenceNum (es ! j)"
    then show "i = j" using assms(1) [of i] assms(1) [of j] by (auto simp: entry_ok_def)
  qed
  then show ?thesis
    using dom_slot_lookup [OF assms] by (simp add: card_image length_filter_conv_card)
qed

lemma finite_dom_queue_lookup: "queue_ok q \<Longrightarrow> finite (dom (queue_lookup q))"
  by (rule finite_subset [OF subset_UNIV]) simp

lemma ValidCount_card: "queue_ok q \<Longrightarrow> ValidCount q = int (card (dom (queue_lookup q)))"
  by (elim queue_okE) (simp add: queue_lookup_def [abs_def] card_dom_slot_lookup)

subsection \<open>Every operation refines the map operation\<close>

lemma is_full_card: "queue_ok q \<Longrightarrow> CircularQueue_is_full q \<longleftrightarrow> queue_cap q \<le> card (dom (queue_lookup q))"
  by (auto simp: CircularQueue_is_full_def ValidCount_card queue_cap_def elim: queue_okE)

lemma is_empty_dom: "queue_ok q \<Longrightarrow> CircularQueue_is_empty q \<longleftrightarrow> queue_lookup q = (\<lambda>_. None)"
  by (simp add: CircularQueue_is_empty_def ValidCount_card finite_dom_queue_lookup)

lemma queue_init_ok:
  assumes "0 < n" "n < 2 ^ 31"
  shows "fst (CircularQueue_init True q n) = 0" "queue_ok (snd (CircularQueue_init True q n))"
    "queue_lookup (snd (CircularQueue_init True q n)) = (\<lambda>_. None)"
    "queue_cap (snd (CircularQueue_init True q n)) = nat n"
  using assms
  by (auto simp: CircularQueue_init_def queue_ok_def entry_ok_def zero_entry_def queue_cap_def
      queue_lookup_def slot_lookup_def fun_eq_iff)

lemma queue_slot:
  assumes "queue_ok q" "entries q = Some es"
  shows "umod sq (WindowSize q) = Inr (unat sq mod length es)" "unat sq mod length es < length es"
    "unat sq mod length es = unat sq mod queue_cap q"
  using assms by (auto elim!: queue_okE simp: queue_cap_def)

lemma free_slot:
  assumes "queue_ok q" "entries q = Some es"
    and "\<forall>t \<in> dom (queue_lookup q). unat t mod queue_cap q \<noteq> unat sq mod queue_cap q"
  shows "\<not> valid (es ! (unat sq mod length es))"
proof
  let ?i = "unat sq mod length es"
  assume v: "valid (es ! ?i)"
  have "entry_ok (length es) ?i (es ! ?i)" 
    and len: "length es = queue_cap q"
    using assms(1,2) queue_slot [OF assms(1,2)] by (auto elim!: queue_okE simp: queue_cap_def)
  with v have "sequenceNum (es ! ?i) \<in> dom (queue_lookup q)"
    "unat (sequenceNum (es ! ?i)) mod length es = ?i"
    using assms(2) by (auto simp: entry_ok_def queue_lookup_def slot_lookup_def Let_def split: option.splits)
  with assms(3) len show False by auto
qed

lemma queue_insert_ok:
  assumes ok: "queue_ok q" and "\<not> CircularQueue_is_full q"
    and "\<forall>t \<in> dom (queue_lookup q). unat t mod queue_cap q \<noteq> unat sq mod queue_cap q"
  shows "\<exists>q'. CircularQueue_insert True q sq p (int (length p)) = Inr (0, q') \<and> queue_ok q' \<and>
    queue_lookup q' = (queue_lookup q)(sq \<mapsto> p) \<and> queue_cap q' = queue_cap q"
proof -
  from ok obtain es where es: "entries q = Some es" "0 < length es" by (elim queue_okE)
  let ?i = "unat sq mod length es"
  let ?e = "(es ! ?i)\<lparr>packet := Some p, packetLen := int (length p), sequenceNum := sq, valid := True\<rparr>"
  let ?q = "q\<lparr>entries := Some (es[?i := ?e]), ValidCount := ValidCount q + 1\<rparr>"
  note slot = queue_slot [OF ok es(1), of sq]
  have free: "\<not> valid (es ! ?i)" using free_slot [OF ok es(1) assms(3)] .
  have "CircularQueue_insert True q sq p (int (length p)) = Inr (0, ?q)"
    using assms(2) slot free es by (simp add: CircularQueue_insert_def entries_of_def)
  moreover have "queue_ok ?q"
    using ok es(1) free slot(2) by (intro queue_ok_update) (simp_all add: entry_ok_def)
  moreover have "queue_lookup ?q = (queue_lookup q)(sq \<mapsto> p)"
    using slot_lookup_update [OF es(2) refl, of sq ?e] free es(1)
    by (simp add: queue_lookup_def [abs_def] fun_upd_def)
  ultimately show ?thesis by (auto simp: queue_cap_def)
qed

lemma queue_insert_occupied:
  assumes "queue_ok q" "queue_lookup q t = Some p" "unat t mod queue_cap q = unat sq mod queue_cap q"
  shows "CircularQueue_insert mem q sq pkt len = Inr (-1, q)"
proof -
  from assms(1) obtain es where es: "entries q = Some es" by (elim queue_okE)
  note slot = queue_slot [OF assms(1) es, of sq] queue_slot [OF assms(1) es, of t]
  from assms(2,3) es slot(3,6) have "valid (es ! (unat sq mod length es))"
    by (auto simp: queue_lookup_def slot_lookup_def Let_def split: if_splits)
  with es slot show ?thesis by (simp add: CircularQueue_insert_def entries_of_def)
qed

lemma queue_remove_ok:
  assumes ok: "queue_ok q"
  shows "\<exists>r q'. CircularQueue_remove q sq = Inr (r, q') \<and> queue_ok q' \<and>
    queue_lookup q' = (queue_lookup q)(sq := None) \<and> queue_cap q' = queue_cap q"
proof -
  from ok obtain es where es: "entries q = Some es" "0 < length es" by (elim queue_okE)
  let ?i = "unat sq mod length es"
  let ?e = "(es ! ?i)\<lparr>packet := None, valid := False\<rparr>"
  let ?q = "q\<lparr>entries := Some (es[?i := ?e]), ValidCount := ValidCount q - 1\<rparr>"
  note slot = queue_slot [OF ok es(1), of sq]
  show ?thesis
  proof (cases "valid (es ! ?i) \<and> sequenceNum (es ! ?i) = sq")
    case False
    then have "CircularQueue_remove q sq = Inr (-1, q)" "queue_lookup q sq = None"
      using slot es by (auto simp: CircularQueue_remove_def entries_of_def queue_lookup_def slot_lookup_def Let_def)
    then show ?thesis using ok by (auto simp: fun_upd_idem)
  next
    case True
    then have "CircularQueue_remove q sq = Inr (0, ?q)"
      using slot es by (simp add: CircularQueue_remove_def entries_of_def)
    moreover have "queue_ok ?q"
      using ok es(1) True slot(2) by (intro queue_ok_update) (simp_all add: entry_ok_def)
    moreover have "queue_lookup ?q = (queue_lookup q)(sq := None)"
      using slot_lookup_update [OF es(2) refl, of sq ?e] True es(1)
      by (simp add: queue_lookup_def [abs_def] fun_upd_def)
    ultimately show ?thesis by (auto simp: queue_cap_def)
  qed
qed

lemma queue_get_hit:
  assumes "queue_ok q" "queue_lookup q sq = Some p"
  obtains es i where "entries q = Some es" "i < length es" "CircularQueue_get q sq = Inr (Some i)"
    "packet (es ! i) = Some p" "packetLen (es ! i) = int (length p)" "sequenceNum (es ! i) = sq"
proof -
  from assms(1) obtain es where es: "entries q = Some es" by (elim queue_okE)
  let ?i = "unat sq mod length es"
  note slot = queue_slot [OF assms(1) es, of sq]
  from assms(2) es have v: "valid (es ! ?i)" "sequenceNum (es ! ?i) = sq" "packet (es ! ?i) = Some p"
    by (auto simp: queue_lookup_def slot_lookup_def Let_def split: if_splits)
  have "entry_ok (length es) ?i (es ! ?i)"
    using assms(1) es slot(2) by (auto elim!: queue_okE)
  with v slot es have "packetLen (es ! ?i) = int (length p)" "CircularQueue_get q sq = Inr (Some ?i)"
    by (auto simp: entry_ok_def CircularQueue_get_def entries_of_def)
  with v slot es that show thesis by blast
qed

lemma clear_loop_ok:
  assumes "\<forall>i \<in> set is. i < length es"
  shows "\<exists>es'. clear_loop is es = Inr es' \<and> length es' = length es \<and>
    (\<forall>j < length es. valid (es' ! j) \<longleftrightarrow> valid (es ! j) \<and> j \<notin> set is) \<and>
    (\<forall>j < length es. (\<not> valid (es ! j) \<longrightarrow> packet (es ! j) = None) \<longrightarrow>
       \<not> valid (es' ! j) \<longrightarrow> packet (es' ! j) = None)"
  using assms
proof (induction "is" arbitrary: es)
  case Nil
  then show ?case by simp
next
  case (Cons i js)
  let ?es = "if valid (es ! i) then es[i := (es ! i)\<lparr>packet := None, valid := False\<rparr>] else es"
  have "\<forall>i \<in> set js. i < length ?es" using Cons.prems by simp
  from Cons.IH [OF this] obtain es' where "clear_loop js ?es = Inr es'" "length es' = length ?es"
    "\<forall>j < length ?es. valid (es' ! j) \<longleftrightarrow> valid (?es ! j) \<and> j \<notin> set js"
    "\<forall>j < length ?es. (\<not> valid (?es ! j) \<longrightarrow> packet (?es ! j) = None) \<longrightarrow>
       \<not> valid (es' ! j) \<longrightarrow> packet (es' ! j) = None" by blast
  then show ?case using Cons.prems
    by (intro exI [where x = es']) (auto simp: nth_list_update)
qed

lemma queue_clear_ok:
  assumes ok: "queue_ok q"
  shows "\<exists>q'. CircularQueue_clear q = Inr (0, q') \<and> queue_ok q' \<and>
    queue_lookup q' = (\<lambda>_. None) \<and> queue_cap q' = queue_cap q"
proof -
  from ok obtain es where es: "entries q = Some es" "length es = nat (WindowSize q)"
    "0 < WindowSize q" "WindowSize q < 2 ^ 31"
    "\<And>i. i < length es \<Longrightarrow> entry_ok (length es) i (es ! i)" by (elim queue_okE) blast
  then obtain es' where es': "clear_loop [0..<nat (WindowSize q)] es = Inr es'"
      "length es' = length es" "\<forall>j < length es. \<not> valid (es' ! j)"
      "\<forall>j < length es. packet (es' ! j) = None"
    using clear_loop_ok [of "[0..<nat (WindowSize q)]" es] by (auto simp: entry_ok_def)
  let ?q = "q\<lparr>entries := Some es', ValidCount := 0\<rparr>"
  have "filter valid es' = []"
    using es' by (auto simp: filter_empty_conv in_set_conv_nth)
  then have "queue_ok ?q"
    using es es' by (intro queue_okI) (auto simp: entry_ok_def)
  moreover have "queue_lookup ?q = (\<lambda>_. None)"
    using es es' by (auto simp: queue_lookup_def slot_lookup_def fun_eq_iff)
  moreover have "CircularQueue_clear q = Inr (0, ?q)"
    using es es' by (simp add: CircularQueue_clear_def entries_of_def)
  ultimately show ?thesis by (auto simp: queue_cap_def)
qed

lemma queue_free_ok:
  "queue_ok q \<Longrightarrow> \<exists>q'. CircularQueue_free q = Inr (0, q') \<and> entries q' = None \<and> WindowSize q' = 0"
  using queue_clear_ok [of q] by (auto simp: CircularQueue_free_def)

subsection \<open>The window contract\<close>

text \<open>
  \<open>window_range c m lo hi f\<close>: the map \<open>m\<close> holds exactly the packets \<open>f lo\<close>, \dots,
  \<open>f (hi - 1)\<close> under the sequence numbers \<open>lo\<close>, \dots, \<open>hi - 1\<close>, at most \<open>c\<close> of them.
\<close>

definition window_range ::
    "nat \<Rightarrow> (u32 \<Rightarrow> byte list option) \<Rightarrow> nat \<Rightarrow> nat \<Rightarrow> (nat \<Rightarrow> byte list) \<Rightarrow> bool" where
  "window_range c m lo hi f \<longleftrightarrow> lo \<le> hi \<and> hi - lo \<le> c \<and>
     m = (\<lambda>s. if lo \<le> unat s \<and> unat s < hi then Some (f (unat s)) else None)"

lemma window_rangeD:
  assumes "window_range c m lo hi f"
  shows "lo \<le> hi" "hi - lo \<le> c" "m s = (if lo \<le> unat s \<and> unat s < hi then Some (f (unat s)) else None)"
  using assms by (auto simp: window_range_def)

lemma dom_window_range: "window_range c m lo hi f \<Longrightarrow> dom m = {s. lo \<le> unat s \<and> unat s < hi}"
  by (auto simp: window_range_def dom_def)

lemma card_seq_range:
  assumes "hi \<le> 2 ^ 32"
  shows "card {s :: u32. lo \<le> unat s \<and> unat s < hi} = hi - lo"
proof -
  have "{s :: u32. lo \<le> unat s \<and> unat s < hi} = word_of_nat ` {lo..<hi}"
  proof (intro set_eqI iffI)
    fix s :: u32 assume "s \<in> {s. lo \<le> unat s \<and> unat s < hi}"
    then show "s \<in> word_of_nat ` {lo..<hi}" by (intro image_eqI [of _ _ "unat s"]) simp_all
  qed (use assms in \<open>auto simp: unat_of_nat take_bit_nat_eq_self\<close>)
  moreover have "inj_on (word_of_nat :: nat \<Rightarrow> u32) {lo..<hi}"
    using assms by (auto simp: inj_on_def word_of_nat_eq_iff take_bit_nat_eq_self)
  ultimately show ?thesis by (simp add: card_image)
qed

locale send_window =
  fixes lookup :: "'q \<Rightarrow> u32 \<Rightarrow> byte list option"
    and ins :: "'q \<Rightarrow> u32 \<Rightarrow> byte list \<Rightarrow> (int \<times> 'q) res"
    and rem :: "'q \<Rightarrow> u32 \<Rightarrow> (int \<times> 'q) res"
    and full :: "'q \<Rightarrow> bool"
    and ok :: "'q \<Rightarrow> bool"
    and cap :: "'q \<Rightarrow> nat"
  assumes full_card: "ok q \<Longrightarrow> full q \<longleftrightarrow> cap q \<le> card (dom (lookup q))"
    and ins_ok: "ok q \<Longrightarrow> \<not> full q \<Longrightarrow>
      \<forall>t \<in> dom (lookup q). unat t mod cap q \<noteq> unat s mod cap q \<Longrightarrow>
      \<exists>q'. ins q s p = Inr (0, q') \<and> ok q' \<and> lookup q' = (lookup q)(s \<mapsto> p) \<and> cap q' = cap q"
    and rem_ok: "ok q \<Longrightarrow>
      \<exists>r q'. rem q s = Inr (r, q') \<and> ok q' \<and> lookup q' = (lookup q)(s := None) \<and> cap q' = cap q"
begin

lemma full_range:
  assumes "ok q" "window_range (cap q) (lookup q) lo hi f" "hi \<le> 2 ^ 32"
  shows "full q \<longleftrightarrow> hi - lo = cap q"
  using full_card [OF assms(1)] assms(2,3) window_rangeD(2) [OF assms(2)]
  by (auto simp: dom_window_range card_seq_range)

text \<open>The next packet always finds a free slot while the window is open.\<close>

lemma ins_range:
  assumes ok: "ok q" and win: "window_range (cap q) (lookup q) lo hi f"
    and room: "\<not> full q" and hi: "hi + 1 < 2 ^ 32" and p: "f hi = p"
  shows "\<exists>q'. ins q (word_of_nat hi) p = Inr (0, q') \<and> ok q' \<and> cap q' = cap q \<and>
    window_range (cap q') (lookup q') lo (hi + 1) f"
proof -
  let ?s = "word_of_nat hi :: u32"
  have s: "unat ?s = hi" using hi by (simp add: unat_of_nat take_bit_nat_eq_self)
  have lt: "hi - lo < cap q"
    using full_range [OF ok win] room hi window_rangeD(2) [OF win] by simp
  have "unat t mod cap q \<noteq> unat ?s mod cap q" if "t \<in> dom (lookup q)" for t
  proof
    assume eq: "unat t mod cap q = unat ?s mod cap q"
    from that have "lo \<le> unat t" "unat t < hi" using win by (auto simp: dom_window_range)
    with residue_gap [of "unat t" "cap q" hi] eq s lt show False by simp
  qed
  then obtain q' where q': "ins q ?s p = Inr (0, q')" "ok q'" "lookup q' = (lookup q)(?s \<mapsto> p)"
      "cap q' = cap q" using ins_ok [OF ok room, of ?s p] by blast
  have "t = ?s \<longleftrightarrow> unat t = hi" for t :: u32 using s by (metis word_unat_eq_iff)
  then have "window_range (cap q) ((lookup q)(?s \<mapsto> p)) lo (hi + 1) f"
    using win lt p by (auto simp: window_range_def fun_eq_iff less_Suc_eq)
  with q' show ?thesis by metis
qed

text \<open>The cumulative acknowledgement loop removes exactly the numbers below its bound.\<close>

lemma rem_loop:
  "ok q \<Longrightarrow> \<exists>q'. for_u32 (\<lambda>i q. rbind (rem q i) (\<lambda>(_, q'). Inr q')) i n q = Inr q' \<and> ok q' \<and>
     cap q' = cap q \<and>
     lookup q' = (\<lambda>s. if unat i \<le> unat s \<and> unat s < unat n then None else lookup q s)"
proof (induction "unat n - unat i" arbitrary: i q rule: less_induct)
  case less
  show ?case
  proof (cases "i < n")
    case False
    then show ?thesis using less.prems
      by (subst for_u32.simps) (auto simp: word_less_nat_alt fun_eq_iff)
  next
    case True
    then have lt: "unat i < unat n" by (simp add: word_less_nat_alt)
    have i1: "unat (i + 1) = unat i + 1"
      using lt unat_u32_less [of n] by (intro unat_Suc_u32) simp
    from rem_ok [OF less.prems, of i] obtain r q1 where q1: "rem q i = Inr (r, q1)" "ok q1"
      "lookup q1 = (lookup q)(i := None)" "cap q1 = cap q" by blast
    have "unat n - unat (i + 1) < unat n - unat i" using i1 lt by simp
    from less.hyps [OF this q1(2)] obtain q' where
      "for_u32 (\<lambda>i q. rbind (rem q i) (\<lambda>(_, q'). Inr q')) (i + 1) n q1 = Inr q'" "ok q'"
      "cap q' = cap q1"
      "lookup q' = (\<lambda>s. if unat (i + 1) \<le> unat s \<and> unat s < unat n then None else lookup q1 s)"
      by blast
    moreover have "unat i \<le> unat s \<longleftrightarrow> s = i \<or> unat (i + 1) \<le> unat s" for s
      using i1 by (auto simp: word_unat_eq_iff)
    ultimately show ?thesis using True q1 lt
      by (subst for_u32.simps) (auto simp: fun_eq_iff)
  qed
qed

lemma rem_loop_range:
  assumes "ok q" "window_range (cap q) (lookup q) lo hi f" "1 \<le> lo"
  shows "\<exists>q'. for_u32 (\<lambda>i q. rbind (rem q i) (\<lambda>(_, q'). Inr q')) 1 n q = Inr q' \<and> ok q' \<and>
     cap q' = cap q \<and> window_range (cap q') (lookup q') (max lo (min (unat n) hi)) hi f"
proof -
  obtain q' where q': "for_u32 (\<lambda>i q. rbind (rem q i) (\<lambda>(_, q'). Inr q')) 1 n q = Inr q'" "ok q'"
    "cap q' = cap q"
    "lookup q' = (\<lambda>s. if unat (1 :: u32) \<le> unat s \<and> unat s < unat n then None else lookup q s)"
    using rem_loop [OF assms(1)] by blast
  moreover have "window_range (cap q) (lookup q') (max lo (min (unat n) hi)) hi f"
    using assms(2,3) q'(4) by (auto simp: window_range_def fun_eq_iff)
  ultimately show ?thesis by auto
qed

end

interpretation cq: send_window queue_lookup
    "\<lambda>q s p. CircularQueue_insert True q s p (int (length p))"
    CircularQueue_remove CircularQueue_is_full queue_ok queue_cap
proof unfold_locales
  show "queue_ok q \<Longrightarrow> CircularQueue_is_full q \<longleftrightarrow> queue_cap q \<le> card (dom (queue_lookup q))" for q
    by (rule is_full_card)
qed (blast intro: queue_insert_ok queue_remove_ok)+

subsection \<open>Properties\<close>

text \<open>The queue \<open>CircularQueue_init\<close> makes of uninitialised (here: zero) memory.\<close>

definition fresh_queue :: "int \<Rightarrow> CircularQueue" where
  "fresh_queue n = snd (CircularQueue_init True \<lparr>entries = None, WindowSize = 0, ValidCount = 0\<rparr> n)"

lemma fresh_queue_ok:
  "0 < n \<Longrightarrow> n < 2 ^ 31 \<Longrightarrow> queue_ok (fresh_queue n) \<and> queue_lookup (fresh_queue n) = (\<lambda>_. None) \<and>
     queue_cap (fresh_queue n) = nat n"
  using queue_init_ok [of n] by (simp add: fresh_queue_def)

lemma is_full_fresh: "0 < n \<Longrightarrow> n < 2 ^ 31 \<Longrightarrow> \<not> CircularQueue_is_full (fresh_queue n)"
  by (simp add: fresh_queue_def CircularQueue_init_def CircularQueue_is_full_def)

text \<open>
  C17: Inserting a packet into a well-formed queue that is not full and has no packet in its
  slot succeeds, keeps the queue well-formed and adds exactly that packet to the map the
  queue stands for; \<open>CircularQueue_get\<close> then finds the packet.
\<close>

theorem insert_then_get:
  assumes "queue_ok q" "\<not> CircularQueue_is_full q"
    and "\<forall>t \<in> dom (queue_lookup q). unat t mod queue_cap q \<noteq> unat sq mod queue_cap q"
  shows "\<exists>q' es i. CircularQueue_insert True q sq p (int (length p)) = Inr (0, q') \<and> queue_ok q' \<and>
    queue_lookup q' = (queue_lookup q)(sq \<mapsto> p) \<and> queue_cap q' = queue_cap q \<and>
    CircularQueue_get q' sq = Inr (Some i) \<and> entries q' = Some es \<and> i < length es \<and>
    packet (es ! i) = Some p \<and> sequenceNum (es ! i) = sq"
proof -
  obtain q' where q': "CircularQueue_insert True q sq p (int (length p)) = Inr (0, q')" "queue_ok q'"
    "queue_lookup q' = (queue_lookup q)(sq \<mapsto> p)" "queue_cap q' = queue_cap q"
    using queue_insert_ok [OF assms] by blast
  moreover have "queue_lookup q' sq = Some p" using q'(3) by simp
  ultimately show ?thesis by (blast elim: queue_get_hit)
qed

theorem insert_then_get_witness:
  "\<exists>q' es i. CircularQueue_insert True (fresh_queue 3) 5 [1, 2] 2 = Inr (0, q') \<and>
     CircularQueue_get q' 5 = Inr (Some i) \<and> entries q' = Some es \<and> packet (es ! i) = Some [1, 2]"
  using insert_then_get [of "fresh_queue 3" 5 "[1, 2]"] fresh_queue_ok [of 3] is_full_fresh [of 3]
  by auto

text \<open>
  Insertion refuses without any change, with result \<open>-1\<close>, when the queue is full or the
  slot is occupied by any packet.
\<close>

lemma insert_refuses:
  assumes "queue_ok q"
    and "card (dom (queue_lookup q)) = queue_cap q \<or>
         (\<exists>t \<in> dom (queue_lookup q). unat t mod queue_cap q = unat sq mod queue_cap q)"
  shows "CircularQueue_insert mem q sq pkt len = Inr (-1, q)"
  using assms(2)
proof
  assume "card (dom (queue_lookup q)) = queue_cap q"
  then have "CircularQueue_is_full q" using is_full_card [OF assms(1)] by simp
  then show ?thesis by (simp add: CircularQueue_insert_def)
next
  assume "\<exists>t \<in> dom (queue_lookup q). unat t mod queue_cap q = unat sq mod queue_cap q"
  then show ?thesis using queue_insert_occupied [OF assms(1)] by blast
qed

text \<open>
  C18: Removing a number deletes exactly that number from the map, whether it was present
  (result 0) or not (result \<open>-1\<close>, nothing changes), and keeps the queue well-formed.
\<close>

theorem remove_refines:
  assumes "queue_ok q"
  shows "\<exists>q'. CircularQueue_remove q sq = Inr (if sq \<in> dom (queue_lookup q) then 0 else -1, q') \<and>
    queue_ok q' \<and> queue_lookup q' = (queue_lookup q)(sq := None) \<and> queue_cap q' = queue_cap q"
proof -
  obtain r q' where q': "CircularQueue_remove q sq = Inr (r, q')" "queue_ok q'"
    "queue_lookup q' = (queue_lookup q)(sq := None)" "queue_cap q' = queue_cap q"
    using queue_remove_ok [OF assms] by blast
  from assms obtain es where es: "entries q = Some es" by (elim queue_okE)
  note slot = queue_slot [OF assms es, of sq]
  have "entry_ok (length es) (unat sq mod length es) (es ! (unat sq mod length es))"
    using assms es slot(2) by (auto elim!: queue_okE)
  then have "r = (if sq \<in> dom (queue_lookup q) then 0 else -1)"
    using q'(1) es slot
    by (auto simp: CircularQueue_remove_def entries_of_def queue_lookup_def slot_lookup_def
        entry_ok_def Let_def split: if_splits)
  with q' show ?thesis by blast
qed

theorem remove_refines_witness:
  "\<exists>q'. CircularQueue_remove (fresh_queue 3) 5 = Inr (-1, q') \<and> queue_lookup q' = (\<lambda>_. None)"
  using remove_refines [of "fresh_queue 3" 5] fresh_queue_ok [of 3] by auto

text \<open>
  \<open>ValidCount\<close> counts the packets held: a queue is full exactly when it holds as many
  packets as it has slots, and empty exactly when it holds none.
\<close>

lemma full_and_empty:
  assumes "queue_ok q"
  shows "ValidCount q = int (card (dom (queue_lookup q))) \<and>
    (CircularQueue_is_full q \<longleftrightarrow> queue_cap q \<le> card (dom (queue_lookup q))) \<and>
    (CircularQueue_is_empty q \<longleftrightarrow> queue_lookup q = (\<lambda>_. None))"
  using ValidCount_card [OF assms] is_full_card [OF assms] is_empty_dom [OF assms] by auto

text \<open>
  Clearing keeps the capacity and forgets every packet; freeing leaves no array and no
  window, whatever the queue held.
\<close>

lemma clear_and_free:
  assumes "queue_ok q"
  shows "\<exists>q1 q2. CircularQueue_clear q = Inr (0, q1) \<and> queue_ok q1 \<and> CircularQueue_is_empty q1 \<and>
    queue_cap q1 = queue_cap q \<and> queue_lookup q1 = (\<lambda>_. None) \<and>
    CircularQueue_free q = Inr (0, q2) \<and> entries q2 = None \<and> WindowSize q2 = 0 \<and> ValidCount q2 = 0"
proof -
  obtain q1 where q1: "CircularQueue_clear q = Inr (0, q1)" "queue_ok q1"
    "queue_lookup q1 = (\<lambda>_. None)" "queue_cap q1 = queue_cap q" using queue_clear_ok [OF assms] by blast
  moreover have "CircularQueue_is_empty q1" using q1(2,3) by (simp add: is_empty_dom)
  moreover from this have "CircularQueue_free q = Inr (0, q1\<lparr>entries := None, WindowSize := 0\<rparr>)"
    "ValidCount q1 = 0"
    using q1(1) by (simp_all add: CircularQueue_free_def CircularQueue_is_empty_def)
  ultimately show ?thesis by auto
qed

text \<open>
  The test of \<open>CircularQueue_get\<close> is inverted: in a fresh queue it hands out the empty
  slot, with no packet behind it, for every number but 0, and reports nothing only for 0.
\<close>

lemma get_hands_out_empty_slots:
  assumes "0 < n" "n < 2 ^ 31"
  shows "CircularQueue_get (fresh_queue n) sq =
      Inr (if sq = 0 then None else Some (unat sq mod nat n)) \<and>
    (\<exists>es. entries (fresh_queue n) = Some es \<and> packet (es ! (unat sq mod nat n)) = None)"
  using assms
  by (auto simp: fresh_queue_def CircularQueue_init_def CircularQueue_get_def entries_of_def
      zero_entry_def)

end
