(* ===== verification/Sender.thy ===== *)
theory Sender
  imports Platform CircularQueue
begin

text \<open>
  The data path of \<open>server.c\<close>: \<open>send_data_state\<close> with its three nested loops and
  \<open>wait_on_ack_state\<close>.  What one turn does to the window is a pure function
  (\<open>send_chunk\<close>, \<open>handle_ack\<close>, \<open>resend_oldest\<close>); the loops run these over the schedule.
  The lemmas give the termination of every loop and the effect of each turn on the contiguous
  window of \<open>CircularQueue\<close>.
\<close>

subsection \<open>State\<close>

datatype server_state =
  START | FILENAME | WRITE_FILE_OK_ACK | SEND_DATA | WAIT_ON_ACK | WAIT_ON_EOF_ACK | RESEND_EOF | DONE

text \<open>\<open>in_file\<close> is the stream (\<open>file\<close> in the code): \<open>None\<close> for \<open>NULL\<close>, else the bytes not read yet;
  \<open>in_fd\<close> is its descriptor.\<close>

record ServerInfo =
  childSocket :: int
  in_file :: "byte list option"
  in_fd :: int
  clientAddr :: addr
  windowSize :: u16
  bufferSize :: u16
  eofLen :: int
  eofPacket :: "byte list"
  eofSeq :: u32
  eofResendCount :: int

text \<open>What \<open>processClient\<close> starts with.\<close>

definition initial_info :: "addr \<Rightarrow> ServerInfo" where
  "initial_info client =
     \<lparr>childSocket = 0, in_file = None, in_fd = -1, clientAddr = client, windowSize = 0, bufferSize = 0,
      eofLen = 0, eofPacket = [], eofSeq = 0, eofResendCount = 0\<rparr>"

subsection \<open>One turn of each loop\<close>

text \<open>
  The body of the filling loop: read at most \<open>bufferSize\<close> bytes into \<open>payload[MAXBUF]\<close>,
  build the PDU, store it in the window.  \<open>None\<close> is the end of the file.  The result of
  \<open>CircularQueue_insert\<close> is dropped, as in the code.
\<close>

definition send_chunk ::
    "cksum \<Rightarrow> bool \<Rightarrow> CircularQueue \<Rightarrow> u32 \<Rightarrow> u16 \<Rightarrow> byte list \<Rightarrow>
     (CircularQueue \<times> u32 \<times> byte list \<times> byte list) option res" where
  "send_chunk ck mem window seqNum bufSize rest =
     (let payload = take (unat bufSize) rest; bytesRead = length payload
      in rbind (guard OutOfBounds (bytesRead \<le> MAXBUF)) (\<lambda>_.
         if bytesRead \<le> 0 then Inr None
         else rbind (createPDU ck (MAXBUF + 7) seqNum 16 payload (int bytesRead)) (\<lambda>pduToSend.
              rbind (CircularQueue_insert mem window seqNum pduToSend (int (length pduToSend)))
                (\<lambda>(_, window1).
                  Inr (Some (window1, seqNum + 1, drop (unat bufSize) rest, pduToSend))))))"

text \<open>The packet behind an entry; \<open>entry->packet + 7\<close> is read from it.\<close>

definition entry_packet :: "QueueEntry \<Rightarrow> byte list res" where
  "entry_packet e = (case packet e of None \<Rightarrow> Inl NullPointer | Some p \<Rightarrow> Inr p)"

text \<open>The flag dispatch of \<open>wait_on_ack_state\<close>: the new window and the PDUs sent.\<close>

definition handle_ack :: "cksum \<Rightarrow> CircularQueue \<Rightarrow> rbuf \<Rightarrow> (CircularQueue \<times> byte list list) res" where
  "handle_ack ck window recvBuff =
     (let flag = hdr_flag recvBuff; ackSequence = hdr_seq recvBuff
      in if flag = 5
         then rbind (for_u32 (\<lambda>i q. rbind (CircularQueue_remove q i) (\<lambda>(_, q'). Inr q')) 1 ackSequence window)
                (\<lambda>window1. Inr (window1, []))
         else if flag = 6
         then rbind (CircularQueue_get window ackSequence) (\<lambda>r.
              case r of
                None \<Rightarrow> Inr (window, [])
              | Some i \<Rightarrow>
                  rbind (entries_of window) (\<lambda>es.
                  rbind (arr_get es i) (\<lambda>entry.
                  rbind (entry_packet entry) (\<lambda>p.
                  rbind (createPDU ck (MAXBUF + 7) ackSequence 17 (drop 7 p) (packetLen entry - 7))
                    (\<lambda>srejPDU. Inr (window, [srejPDU]))))))
         else Inr (window, []))"

text \<open>The timeout branch: the first valid entry in array order goes out again with flag 18.\<close>

fun scan_valid :: "QueueEntry list \<Rightarrow> nat list \<Rightarrow> QueueEntry option res" where
  "scan_valid es [] = Inr None"
| "scan_valid es (i # is) = rbind (arr_get es i) (\<lambda>e. if valid e then Inr (Some e) else scan_valid es is)"

definition resend_oldest :: "cksum \<Rightarrow> CircularQueue \<Rightarrow> byte list list res" where
  "resend_oldest ck window =
     (if WindowSize window \<le> 0 then Inr []
      else rbind (entries_of window) (\<lambda>es.
           rbind (scan_valid es [0..<nat (WindowSize window)]) (\<lambda>r.
             case r of
               None \<Rightarrow> Inr []
             | Some entry \<Rightarrow>
                 rbind (entry_packet entry) (\<lambda>p.
                 rbind (guard OutOfBounds (4 \<le> length p)) (\<lambda>_.
                 let resentSeq = ntohl (load32 (p ! 0) (p ! 1) (p ! 2) (p ! 3))
                 in rbind (createPDU ck (MAXBUF + 7) resentSeq 18 (drop 7 p) (packetLen entry - 7))
                      (\<lambda>timeoutPDU. Inr [timeoutPDU]))))))"

subsection \<open>\<open>wait_on_ack_state\<close>\<close>

definition wait_on_ack_state ::
    "cksum \<Rightarrow> CircularQueue \<Rightarrow> ServerInfo \<Rightarrow> (server_state \<times> CircularQueue \<times> ServerInfo) prog" where
  "wait_on_ack_state ck window info =
     bnd setup_poll_set (\<lambda>_.
     bnd (add_to_poll_set (childSocket info)) (\<lambda>_.
     bnd (poll_call 1000) (\<lambda>packetAckPoll.
       if packetAckPoll \<le> 0 then ret (SEND_DATA, window, info)
       else bnd (safeRecvfrom (childSocket info) 7) (\<lambda>(recvBuff, bytesRecv, src).
            let info1 = info\<lparr>clientAddr := src\<rparr>
            in if bytesRecv < 0 then ret (DONE, window, info1)
               else bnd (lift (to_stop (handle_ack ck window recvBuff))) (\<lambda>(window1, pdus).
                    bnd (send_all (childSocket info1) pdus (clientAddr info1)) (\<lambda>_.
                      ret (SEND_DATA, window1, info1)))))))"

definition ready_now :: "world \<Rightarrow> bool" where
  "ready_now w \<longleftrightarrow> (case poll_result 0 True (pset w) of Inr r \<Rightarrow> r > 0 | Inl _ \<Rightarrow> False)"

text \<open>
  A call of \<open>wait_on_ack_state\<close> consumes from the schedule, unless its socket is one that
  \<open>pollCall\<close> cannot report as positive; then the next poll reports nothing either.
\<close>

lemma wait_on_ack_progress:
  assumes "wait_on_ack_state ck q info w = (Inr (st, q', info'), w')"
  shows "length (schedule w') < length (schedule w) \<or>
    length (schedule w') = length (schedule w) \<and> \<not> ready_now w'"
    and "in_file info' = in_file info" "childSocket info' = childSocket info"
proof -
  from assms obtain w1 w2 r w3 where w1: "setup_poll_set w = (Inr (), w1)"
    "add_to_poll_set (childSocket info) w1 = (Inr (), w2)" "poll_call 1000 w2 = (Inr r, w3)"
    and rest: "(if r \<le> 0 then (Inr (SEND_DATA, q, info), w3)
       else bnd (safeRecvfrom (childSocket info) 7) (\<lambda>(recvBuff, bytesRecv, src).
            let info1 = info\<lparr>clientAddr := src\<rparr>
            in if bytesRecv < 0 then ret (DONE, q, info1)
               else bnd (lift (to_stop (handle_ack ck q recvBuff))) (\<lambda>(window1, pdus).
                    bnd (send_all (childSocket info1) pdus (clientAddr info1)) (\<lambda>_.
                      ret (SEND_DATA, window1, info1)))) w3)
       = (Inr (st, q', info'), w')"
    by (auto simp: wait_on_ack_state_def bnd_eq_Inr split: if_splits)
  have s2: "schedule w2 = schedule w"
    using setup_poll_set_schedule [OF w1(1)] add_to_poll_set_schedule [OF w1(2)] by simp
  have le: "length (schedule w3) \<le> length (schedule w)"
    by (rule poll_call_cases [OF w1(3)]) (use s2 in auto)
  have "length (schedule w') < length (schedule w) \<or>
    length (schedule w') = length (schedule w) \<and> \<not> ready_now w'"
  proof (cases "r \<le> 0")
    case True
    with rest have "w' = w3" by simp
    show ?thesis
      by (rule poll_call_cases [OF w1(3)]) (use s2 True \<open>w' = w3\<close> in \<open>auto simp: ready_now_def\<close>)
  next
    case False
    with rest obtain x w4 where "safeRecvfrom (childSocket info) 7 w3 = (Inr x, w4)" "schedule w' = schedule w4"
      by (auto simp: bnd_eq_Inr Let_def send_all_eq split: if_splits)
    with le safeRecvfrom_schedule [of "childSocket info" 7 w3 x w4] show ?thesis by simp
  qed
  moreover have "in_file info' = in_file info" "childSocket info' = childSocket info"
    using rest by (auto simp: bnd_eq_Inr Let_def send_all_eq split: if_splits)
  ultimately show "length (schedule w') < length (schedule w) \<or>
    length (schedule w') = length (schedule w) \<and> \<not> ready_now w'"
    and "in_file info' = in_file info" "childSocket info' = childSocket info" by simp_all
qed

subsection \<open>The loops of \<open>send_data_state\<close>\<close>

lemma drain_progress:
  assumes "poll_call t w = (Inr r, w1)" "0 \<le> t" "r > 0"
    "wait_on_ack_state ck q info w1 = (Inr (st, q', info'), w2)"
  shows "length (schedule w2) < length (schedule w) \<or>
    length (schedule w2) = length (schedule w) \<and> ready_now w \<and> \<not> ready_now w2"
  by (rule poll_call_cases [OF assms(1,2)])
     (use assms(3) wait_on_ack_progress(1) [OF assms(4)] in \<open>auto simp: ready_now_def\<close>)

text \<open>\<open>while (pollCall(0) > 0) wait_on_ack_state(window, info);\<close>\<close>

function drain_acks :: "cksum \<Rightarrow> CircularQueue \<Rightarrow> ServerInfo \<Rightarrow> (CircularQueue \<times> ServerInfo) prog" where
  "drain_acks ck window info w =
     bnd (poll_call 0) (\<lambda>r w1.
       if r > 0
       then bnd (wait_on_ack_state ck window info) (\<lambda>x w2.
              case x of (_, window1, info1) \<Rightarrow> drain_acks ck window1 info1 w2) w1
       else ret (window, info) w1) w"
  by pat_completeness auto

termination
proof (relation "measures [\<lambda>(ck, q, info, w). length (schedule w),
    \<lambda>(ck, q, info, w). if ready_now w then 1 else 0]", goal_cases)
  case (2 ck window info w r w1 x w2 st y window1 info1)
  then show ?case using drain_progress [of 0 w r w1 ck window info st window1 info1 w2] by auto
qed simp

declare drain_acks.simps [simp del]

text \<open>
  The wait for room in a full window; the flag tells whether the tenth timeout in a row made
  the state return \<open>DONE\<close>.
\<close>

function wait_for_room ::
    "cksum \<Rightarrow> CircularQueue \<Rightarrow> ServerInfo \<Rightarrow> nat \<Rightarrow>
     (bool \<times> CircularQueue \<times> ServerInfo \<times> nat) prog" where
  "wait_for_room ck window info timeoutCount w =
     (if CircularQueue_is_full window
      then bnd (poll_call 1000) (\<lambda>poll w1.
             if poll > 0
             then bnd (wait_on_ack_state ck window info) (\<lambda>x w2.
                    case x of (_, window1, info1) \<Rightarrow> wait_for_room ck window1 info1 0 w2) w1
             else bnd (lift (to_stop (resend_oldest ck window))) (\<lambda>pdus.
                  bnd (send_all (childSocket info) pdus (clientAddr info)) (\<lambda>_ w2.
                    if timeoutCount + 1 \<ge> 10 then ret (True, window, info, timeoutCount + 1) w2
                    else wait_for_room ck window info (timeoutCount + 1) w2)) w1) w
      else ret (False, window, info, timeoutCount) w)"
  by pat_completeness auto
termination
proof (relation "measures [\<lambda>(ck, q, info, n, w). length (schedule w),
    \<lambda>(ck, q, info, n, w). if ready_now w then 1 else 0, \<lambda>(ck, q, info, n, w). 10 - n]", goal_cases)
  case (2 ck window info timeoutCount w poll w1 x w2 st y window1 info1)
  then show ?case using drain_progress [of 1000 w poll w1 ck window info st window1 info1 w2] by auto
next
  case (3 ck window info timeoutCount w poll w1 pdus w2 u w3)
  have "schedule w3 = schedule w1" "pset w3 = pset w1"
    using 3 by (auto simp: send_all_eq lift_def)
  moreover have "length (schedule w1) < length (schedule w) \<or> w1 = w \<and> \<not> ready_now w"
    by (rule poll_call_cases [OF 3(2)]) (use 3 in \<open>auto simp: ready_now_def\<close>)
  ultimately show ?case using 3 by (auto simp: ready_now_def)
qed simp

declare wait_for_room.simps [simp del]

lemma drain_acks_file:
  "drain_acks ck q info w = (Inr (q', info'), w') \<Longrightarrow> in_file info' = in_file info"
proof (induction ck q info w rule: drain_acks.induct)
  case (1 ck q info w)
  from "1.prems" obtain r w1 where poll: "poll_call 0 w = (Inr r, w1)"
    and rest: "(if r > 0 then bnd (wait_on_ack_state ck q info) (\<lambda>x w2.
        case x of (_, window1, info1) \<Rightarrow> drain_acks ck window1 info1 w2) w1
      else ret (q, info) w1) = (Inr (q', info'), w')"
    by (subst (asm) drain_acks.simps) (auto simp only: bnd_eq_Inr)
  show ?case
  proof (cases "r > 0")
    case False
    with rest show ?thesis by simp
  next
    case True
    with rest obtain st q1 info1 w2 where
      w: "wait_on_ack_state ck q info w1 = (Inr (st, q1, info1), w2)"
      and d: "drain_acks ck q1 info1 w2 = (Inr (q', info'), w')"
      by (auto simp: bnd_eq_Inr)
    show ?thesis
      using "1.IH" [OF poll True w refl refl d] wait_on_ack_progress(2) [OF w] by simp
  qed
qed

lemma send_chunk_shorter:
  "send_chunk ck mem q sq n rest = Inr (Some (q', sq', rest', pdu)) \<Longrightarrow> length rest' < length rest"
  by (auto simp: send_chunk_def Let_def res_eqs split: if_splits)

text \<open>
  The filling loop; the flag tells whether the end of the file was reached.  Each turn draws one
  answer of the allocator for the \<open>malloc\<close> of \<open>CircularQueue_insert\<close>; a turn that does not get
  to it (the end of the file, an occupied slot) draws one too and ignores it.
\<close>

function fill_window ::
    "cksum \<Rightarrow> CircularQueue \<Rightarrow> u32 \<Rightarrow> ServerInfo \<Rightarrow> nat \<Rightarrow>
     (bool \<times> CircularQueue \<times> u32 \<times> ServerInfo \<times> nat) prog" where
  "fill_window ck window seqNum info timeoutCount w =
     (if CircularQueue_is_full window then ret (False, window, seqNum, info, timeoutCount) w
      else case in_file info of
        None \<Rightarrow> stop_with (Fault NullPointer) w
      | Some rest \<Rightarrow>
          bnd alloc (\<lambda>mem w1.
          bnd (lift (to_stop (send_chunk ck mem window seqNum (bufferSize info) rest))) (\<lambda>r w2.
            case r of
              None \<Rightarrow> ret (True, window, seqNum, info, timeoutCount) w2
            | Some (window1, seqNum1, rest1, pduToSend) \<Rightarrow>
                bnd (sendtoErr (childSocket info) pduToSend (clientAddr info)) (\<lambda>_ w3.
                bnd (drain_acks ck window1 (info\<lparr>in_file := Some rest1\<rparr>)) (\<lambda>x w4.
                  case x of (window2, info2) \<Rightarrow> fill_window ck window2 seqNum1 info2 0 w4) w3) w2) w1) w)"
  by pat_completeness auto

termination
proof (relation "measure (\<lambda>(ck, q, sq, info, tc, w). length (the (in_file info)))", goal_cases)
  case (2 ck window seqNum info tc w rest mem w1 r w2 a window1 y seqNum1 z rest1 pdu u w3 x w4 window2 info2)
  then show ?case
    by (auto simp: lift_def to_stop_eq_Inr dest!: drain_acks_file send_chunk_shorter)
qed simp

declare fill_window.simps [simp del]

text \<open>The unfolding of \<open>fill_window\<close> by the ways one turn can go.\<close>

lemma fill_window_cases:
  assumes "fill_window ck q sq info tc w = (Inr (eof, q', sq', info', tc'), w')"
  obtains (full) "CircularQueue_is_full q" "\<not> eof" "q' = q" "sq' = sq" "info' = info" "tc' = tc" "w' = w"
  | (at_end) rest mem w1 where "\<not> CircularQueue_is_full q" "in_file info = Some rest"
      "alloc w = (Inr mem, w1)" "send_chunk ck mem q sq (bufferSize info) rest = Inr None"
      "eof" "q' = q" "sq' = sq" "info' = info" "tc' = tc" "w' = w1"
  | (sent) rest mem w1 q1 sq1 rest1 pdu w2 q2 info2 w3 where "\<not> CircularQueue_is_full q"
      "in_file info = Some rest" "alloc w = (Inr mem, w1)"
      "send_chunk ck mem q sq (bufferSize info) rest = Inr (Some (q1, sq1, rest1, pdu))"
      "sendtoErr (childSocket info) pdu (clientAddr info) w1 = (Inr (), w2)"
      "drain_acks ck q1 (info\<lparr>in_file := Some rest1\<rparr>) w2 = (Inr (q2, info2), w3)"
      "fill_window ck q2 sq1 info2 0 w3 = (Inr (eof, q', sq', info', tc'), w')"
proof (cases "CircularQueue_is_full q")
  case True
  with assms show thesis by (subst (asm) fill_window.simps) (auto intro: full)
next
  case False
  from assms False obtain rest where rest: "in_file info = Some rest"
    by (subst (asm) fill_window.simps) (auto split: option.splits)
  obtain mem w1 where a: "alloc w = (Inr mem, w1)" by (simp add: alloc_def)
  from assms False rest a obtain r where r: "send_chunk ck mem q sq (bufferSize info) rest = Inr r"
    and k: "(case r of None \<Rightarrow> ret (True, q, sq, info, tc) w1
      | Some (window1, seqNum1, rest1, pduToSend) \<Rightarrow>
          bnd (sendtoErr (childSocket info) pduToSend (clientAddr info)) (\<lambda>_ w3.
          bnd (drain_acks ck window1 (info\<lparr>in_file := Some rest1\<rparr>)) (\<lambda>x w4.
            case x of (window2, info2) \<Rightarrow> fill_window ck window2 seqNum1 info2 0 w4) w3) w1)
      = (Inr (eof, q', sq', info', tc'), w')"
    by (subst (asm) fill_window.simps) (auto simp: bnd_eq_Inr to_stop_eq_Inr)
  show thesis
  proof (cases r)
    case None
    with k False rest a r show thesis by (auto intro: at_end)
  next
    case (Some t)
    obtain q1 sq1 rest1 pdu where t: "t = (q1, sq1, rest1, pdu)" by (cases t) auto
    with Some k obtain w2 q2 info2 w3 where
      "sendtoErr (childSocket info) pdu (clientAddr info) w1 = (Inr (), w2)"
      "drain_acks ck q1 (info\<lparr>in_file := Some rest1\<rparr>) w2 = (Inr (q2, info2), w3)"
      "fill_window ck q2 sq1 info2 0 w3 = (Inr (eof, q', sq', info', tc'), w')"
      by (auto simp: bnd_eq_Inr)
    with False rest a r Some t show thesis by (auto intro: sent)
  qed
qed

lemma fill_window_progress:
  "fill_window ck q sq info tc w = (Inr (False, q', sq', info', tc'), w') \<Longrightarrow>
   CircularQueue_is_full q' \<and>
   (if CircularQueue_is_full q then in_file info' = in_file info
    else length (the (in_file info')) < length (the (in_file info)))"
proof (induction ck q sq info tc w rule: fill_window.induct)
  case (1 ck q sq info tc w)
  from "1.prems" show ?case
  proof (cases rule: fill_window_cases)
    case (sent rest mem w1 q1 sq1 rest1 pdu w2 q2 info2 w3)
    have "CircularQueue_is_full q' \<and> (if CircularQueue_is_full q2 then in_file info' = in_file info2
        else length (the (in_file info')) < length (the (in_file info2)))"
      by (rule "1.IH" [OF sent(1,2,3) _ _ refl refl refl sent(5,6) refl sent(7)])
         (simp_all add: sent(4) lift_def)
    moreover have "in_file info2 = Some rest1" using drain_acks_file [OF sent(6)] by simp
    ultimately show ?thesis
      using sent(1,2) send_chunk_shorter [OF sent(4)] by (auto split: if_splits)
  qed auto
qed

text \<open>The outer loop.\<close>

lemma wait_for_room_progress:
  "wait_for_room ck q info tc w = (Inr (False, q', info', tc'), w') \<Longrightarrow>
   \<not> CircularQueue_is_full q' \<and> in_file info' = in_file info"
proof (induction ck q info tc w rule: wait_for_room.induct)
  case (1 ck q info tc w)
  show ?case
  proof (cases "CircularQueue_is_full q")
    case False
    with "1.prems" show ?thesis by (subst (asm) wait_for_room.simps) simp
  next
    case True
    with "1.prems" obtain poll w1 where p: "poll_call 1000 w = (Inr poll, w1)"
      and k: "(if poll > 0
             then bnd (wait_on_ack_state ck q info) (\<lambda>x w2.
                    case x of (_, window1, info1) \<Rightarrow> wait_for_room ck window1 info1 0 w2) w1
             else bnd (lift (to_stop (resend_oldest ck q))) (\<lambda>pdus.
                  bnd (send_all (childSocket info) pdus (clientAddr info)) (\<lambda>_ w2.
                    if tc + 1 \<ge> 10 then ret (True, q, info, tc + 1) w2
                    else wait_for_room ck q info (tc + 1) w2)) w1)
        = (Inr (False, q', info', tc'), w')"
      by (subst (asm) wait_for_room.simps) (auto simp only: bnd_eq_Inr if_True)
    show ?thesis
    proof (cases "poll > 0")
      case pos: True
      with k obtain st q1 info1 w2 where w: "wait_on_ack_state ck q info w1 = (Inr (st, q1, info1), w2)"
        and d: "wait_for_room ck q1 info1 0 w2 = (Inr (False, q', info', tc'), w')"
        by (auto simp: bnd_eq_Inr)
      show ?thesis
        using "1.IH"(1) [OF True p pos w refl refl d] wait_on_ack_progress(2) [OF w] by simp
    next
      case neg: False
      with k obtain pdus w2 where r: "resend_oldest ck q = Inr pdus"
        and s: "send_all (childSocket info) pdus (clientAddr info) w1 = (Inr (), w2)"
        and d: "\<not> tc + 1 \<ge> 10" "wait_for_room ck q info (tc + 1) w2 = (Inr (False, q', info', tc'), w')"
        by (auto simp: bnd_eq_Inr to_stop_eq_Inr split: if_splits)
      show ?thesis
        by (rule "1.IH"(2) [OF True p neg _ s d(1) d(2)]) (simp add: r lift_def)
    qed
  qed
qed

function send_data_loop ::
    "cksum \<Rightarrow> CircularQueue \<Rightarrow> u32 \<Rightarrow> ServerInfo \<Rightarrow> nat \<Rightarrow>
     (bool \<times> CircularQueue \<times> u32 \<times> ServerInfo) prog" where
  "send_data_loop ck window seqNum info timeoutCount w =
     bnd (fill_window ck window seqNum info timeoutCount) (\<lambda>r w1.
       case r of (eofReached, window1, seqNum1, info1, timeoutCount1) \<Rightarrow>
         if eofReached then ret (False, window1, seqNum1, info1) w1
         else bnd (wait_for_room ck window1 info1 timeoutCount1) (\<lambda>s w2.
                case s of (gaveUp, window2, info2, timeoutCount2) \<Rightarrow>
                  if gaveUp then ret (True, window2, seqNum1, info2) w2
                  else send_data_loop ck window2 seqNum1 info2 timeoutCount2 w2) w1) w"
  by pat_completeness auto
termination
proof (relation "measures [\<lambda>(ck, q, sq, info, tc, w). length (the (in_file info)),
    \<lambda>(ck, q, sq, info, tc, w). if CircularQueue_is_full q then 1 else 0]", goal_cases)
  case (2 ck window seqNum info tc w r w1 eofReached y window1 z seqNum1 u info1 tc1 s w2 gaveUp v window2 t info2 tc2)
  then have "fill_window ck window seqNum info tc w = (Inr (False, window1, seqNum1, info1, tc1), w1)"
    "wait_for_room ck window1 info1 tc1 w1 = (Inr (False, window2, info2, tc2), w2)" by auto
  from fill_window_progress [OF this(1)] wait_for_room_progress [OF this(2)] show ?case
    by (auto split: if_splits)
qed simp

declare send_data_loop.simps [simp del]

text \<open>
  \<open>send_data_state\<close>: after the loops the EOF packet goes out and is kept for
  \<open>resend_eof_state\<close>.
\<close>

definition send_data_state ::
    "cksum \<Rightarrow> CircularQueue \<Rightarrow> ServerInfo \<Rightarrow> (server_state \<times> CircularQueue \<times> ServerInfo) prog" where
  "send_data_state ck window info =
     bnd (send_data_loop ck window 1 (info\<lparr>eofResendCount := 0\<rparr>) 0) (\<lambda>(gaveUp, window1, seqNum, info1).
       if gaveUp then ret (DONE, window1, info1)
       else bnd (lift (to_stop (createPDU ck 7 seqNum 10 [] 0))) (\<lambda>eofPDU.
            bnd (sendtoErr (childSocket info1) eofPDU (clientAddr info1)) (\<lambda>_.
              ret (WAIT_ON_EOF_ACK, window1,
                   info1\<lparr>eofPacket := eofPDU, eofLen := int (length eofPDU), eofSeq := seqNum\<rparr>))))"

subsection \<open>The window under each turn\<close>

text \<open>
  \<open>snd_window ck chunk lo nxt q\<close>: the window holds exactly the data PDUs numbered
  \<open>lo\<close>, \dots, \<open>nxt - 1\<close>.  \<open>data_pdu\<close> describes what may leave the server: a number below
  \<open>nxt\<close> with its own chunk, or with any payload if the number is below \<open>lo\<close>.
\<close>

definition snd_window :: "cksum \<Rightarrow> (nat \<Rightarrow> byte list) \<Rightarrow> nat \<Rightarrow> nat \<Rightarrow> CircularQueue \<Rightarrow> bool" where
  "snd_window ck chunk lo nxt q \<longleftrightarrow> queue_ok q \<and> 1 \<le> lo \<and> nxt < 2 ^ 32 \<and>
     (\<forall>s. length (chunk s) \<le> MAXBUF) \<and>
     window_range (queue_cap q) (queue_lookup q) lo nxt (\<lambda>s. pdu_of ck (word_of_nat s) 16 (chunk s))"

definition data_pdu :: "cksum \<Rightarrow> (nat \<Rightarrow> byte list) \<Rightarrow> nat \<Rightarrow> nat \<Rightarrow> byte list \<Rightarrow> bool" where
  "data_pdu ck chunk lo nxt p \<longleftrightarrow> (\<exists>m fl pl. unat m < nxt \<and> (fl = 16 \<or> fl = 17 \<or> fl = 18) \<and>
     length pl \<le> MAXBUF \<and> (lo \<le> unat m \<longrightarrow> pl = chunk (unat m)) \<and> p = pdu_of ck m fl pl)"

lemma data_pduI:
  "unat m < nxt \<Longrightarrow> fl = 16 \<or> fl = 17 \<or> fl = 18 \<Longrightarrow> length pl \<le> MAXBUF \<Longrightarrow>
   (lo \<le> unat m \<Longrightarrow> pl = chunk (unat m)) \<Longrightarrow> data_pdu ck chunk lo nxt (pdu_of ck m fl pl)"
  unfolding data_pdu_def by blast

lemma data_pdu_mono:
  assumes "data_pdu ck chunk lo nxt p" "lo \<le> lo'" "nxt \<le> nxt'"
  shows "data_pdu ck chunk lo' nxt' p"
proof -
  from assms(1) obtain m fl pl where "unat m < nxt" "fl = 16 \<or> fl = 17 \<or> fl = 18"
    "length pl \<le> MAXBUF" "lo \<le> unat m \<longrightarrow> pl = chunk (unat m)" "p = pdu_of ck m fl pl"
    unfolding data_pdu_def by blast
  with assms(2,3) show ?thesis by (auto intro!: data_pduI simp del: disj_not1)
qed

lemma snd_windowD:
  assumes "snd_window ck chunk lo nxt q"
  shows "queue_ok q" "1 \<le> lo" "lo \<le> nxt" "nxt < 2 ^ 32" "length (chunk s) \<le> MAXBUF"
    "nxt - lo \<le> queue_cap q"
    "window_range (queue_cap q) (queue_lookup q) lo nxt (\<lambda>s. pdu_of ck (word_of_nat s) 16 (chunk s))"
    "lo \<le> unat m \<Longrightarrow> unat m < nxt \<Longrightarrow> queue_lookup q m = Some (pdu_of ck m 16 (chunk (unat m)))"
  using assms window_rangeD [of "queue_cap q" "queue_lookup q" lo nxt]
  by (auto simp: snd_window_def)

lemma snd_window_init:
  assumes "0 < n" "n < 2 ^ 31" "\<And>s. length (chunk s) \<le> MAXBUF"
  shows "snd_window ck chunk 1 1 (snd (CircularQueue_init True q n))"
  using assms queue_init_ok [OF assms(1,2), of q]
  by (auto simp: snd_window_def window_range_def)

lemma send_chunk_end:
  "send_chunk ck mem q sq b [] = Inr None"
  by (simp add: send_chunk_def Let_def)

lemma send_chunk_window:
  assumes win: "snd_window ck chunk lo nxt q" and room: "\<not> CircularQueue_is_full q"
    and nxt: "nxt + 1 < 2 ^ 32" and b: "0 < unat b" "unat b \<le> MAXBUF"
    and rest: "rest \<noteq> []" "take (unat b) rest = chunk nxt"
  shows "\<exists>q'. send_chunk ck True q (word_of_nat nxt) b rest =
      Inr (Some (q', word_of_nat (nxt + 1), drop (unat b) rest,
                 pdu_of ck (word_of_nat nxt) 16 (chunk nxt))) \<and>
    snd_window ck chunk lo (nxt + 1) q' \<and> queue_cap q' = queue_cap q"
proof -
  note W = snd_windowD [OF win]
  let ?pdu = "pdu_of ck (word_of_nat nxt) 16 (chunk nxt)"
  obtain q' where q': "CircularQueue_insert True q (word_of_nat nxt) ?pdu (int (length ?pdu)) = Inr (0, q')"
    "queue_ok q'" "queue_cap q' = queue_cap q"
    "window_range (queue_cap q') (queue_lookup q') lo (nxt + 1) (\<lambda>s. pdu_of ck (word_of_nat s) 16 (chunk s))"
    using cq.ins_range [OF W(1,7) room nxt refl] by blast
  have "chunk nxt \<noteq> []" using rest b(1) by (auto simp flip: rest(2))
  moreover have "length (chunk nxt) \<le> MAXBUF" by (rule W(5))
  ultimately have "send_chunk ck True q (word_of_nat nxt) b rest =
      Inr (Some (q', word_of_nat nxt + 1, drop (unat b) rest, ?pdu))"
    using q'(1) by (simp add: send_chunk_def Let_def rest(2) createPDU_full)
  moreover have "(word_of_nat nxt :: u32) + 1 = word_of_nat (nxt + 1)" by simp
  ultimately show ?thesis using q' W nxt by (auto simp: snd_window_def)
qed

text \<open>RR: the window below the acknowledged number is gone, nothing is sent.\<close>

lemma handle_ack_rr:
  assumes win: "snd_window ck chunk lo nxt q" and fl: "hdr_flag b = 5"
  shows "\<exists>q'. handle_ack ck q b = Inr (q', []) \<and> queue_cap q' = queue_cap q \<and>
    snd_window ck chunk (max lo (min (unat (hdr_seq b)) nxt)) nxt q'"
proof -
  note W = snd_windowD [OF win]
  from cq.rem_loop_range [OF W(1,7,2), of "hdr_seq b"] obtain q' where
    "for_u32 (\<lambda>i q. rbind (CircularQueue_remove q i) (\<lambda>(_, q'). Inr q')) 1 (hdr_seq b) q = Inr q'"
    "queue_ok q'" "queue_cap q' = queue_cap q"
    "window_range (queue_cap q') (queue_lookup q') (max lo (min (unat (hdr_seq b)) nxt)) nxt
       (\<lambda>s. pdu_of ck (word_of_nat s) 16 (chunk s))" by blast
  with fl W show ?thesis by (auto simp: handle_ack_def snd_window_def)
qed

text \<open>SREJ for a packet in the window: exactly that packet goes out again, with flag 17.\<close>

lemma handle_ack_srej:
  assumes win: "snd_window ck chunk lo nxt q" and fl: "hdr_flag b = 6"
    and m: "lo \<le> unat (hdr_seq b)" "unat (hdr_seq b) < nxt"
  shows "handle_ack ck q b = Inr (q, [pdu_of ck (hdr_seq b) 17 (chunk (unat (hdr_seq b)))])"
proof -
  note W = snd_windowD [OF win]
  obtain es i where "entries q = Some es" "i < length es" "CircularQueue_get q (hdr_seq b) = Inr (Some i)"
    "packet (es ! i) = Some (pdu_of ck (hdr_seq b) 16 (chunk (unat (hdr_seq b))))"
    "packetLen (es ! i) = int (length (pdu_of ck (hdr_seq b) 16 (chunk (unat (hdr_seq b)))))"
    using queue_get_hit [OF W(1) W(8) [OF m]] by blast
  moreover have "length (chunk (unat (hdr_seq b))) \<le> MAXBUF" by (rule W(5))
  ultimately show ?thesis
    using fl by (simp add: handle_ack_def Let_def entries_of_def entry_packet_def createPDU_full)
qed

lemma handle_ack_other:
  "hdr_flag b \<noteq> 5 \<Longrightarrow> hdr_flag b \<noteq> 6 \<Longrightarrow> handle_ack ck q b = Inr (q, [])"
  by (simp add: handle_ack_def)

text \<open>Whatever SREJ does, it keeps the window, and what it sends carries the number asked for.\<close>

lemma handle_ack_srej_any:
  assumes fl: "hdr_flag b = 6" and ret: "handle_ack ck q b = Inr (q', pdus)"
  shows "q' = q \<and> (\<forall>p \<in> set pdus. \<exists>pl. p = pdu_of ck (hdr_seq b) 17 pl \<and> length pl \<le> MAXBUF)"
proof -
  from ret fl obtain r where r: "CircularQueue_get q (hdr_seq b) = Inr r"
    by (auto simp: handle_ack_def Let_def res_eqs)
  show ?thesis
  proof (cases r)
    case None
    with ret fl r show ?thesis by (simp add: handle_ack_def Let_def)
  next
    case (Some i)
    with ret fl r obtain e :: QueueEntry and p pdu where "createPDU ck (MAXBUF + 7) (hdr_seq b) 17 (drop 7 p) (packetLen e - 7) = Inr pdu"
      "pdus = [pdu]" "q' = q"
      by (auto simp: handle_ack_def Let_def rbind_eq_Inr)
    with createPDU_Inr [OF this(1)] show ?thesis by auto
  qed
qed

text \<open>The effect of any honest acknowledgement.\<close>

lemma handle_ack_window:
  assumes win: "snd_window ck chunk lo nxt q" and ret: "handle_ack ck q b = Inr (q', pdus)"
    and hon: "hdr_flag b = 6 \<longrightarrow> unat (hdr_seq b) < nxt"
  shows "\<exists>lo'. lo \<le> lo' \<and> lo' \<le> max lo (if hdr_flag b = 5 then unat (hdr_seq b) else 0) \<and>
    snd_window ck chunk lo' nxt q' \<and> queue_cap q' = queue_cap q \<and>
    (\<forall>p \<in> set pdus. data_pdu ck chunk lo nxt p)"
proof -
  consider "hdr_flag b = 5" | "hdr_flag b = 6" | "hdr_flag b \<noteq> 5" "hdr_flag b \<noteq> 6" by blast
  then show ?thesis
  proof cases
    case 1
    with handle_ack_rr [OF win 1] ret show ?thesis
      by (intro exI [of _ "max lo (min (unat (hdr_seq b)) nxt)"]) auto
  next
    case 2
    have "data_pdu ck chunk lo nxt p" if "p \<in> set pdus" for p
    proof (cases "lo \<le> unat (hdr_seq b)")
      case True
      with handle_ack_srej [OF win 2 True] hon 2 ret that snd_windowD(5) [OF win] show ?thesis
        by (auto intro!: data_pduI)
    next
      case False
      with handle_ack_srej_any [OF 2 ret] that hon 2 show ?thesis
        by (auto intro!: data_pduI)
    qed
    with handle_ack_srej_any [OF 2 ret] win 2 show ?thesis by auto
  next
    case 3
    with handle_ack_other [OF 3, of ck q] ret win show ?thesis by auto
  qed
qed

text \<open>The timeout retransmission: one packet of the window, with flag 18.\<close>

lemma scan_valid_ok:
  "\<forall>i \<in> set is. i < length es \<Longrightarrow>
   \<exists>r. scan_valid es is = Inr r \<and>
     (case r of None \<Rightarrow> \<forall>i \<in> set is. \<not> valid (es ! i)
      | Some e \<Rightarrow> \<exists>i \<in> set is. e = es ! i \<and> valid e)"
  by (induction "is") (auto split: option.splits)

lemma resend_oldest_window:
  assumes win: "snd_window ck chunk lo nxt q" and ne: "lo < nxt"
  shows "\<exists>m. lo \<le> unat m \<and> unat m < nxt \<and>
    resend_oldest ck q = Inr [pdu_of ck m 18 (chunk (unat m))]"
proof -
  note W = snd_windowD [OF win]
  from W(1) obtain es where es: "entries q = Some es" "length es = nat (WindowSize q)"
    "0 < WindowSize q" "\<And>i. i < length es \<Longrightarrow> entry_ok (length es) i (es ! i)" by (elim queue_okE) blast
  from scan_valid_ok [of "[0..<nat (WindowSize q)]" es] es(2) obtain r where
    r: "scan_valid es [0..<nat (WindowSize q)] = Inr r"
    "case r of None \<Rightarrow> \<forall>i \<in> set [0..<nat (WindowSize q)]. \<not> valid (es ! i)
      | Some e \<Rightarrow> \<exists>i \<in> set [0..<nat (WindowSize q)]. e = es ! i \<and> valid e" by auto
  let ?lo = "word_of_nat lo :: u32"
  have "unat ?lo = lo" using W(3,4) by (simp add: unat_of_nat take_bit_nat_eq_self)
  then have "queue_lookup q ?lo \<noteq> None" using W(8) [of ?lo] ne by simp
  then have "valid (es ! (unat ?lo mod length es))" "unat ?lo mod length es < nat (WindowSize q)"
    using es by (auto simp: queue_lookup_def slot_lookup_def Let_def split: if_splits)
  with r(2) obtain i where i: "i < length es" "r = Some (es ! i)" "valid (es ! i)"
    using es(2) by (auto split: option.splits)
  let ?m = "sequenceNum (es ! i)"
  from es(4) [OF i(1)] i(3) obtain p where p: "packet (es ! i) = Some p"
    "packetLen (es ! i) = int (length p)" "unat ?m mod length es = i" by (auto simp: entry_ok_def)
  then have l: "queue_lookup q ?m = Some p" using es(1) i by (simp add: queue_lookup_def slot_lookup_def)
  then have m: "lo \<le> unat ?m" "unat ?m < nxt"
    using window_rangeD(3) [OF W(7), of ?m] by (auto split: if_splits)
  then have "p = pdu_of ck ?m 16 (chunk (unat ?m))" using W(8) l by simp
  then have "resend_oldest ck q = Inr [pdu_of ck ?m 18 (chunk (unat ?m))]"
    using es r(1) i p(1,2) W(5) [of "unat ?m"]
    by (simp add: resend_oldest_def entries_of_def entry_packet_def createPDU_full nth_pdu_of)
  with m show ?thesis by blast
qed

lemma resend_oldest_empty:
  assumes win: "snd_window ck chunk lo lo q"
  shows "resend_oldest ck q = Inr []"
proof -
  note W = snd_windowD [OF win]
  from W(1) obtain es where es: "entries q = Some es" "length es = nat (WindowSize q)"
    "0 < WindowSize q" "ValidCount q = int (length (filter valid es))" by (elim queue_okE) blast
  have "dom (queue_lookup q) = {}" using dom_window_range [OF W(7)] by auto
  then have "filter valid es = []" using ValidCount_card [OF W(1)] es(4) by simp
  then have "\<not> valid (es ! i)" if "i < nat (WindowSize q)" for i
    using that es(2) by (auto simp: filter_empty_conv)
  moreover obtain r where "scan_valid es [0..<nat (WindowSize q)] = Inr r"
    "case r of None \<Rightarrow> \<forall>i \<in> set [0..<nat (WindowSize q)]. \<not> valid (es ! i)
      | Some e \<Rightarrow> \<exists>i \<in> set [0..<nat (WindowSize q)]. e = es ! i \<and> valid e"
    using scan_valid_ok [of "[0..<nat (WindowSize q)]" es] es(2) by auto
  ultimately show ?thesis using es
    by (cases r) (auto simp: resend_oldest_def entries_of_def)
qed

subsection \<open>The loops over quiet intervals\<close>

lemma drain_acks_quiet:
  "pset_sane w \<Longrightarrow> schedule w = Quiet # es \<Longrightarrow> drain_acks ck q info w = (Inr (q, info), w\<lparr>schedule := es\<rparr>)"
  by (subst drain_acks.simps) (simp add: poll_call_quiet)

lemma fill_window_quiet:
  assumes win: "snd_window ck (file_chunk b f) 1 k q" and cap: "n < queue_cap q"
    and b: "b = unat (bufferSize info)" "0 < b" "b \<le> MAXBUF"
    and n: "1 \<le> k" "k \<le> n + 1" "0 < n \<Longrightarrow> (n - 1) * b < length f" "length f \<le> n * b" "n + 2 < 2 ^ 32"
    and w: "in_file info = Some (drop ((k - 1) * b) f)" "heap w = (\<lambda>_. True)" "pset_sane w"
      "schedule w = replicate (n + 1 - k) Quiet @ es"
  shows "\<exists>q' tc' w'. fill_window ck q (word_of_nat k) info tc w =
      (Inr (True, q', word_of_nat (n + 1), info\<lparr>in_file := Some []\<rparr>, tc'), w') \<and>
    snd_window ck (file_chunk b f) 1 (n + 1) q' \<and> schedule w' = es \<and>
    sent w' = sent w @ map (\<lambda>s. (childSocket info, pdu_of ck (word_of_nat s) 16 (file_chunk b f s), clientAddr info)) [k..<n + 1] \<and>
    pset w' = pset w \<and> open_fds w' = open_fds w"
  using win cap b(1) n(1,2) w
proof (induction "n + 1 - k" arbitrary: k q info tc w)
  case 0
  then have k: "k = n + 1" by simp
  note W = snd_windowD [OF 0(2)]
  have "\<not> CircularQueue_is_full q"
    using cq.full_range [OF W(1,7)] W(4) 0(3) k by simp
  moreover have "in_file info = Some []" using 0(7) k n(4) by simp
  moreover have "info\<lparr>in_file := Some []\<rparr> = info" using calculation(2) by simp
  ultimately show ?case using 0 k
    by (subst fill_window.simps) (simp add: alloc_def send_chunk_end)
next
  case (Suc j)
  then have lt: "k \<le> n" by simp
  note W = snd_windowD [OF Suc.prems(1)]
  have room: "\<not> CircularQueue_is_full q"
    using cq.full_range [OF W(1,7)] W(4) Suc.prems(2) lt by simp
  let ?rest = "drop ((k - 1) * b) f" and ?rest1 = "drop (k * b) f"
  let ?pdu = "pdu_of ck (word_of_nat k) 16 (file_chunk b f k)"
  have "(k - 1) * b \<le> (n - 1) * b" using lt by (intro mult_right_mono) auto
  moreover have "(n - 1) * b < length f" using n(3) lt Suc.prems(4) by simp
  ultimately have "(k - 1) * b < length f" by (rule le_less_trans)
  then have ne: "?rest \<noteq> []" by simp
  have "k + 1 < 2 ^ 32" using lt n(5) by simp
  from send_chunk_window [OF Suc.prems(1) room this, of "bufferSize info" ?rest] obtain q1 where
    sc: "send_chunk ck True q (word_of_nat k) (bufferSize info) ?rest =
      Inr (Some (q1, word_of_nat (k + 1), drop b ?rest, ?pdu))"
    "snd_window ck (file_chunk b f) 1 (k + 1) q1" "queue_cap q1 = queue_cap q"
    using b ne Suc.prems(3) by (auto simp: file_chunk_def)
  have dr: "drop b ?rest = ?rest1"
    using Suc.prems(4) by (simp add: add.commute flip: mult_Suc)
  have rep: "schedule w = Quiet # replicate (n + 1 - (k + 1)) Quiet @ es"
    using Suc.prems(9) lt by (simp add: Suc_diff_le)
  let ?w1 = "w\<lparr>allocs := allocs w + 1, sent := sent w @ [(childSocket info, ?pdu, clientAddr info)],
    schedule := replicate (n + 1 - (k + 1)) Quiet @ es\<rparr>"
  let ?info1 = "info\<lparr>in_file := Some ?rest1\<rparr>"
  have step: "fill_window ck q (word_of_nat k) info tc w = fill_window ck q1 (word_of_nat (k + 1)) ?info1 0 ?w1"
    using room Suc.prems(6-8) sc(1) dr rep
    by (subst fill_window.simps)
       (simp add: alloc_def sendtoErr_def drain_acks_quiet pset_sane_def)
  have "\<exists>q' tc' w'. fill_window ck q1 (word_of_nat (k + 1)) ?info1 0 ?w1 =
      (Inr (True, q', word_of_nat (n + 1), ?info1\<lparr>in_file := Some []\<rparr>, tc'), w') \<and>
    snd_window ck (file_chunk b f) 1 (n + 1) q' \<and> schedule w' = es \<and>
    sent w' = sent ?w1 @ map (\<lambda>s. (childSocket ?info1, pdu_of ck (word_of_nat s) 16 (file_chunk b f s), clientAddr ?info1)) [k + 1..<n + 1] \<and>
    pset w' = pset ?w1 \<and> open_fds w' = open_fds ?w1"
  proof (rule Suc.hyps(1))
    show "j = n + 1 - (k + 1)" using Suc.hyps(2) lt by simp
  qed (use Suc.prems(2,3,7,8) sc(2,3) lt in \<open>simp_all add: pset_sane_def\<close>)
  moreover have "[k..<n + 1] = k # [k + 1..<n + 1]" using lt by (simp add: upt_conv_Cons)
  ultimately show ?case unfolding step by auto
qed

text \<open>Ten quiet intervals against a full window.\<close>

lemma wait_for_room_quiet:
  assumes "CircularQueue_is_full q" "resend_oldest ck q = Inr pdus" "pset_sane w"
    and "schedule w = replicate (10 - k) Quiet @ es" "k < 10"
  shows "wait_for_room ck q info k w =
    (Inr (True, q, info, 10), w\<lparr>schedule := es,
       sent := sent w @ concat (replicate (10 - k) (map (\<lambda>m. (childSocket info, m, clientAddr info)) pdus))\<rparr>)"
  using assms(3-5)
proof (induction "10 - k" arbitrary: k w)
  case 0
  then show ?case by simp
next
  case (Suc j)
  let ?sends = "map (\<lambda>m. (childSocket info, m, clientAddr info)) pdus"
  have sch: "schedule w = Quiet # replicate (10 - (k + 1)) Quiet @ es"
    using Suc.prems(2,3) by (simp add: Suc_diff_le flip: replicate_Suc)
  let ?w = "w\<lparr>schedule := replicate (10 - (k + 1)) Quiet @ es, sent := sent w @ ?sends\<rparr>"
  have step: "wait_for_room ck q info k w =
      (if k + 1 \<ge> 10 then ret (True, q, info, k + 1) ?w else wait_for_room ck q info (k + 1) ?w)"
    using assms(1,2) poll_call_quiet [OF Suc.prems(1) sch, of 1000]
    by (subst wait_for_room.simps) (simp add: send_all_eq)
  show ?case
  proof (cases "k + 1 \<ge> 10")
    case True
    then have "k = 9" using Suc.prems(3) by simp
    then show ?thesis using step by simp
  next
    case False
    have "wait_for_room ck q info (k + 1) ?w =
      (Inr (True, q, info, 10), ?w\<lparr>schedule := es,
         sent := sent ?w @ concat (replicate (10 - (k + 1)) ?sends)\<rparr>)"
    proof (rule Suc.hyps(1))
      show "j = 10 - (k + 1)" using Suc.hyps(2) by simp
    qed (use False Suc.prems(1) in \<open>simp_all add: pset_sane_def\<close>)
    moreover have "10 - k = Suc (10 - (k + 1))" using False by simp
    ultimately show ?thesis using step False by simp
  qed
qed

text \<open>The whole of a quiet data phase.\<close>

lemma send_data_state_quiet:
  assumes "int n < ws" "ws < 2 ^ 31" and "b = unat (bufferSize info)" "0 < b" "b \<le> MAXBUF"
    and "0 < n \<Longrightarrow> (n - 1) * b < length f" "length f \<le> n * b"
    and "in_file info = Some f" "heap w = (\<lambda>_. True)" "pset_sane w" "schedule w = replicate n Quiet @ es"
  shows "\<exists>q' info' w'. send_data_state ck (fresh_queue ws) info w = (Inr (WAIT_ON_EOF_ACK, q', info'), w') \<and>
    sent w' = sent w @ map (\<lambda>d. (childSocket info, d, clientAddr info)) (data_run ck (file_chunk b f) 1 (n + 1)) \<and>
    snd_window ck (file_chunk b f) 1 (n + 1) q' \<and> schedule w' = es \<and>
    pset w' = pset w \<and> open_fds w' = open_fds w \<and>
    info' = info\<lparr>in_file := Some [], eofPacket := pdu_of ck (word_of_nat (n + 1)) 10 [], eofLen := 7,
      eofSeq := word_of_nat (n + 1), eofResendCount := 0\<rparr>"
proof -
  have len: "length (file_chunk b f s) \<le> MAXBUF" for s
    using length_file_chunk [of b f s] assms(5) by simp
  have ws: "0 < ws" using assms(1) by simp
  have win: "snd_window ck (file_chunk b f) 1 1 (fresh_queue ws)"
    unfolding fresh_queue_def using assms(2) ws len by (intro snd_window_init) auto
  have cap: "n < queue_cap (fresh_queue ws)" using fresh_queue_ok [OF ws assms(2)] assms(1) by simp
  let ?info = "info\<lparr>eofResendCount := 0\<rparr>"
  have "b = unat (bufferSize ?info)" "n + 2 < 2 ^ 32" "in_file ?info = Some (drop ((1 - 1) * b) f)"
    "schedule w = replicate (n + 1 - 1) Quiet @ es" using assms(1-3,8,11) by simp_all
  with fill_window_quiet [OF win cap, of ?info w es 0] obtain q' tc' w' where
    fw: "fill_window ck (fresh_queue ws) (word_of_nat 1) ?info 0 w =
      (Inr (True, q', word_of_nat (n + 1), ?info\<lparr>in_file := Some []\<rparr>, tc'), w')"
    "snd_window ck (file_chunk b f) 1 (n + 1) q'" "schedule w' = es"
    "sent w' = sent w @ map (\<lambda>s. (childSocket info, pdu_of ck (word_of_nat s) 16 (file_chunk b f s), clientAddr info)) [1..<n + 1]"
    "pset w' = pset w" "open_fds w' = open_fds w"
    using assms(4-7,9,10) by (auto simp del: of_nat_add of_nat_Suc upt_Suc)
  have "send_data_loop ck (fresh_queue ws) 1 ?info 0 w =
      (Inr (False, q', word_of_nat (n + 1), ?info\<lparr>in_file := Some []\<rparr>), w')"
    using fw(1) [unfolded of_nat_1]
    by (subst send_data_loop.simps) (simp del: of_nat_add of_nat_Suc)
  with fw(2-6) show ?thesis
    by (auto simp: send_data_state_def data_run_def sendtoErr_def simp del: of_nat_add of_nat_Suc upt_Suc)
qed

subsection \<open>Properties\<close>

text \<open>
  C19: When the window is full and nothing arrives, the server sends one packet of the window
  again with flag 18 after each second of silence and gives up after exactly ten of them.
\<close>

theorem ten_timeouts:
  assumes "snd_window ck chunk lo nxt q" "CircularQueue_is_full q" "pset_sane w"
    and "schedule w = replicate 10 Quiet @ es"
  shows "\<exists>m. lo \<le> unat m \<and> unat m < nxt \<and>
    wait_for_room ck q info 0 w = (Inr (True, q, info, 10), w\<lparr>schedule := es,
      sent := sent w @ replicate 10 (childSocket info, pdu_of ck m 18 (chunk (unat m)), clientAddr info)\<rparr>)"
proof -
  note W = snd_windowD [OF assms(1)]
  have "0 < queue_cap q" using W(1) by (auto elim!: queue_okE simp: queue_cap_def)
  then have "lo < nxt" using cq.full_range [OF W(1,7)] W(4) assms(2) by simp
  from resend_oldest_window [OF assms(1) this] obtain m where m: "lo \<le> unat m" "unat m < nxt"
    "resend_oldest ck q = Inr [pdu_of ck m 18 (chunk (unat m))]" by blast
  have "concat (replicate k [x]) = replicate k x" for k and x :: "int \<times> byte list \<times> addr"
    by (induction k) auto
  with wait_for_room_quiet [OF assms(2) m(3) assms(3), of 0 es info] assms(4) m(1,2) show ?thesis
    by auto
qed

lemma one_slot_full:
  "\<exists>q. snd_window ck (file_chunk 2 [1, 2]) 1 2 q \<and> CircularQueue_is_full q"
proof -
  let ?ch = "file_chunk 2 [1, 2]"
  have len: "length (?ch s) \<le> MAXBUF" for s
    using length_file_chunk [of 2 "[1, 2]" s] by (simp add: MAXBUF_def)
  have win: "snd_window ck ?ch 1 1 (fresh_queue 1)"
    unfolding fresh_queue_def using len by (intro snd_window_init) auto
  have room: "\<not> CircularQueue_is_full (fresh_queue 1)" by (rule is_full_fresh) simp_all
  obtain q where q: "snd_window ck ?ch 1 (1 + 1) q" "queue_cap q = queue_cap (fresh_queue 1)"
    using send_chunk_window [OF win room, of 2 "[1, 2]"] by (auto simp: MAXBUF_def file_chunk_def)
  then have "CircularQueue_is_full q"
    using cq.full_range [OF snd_windowD(1,7) [OF q(1)]] fresh_queue_ok [of 1] by simp
  with q(1) [unfolded one_add_one] show ?thesis by blast
qed

theorem ten_timeouts_witness:
  "\<exists>q. wait_for_room (\<lambda>_. 0) q (initial_info 9) 0 (start_world (replicate 10 Quiet)) =
     (Inr (True, q, initial_info 9, 10),
      start_world []\<lparr>sent := replicate 10 (0, pdu_of (\<lambda>_. 0) 1 18 [1, 2], 9)\<rparr>)"
proof -
  obtain q where q: "snd_window (\<lambda>_. 0) (file_chunk 2 [1, 2]) 1 2 q" "CircularQueue_is_full q"
    using one_slot_full by blast
  let ?w = "start_world (replicate 10 Quiet)"
  have "pset_sane ?w" "schedule ?w = replicate 10 Quiet @ []"
    by (simp_all add: start_world_def pset_sane_def initial_pollset_def)
  from ten_timeouts [OF q this, of "initial_info 9"] obtain m where m: "1 \<le> unat m" "unat m < 2"
    "wait_for_room (\<lambda>_. 0) q (initial_info 9) 0 ?w = (Inr (True, q, initial_info 9, 10),
       ?w\<lparr>schedule := [], sent := sent ?w @ replicate 10 (childSocket (initial_info 9),
         pdu_of (\<lambda>_. 0) m 18 (file_chunk 2 [1, 2] (unat m)), clientAddr (initial_info 9))\<rparr>)" by blast
  then have "unat m = 1" by simp
  then have "m = 1" by (simp add: word_unat_eq_iff)
  with m(3) show ?thesis
    by (intro exI [of _ q]) (simp add: start_world_def initial_info_def file_chunk_def)
qed

text \<open>
  A cumulative acknowledgement (RR \<open>n\<close>) removes from any well-formed window exactly the
  packets numbered 1, \dots, \<open>n - 1\<close>, and sends nothing.
\<close>

lemma rr_removes_below:
  assumes "queue_ok q" "hdr_flag b = 5"
  shows "\<exists>q'. handle_ack ck q b = Inr (q', []) \<and> queue_ok q' \<and> queue_cap q' = queue_cap q \<and>
    queue_lookup q' = (\<lambda>s. if 1 \<le> s \<and> s < hdr_seq b then None else queue_lookup q s)"
  using cq.rem_loop [OF assms(1), of 1 "hdr_seq b"] assms(2)
  by (auto simp: handle_ack_def word_le_nat_alt word_less_nat_alt)

text \<open>
  A SREJ whose slot holds another packet is answered with that packet's payload under the
  number asked for: the inverted test of \<open>CircularQueue_get\<close> lets the wrong entry through.
\<close>

lemma srej_wrong_payload:
  assumes "queue_ok q" "queue_lookup q t = Some (pdu_of ck t 16 p)" "length p \<le> MAXBUF"
    and "hdr_flag b = 6" "unat t mod queue_cap q = unat (hdr_seq b) mod queue_cap q"
  shows "handle_ack ck q b = Inr (q, [pdu_of ck (hdr_seq b) 17 p])"
proof -
  obtain es i where es: "entries q = Some es" "i < length es" "CircularQueue_get q t = Inr (Some i)"
    "packet (es ! i) = Some (pdu_of ck t 16 p)" "packetLen (es ! i) = int (length (pdu_of ck t 16 p))"
    using queue_get_hit [OF assms(1,2)] by blast
  note slot = queue_slot [OF assms(1) es(1)]
  have i: "i = unat t mod length es"
    using es(1,3) slot [of t] by (auto simp: CircularQueue_get_def entries_of_def split: if_splits)
  from assms(2) es(1) have "valid (es ! i)"
    by (auto simp: i queue_lookup_def slot_lookup_def Let_def split: if_splits)
  moreover have eq: "i = unat (hdr_seq b) mod length es"
    using assms(5) i slot(3) [of t] slot(3) [of "hdr_seq b"] by simp
  ultimately have "CircularQueue_get q (hdr_seq b) = Inr (Some i)"
    using es(1,2) slot(1) [of "hdr_seq b"] by (simp add: CircularQueue_get_def entries_of_def)
  then show ?thesis using es assms(3,4)
    by (simp add: handle_ack_def Let_def entries_of_def entry_packet_def createPDU_full)
qed

end
