(* ===== verification/Receiver.thy ===== *)
theory Receiver
  imports Platform
begin

text \<open>
  The receiving half of \<open>rcopy.c\<close>: \<open>process_transfer_state\<close> with its three-state machine,
  \<open>buffer_packet\<close> of \<open>functions.c\<close> and \<open>send_eof_ack_state\<close>.  One arriving datagram is
  \<open>transfer_packet\<close>, a function of the receiver's state that returns the new state and the
  PDUs it sends; the receive loop \<open>process_transfer_state\<close> runs it over the schedule.  The
  invariant \<open>rcv_inv\<close> says that the file written so far is the concatenation of the chunks
  below \<open>expected\<close> and that every buffered packet is the chunk its slot will be read as.
\<close>

subsection \<open>State\<close>

datatype TRANSFER_STATE = IN_ORDER | OUT_OF_ORDER | FLUSH

text \<open>
  \<open>e_packet\<close> holds the bytes written to \<open>packet[MAXBUF]\<close> so far, \<open>outFile\<close> the bytes
  written to the output stream, \<open>outFile_fd\<close> its descriptor, \<open>outFile_open\<close> whether it
  and the socket are still open.
\<close>

record PacketEntry =
  e_packet :: "byte list"
  e_packetLen :: int
  e_valid :: bool

record ReceiveInfo =
  buffer :: "PacketEntry list"
  rcv_windowSize :: int
  expected :: u32
  highest :: u32
  outFile :: "byte list"
  outFile_open :: bool
  outFile_fd :: int
  socketNum :: int
  serverAddr :: addr
  rcv_eofSeq :: u32

definition zero_packet_entry :: PacketEntry where
  "zero_packet_entry = \<lparr>e_packet = [], e_packetLen = 0, e_valid = False\<rparr>"

text \<open>
  The receiver as \<open>wait_on_data_state\<close> sets it up, but for the descriptor of the stream,
  which the caller fills in (\<open>-1\<close> stands for none).
\<close>

definition fresh_receiver :: "int \<Rightarrow> int \<Rightarrow> addr \<Rightarrow> ReceiveInfo" where
  "fresh_receiver wsize sock peer =
     \<lparr>buffer = replicate (nat wsize) zero_packet_entry, rcv_windowSize = wsize, expected = 1, highest = 0,
      outFile = [], outFile_open = True, outFile_fd = -1, socketNum = sock, serverAddr = peer, rcv_eofSeq = 0\<rparr>"

subsection \<open>Operations\<close>

definition buffer_packet :: "ReceiveInfo \<Rightarrow> u32 \<Rightarrow> byte list \<Rightarrow> int \<Rightarrow> ReceiveInfo res" where
  "buffer_packet info sq data len =
     rbind (umod sq (rcv_windowSize info)) (\<lambda>index.
     rbind (arr_get (buffer info) index) (\<lambda>e.
       if \<not> e_valid e
       then rbind (read_bytes data len) (\<lambda>p.
            rbind (memcpy_at MAXBUF (e_packet e) 0 p) (\<lambda>pk.
              Inr (info\<lparr>buffer := (buffer info)[index :=
                     e\<lparr>e_packet := pk, e_packetLen := len, e_valid := True\<rparr>]\<rparr>)))
       else Inr info))"

lemma length_filter_clear:
  "i < length xs \<Longrightarrow> P (xs ! i) \<Longrightarrow> \<not> P y \<Longrightarrow> length (filter P (xs[i := y])) < length (filter P xs)"
proof (induction xs arbitrary: i)
  case (Cons x xs)
  then show ?case by (cases i) auto
qed simp

text \<open>The loop that writes the buffered run that starts at \<open>expected\<close>.\<close>

function flush_loop :: "ReceiveInfo \<Rightarrow> ReceiveInfo res" where
  "flush_loop info =
     (if expected info \<le> highest info
      then rbind (umod (expected info) (rcv_windowSize info)) (\<lambda>i.
           rbind (arr_get (buffer info) i) (\<lambda>e.
             if e_valid e
             then rbind (read_bytes (e_packet e) (e_packetLen e)) (\<lambda>p.
                    flush_loop (info\<lparr>outFile := outFile info @ p,
                                     buffer := (buffer info)[i := e\<lparr>e_valid := False\<rparr>],
                                     expected := expected info + 1\<rparr>))
             else Inr info))
      else Inr info)"
  by pat_completeness auto

termination
  by (relation "measure (\<lambda>info. length (filter e_valid (buffer info)))")
     (auto simp: arr_get_eq_Inr intro!: length_filter_clear)

declare flush_loop.simps [simp del]

text \<open>One data packet (flags 16, 17, 18): the new state, and the PDUs it makes the client send.\<close>

definition data_packet ::
    "cksum \<Rightarrow> TRANSFER_STATE \<Rightarrow> ReceiveInfo \<Rightarrow> u32 \<Rightarrow> byte list \<Rightarrow> int \<Rightarrow>
     (TRANSFER_STATE \<times> ReceiveInfo \<times> byte list list) res" where
  "data_packet ck state info seqNum payload payloadLen =
     (case state of
        IN_ORDER \<Rightarrow>
          if seqNum = expected info
          then rbind (read_bytes payload payloadLen) (\<lambda>p.
               let info1 = info\<lparr>outFile := outFile info @ p, expected := expected info + 1,
                                highest := seqNum\<rparr>
               in rbind (send_rr ck (expected info1)) (\<lambda>rr. Inr (IN_ORDER, info1, [rr])))
          else if seqNum > expected info
          then rbind (buffer_packet info seqNum payload payloadLen) (\<lambda>info1.
               let info2 = (if seqNum > highest info1 then info1\<lparr>highest := seqNum\<rparr> else info1)
               in rbind (send_srej ck (expected info2)) (\<lambda>sj. Inr (OUT_OF_ORDER, info2, [sj])))
          else Inr (IN_ORDER, info, [])
      | OUT_OF_ORDER \<Rightarrow>
          if seqNum = expected info
          then rbind (read_bytes payload payloadLen) (\<lambda>p.
               let info1 = info\<lparr>outFile := outFile info @ p, expected := expected info + 1\<rparr>
               in rbind (send_rr ck (expected info1)) (\<lambda>rr. Inr (FLUSH, info1, [rr])))
          else if seqNum > expected info
          then rbind (buffer_packet info seqNum payload payloadLen) (\<lambda>info1.
               let info2 = (if seqNum > highest info1 then info1\<lparr>highest := seqNum\<rparr> else info1)
               in Inr (OUT_OF_ORDER, info2, []))
          else Inr (OUT_OF_ORDER, info, [])
      | FLUSH \<Rightarrow>
          rbind (flush_loop info) (\<lambda>info1.
            if expected info1 \<le> highest info1
            then rbind (umod (expected info1) (rcv_windowSize info1)) (\<lambda>i.
                 rbind (arr_get (buffer info1) i) (\<lambda>e.
                   if \<not> e_valid e
                   then rbind (send_srej ck (expected info1)) (\<lambda>sj. Inr (OUT_OF_ORDER, info1, [sj]))
                   else Inr (FLUSH, info1, [])))
            else rbind (send_rr ck (expected info1)) (\<lambda>rr. Inr (IN_ORDER, info1, [rr]))))"

text \<open>
  \<open>send_eof_ack_state\<close>: the acknowledgement goes out, then the stream and the socket close.
\<close>

definition send_eof_ack :: "cksum \<Rightarrow> ReceiveInfo \<Rightarrow> u32 \<Rightarrow> (ReceiveInfo \<times> byte list list) res" where
  "send_eof_ack ck info eofSequence =
     rbind (createPDU ck 7 eofSequence 35 [] 0) (\<lambda>ackPDU.
       Inr (info\<lparr>outFile_open := False\<rparr>, [ackPDU]))"

text \<open>
  What one received datagram does: \<open>More\<close> is another turn of the loop, \<open>Finished\<close> the
  return of \<open>send_eof_ack_state\<close>.
\<close>

datatype turn =
    More TRANSFER_STATE ReceiveInfo "byte list list"
  | Finished ReceiveInfo "byte list list"

definition payload_of :: "rbuf \<Rightarrow> int \<Rightarrow> byte list" where
  "payload_of packet payloadLen = map (\<lambda>i. packet (7 + i)) [0..<nat payloadLen]"

definition transfer_packet ::
    "cksum \<Rightarrow> TRANSFER_STATE \<Rightarrow> ReceiveInfo \<Rightarrow> rbuf \<Rightarrow> int \<Rightarrow> turn res" where
  "transfer_packet ck state info packet bytesRecv =
     (let seqNum = hdr_seq packet; flag = hdr_flag packet; payloadLen = bytesRecv - 7;
          payload = payload_of packet payloadLen
      in if flag = 10
         then rbind (flush_loop (info\<lparr>rcv_eofSeq := seqNum\<rparr>)) (\<lambda>info1.
              rbind (send_eof_ack ck info1 seqNum) (\<lambda>(info2, pdus). Inr (Finished info2 pdus)))
         else if flag = 16 \<or> flag = 17 \<or> flag = 18
         then rbind (data_packet ck state info seqNum payload payloadLen) (\<lambda>(state1, info1, pdus).
              Inr (More state1 info1 pdus))
         else Inr (More state info []))"

text \<open>The receive loop; it ends with the EOF packet and returns \<open>DONE\<close>.\<close>

function process_transfer_loop :: "cksum \<Rightarrow> TRANSFER_STATE \<Rightarrow> ReceiveInfo \<Rightarrow> ReceiveInfo prog" where
  "process_transfer_loop ck state info w =
     bnd (safeRecvfrom (socketNum info) (MAXBUF + 7)) (\<lambda>r w1. case r of (packet, bytesRecv, src) \<Rightarrow>
       bnd (lift (to_stop (transfer_packet ck state (info\<lparr>serverAddr := src\<rparr>) packet bytesRecv)))
         (\<lambda>t w2. case t of
            Finished info1 pdus \<Rightarrow>
              bnd (send_all (socketNum info1) pdus (serverAddr info1)) (\<lambda>_.
              bnd (close_fd (outFile_fd info1)) (\<lambda>_.
              bnd (close_fd (socketNum info1)) (\<lambda>_. ret info1))) w2
          | More state1 info1 pdus \<Rightarrow>
              bnd (send_all (socketNum info1) pdus (serverAddr info1)) (\<lambda>_ w3.
                process_transfer_loop ck state1 info1 w3) w2) w1) w"
  by pat_completeness auto

termination
  by (relation "measure (\<lambda>(ck, state, info, w). length (schedule w))")
     (auto simp: send_all_eq dest: safeRecvfrom_schedule)

declare process_transfer_loop.simps [simp del]

definition process_transfer_state :: "cksum \<Rightarrow> ReceiveInfo \<Rightarrow> ReceiveInfo prog" where
  "process_transfer_state ck info = process_transfer_loop ck IN_ORDER info"

subsection \<open>The receiver's invariant\<close>

text \<open>
  \<open>chunk s\<close> is the payload that belongs to sequence number \<open>s\<close>, \<open>nxt\<close> a bound on the
  sequence numbers sent so far.  A valid slot holds the chunk of the one number in the
  receive window that maps to it.
\<close>

definition slot_ok :: "(nat \<Rightarrow> byte list) \<Rightarrow> nat \<Rightarrow> nat \<Rightarrow> nat \<Rightarrow> nat \<Rightarrow> PacketEntry \<Rightarrow> bool" where
  "slot_ok chunk w ex hi i e \<longleftrightarrow> (e_valid e \<longrightarrow>
     (\<exists>s. ex \<le> s \<and> s < ex + w \<and> s \<le> hi \<and> s mod w = i \<and>
          read_bytes (e_packet e) (e_packetLen e) = Inr (chunk s)))"

definition rcv_core :: "(nat \<Rightarrow> byte list) \<Rightarrow> nat \<Rightarrow> ReceiveInfo \<Rightarrow> bool" where
  "rcv_core chunk nxt info \<longleftrightarrow>
     0 < rcv_windowSize info \<and> rcv_windowSize info < 2 ^ 31 \<and>
     length (buffer info) = nat (rcv_windowSize info) \<and>
     1 \<le> unat (expected info) \<and> unat (expected info) \<le> nxt \<and> unat (highest info) < nxt \<and>
     outFile info = concat (map chunk [1..<unat (expected info)]) \<and>
     (\<forall>i < length (buffer info).
        slot_ok chunk (length (buffer info)) (unat (expected info)) (unat (highest info)) i (buffer info ! i))"

definition rcv_inv :: "(nat \<Rightarrow> byte list) \<Rightarrow> nat \<Rightarrow> TRANSFER_STATE \<Rightarrow> ReceiveInfo \<Rightarrow> bool" where
  "rcv_inv chunk nxt state info \<longleftrightarrow> rcv_core chunk nxt info \<and>
     (case state of
        IN_ORDER \<Rightarrow> highest info < expected info
      | OUT_OF_ORDER \<Rightarrow> \<not> e_valid (buffer info ! (unat (expected info) mod length (buffer info)))
      | FLUSH \<Rightarrow> True)"

lemma rcv_coreD:
  assumes "rcv_core chunk nxt info"
  shows "0 < length (buffer info)" "nat (rcv_windowSize info) = length (buffer info)"
    "umod x (rcv_windowSize info) = Inr (unat x mod length (buffer info))"
    "1 \<le> unat (expected info)" "unat (expected info) \<le> nxt" "unat (highest info) < nxt"
    "outFile info = concat (map chunk [1..<unat (expected info)])"
    "i < length (buffer info) \<Longrightarrow>
       slot_ok chunk (length (buffer info)) (unat (expected info)) (unat (highest info)) i (buffer info ! i)"
  using assms by (auto simp: rcv_core_def)

lemma window_unique:
  assumes "(ex :: nat) \<le> s" "s < ex + w" "s mod w = ex mod w" shows "s = ex"
proof (rule ccontr)
  assume "s \<noteq> ex"
  then have "ex < s" using assms(1) by simp
  then have "w \<le> s - ex" using residue_gap [OF assms(3) [symmetric]] by simp
  with \<open>ex < s\<close> assms(2) show False by linarith
qed

text \<open>The slot of \<open>expected\<close>, when valid, holds the expected chunk.\<close>

lemma expected_slot:
  assumes "rcv_core chunk nxt info" "i = unat (expected info) mod length (buffer info)"
    "e_valid (buffer info ! i)"
  shows "read_bytes (e_packet (buffer info ! i)) (e_packetLen (buffer info ! i))
      = Inr (chunk (unat (expected info)))" "unat (expected info) \<le> unat (highest info)"
proof -
  have "i < length (buffer info)" using assms(2) rcv_coreD(1) [OF assms(1)] by simp
  with rcv_coreD(8) [OF assms(1)] assms(3) obtain s where
    s: "unat (expected info) \<le> s" "s < unat (expected info) + length (buffer info)"
      "s \<le> unat (highest info)" "s mod length (buffer info) = i"
      "read_bytes (e_packet (buffer info ! i)) (e_packetLen (buffer info ! i)) = Inr (chunk s)"
    unfolding slot_ok_def by blast
  then have "s = unat (expected info)" using assms(2) window_unique by blast
  with s show "read_bytes (e_packet (buffer info ! i)) (e_packetLen (buffer info ! i))
      = Inr (chunk (unat (expected info)))" "unat (expected info) \<le> unat (highest info)"
    by simp_all
qed

lemma slot_ok_advance:
  assumes "slot_ok chunk w ex hi i e" "i \<noteq> ex mod w" "hi \<le> hi'"
  shows "slot_ok chunk w (Suc ex) hi' i e"
proof (cases "e_valid e")
  case True
  with assms(1) obtain s where s: "ex \<le> s" "s < ex + w" "s \<le> hi" "s mod w = i"
    "read_bytes (e_packet e) (e_packetLen e) = Inr (chunk s)" unfolding slot_ok_def by blast
  moreover have "ex \<noteq> s" using s(4) assms(2) by auto
  ultimately have "Suc ex \<le> s \<and> s < Suc ex + w \<and> s \<le> hi' \<and> s mod w = i \<and>
    read_bytes (e_packet e) (e_packetLen e) = Inr (chunk s)" using assms(3) by simp
  then show ?thesis unfolding slot_ok_def by blast
qed (simp add: slot_ok_def)

text \<open>Writing the expected chunk and stepping on keeps the core invariant.\<close>

lemma rcv_core_write:
  assumes core: "rcv_core chunk nxt info" and room: "unat (expected info) < nxt" "nxt < 2 ^ 32"
    and hi: "unat (highest info) \<le> unat hi" "unat hi < nxt"
    and buf: "length buf = length (buffer info)"
    and same: "\<And>i. i < length buf \<Longrightarrow> i \<noteq> unat (expected info) mod length buf \<Longrightarrow> buf ! i = buffer info ! i"
    and cleared: "\<not> e_valid (buf ! (unat (expected info) mod length buf))"
  shows "rcv_core chunk nxt (info\<lparr>outFile := outFile info @ chunk (unat (expected info)),
    buffer := buf, expected := expected info + 1, highest := hi\<rparr>)"
proof -
  have ex: "unat (expected info + 1) = Suc (unat (expected info))"
    using room unat_Suc_u32 [of "expected info"] by simp
  have "slot_ok chunk (length buf) (Suc (unat (expected info))) (unat hi) i (buf ! i)"
    if "i < length buf" for i
  proof (cases "i = unat (expected info) mod length buf")
    case True
    with cleared show ?thesis by (simp add: slot_ok_def)
  next
    case False
    with that same buf rcv_coreD(8) [OF core, of i] hi(1) show ?thesis
      by (auto intro!: slot_ok_advance)
  qed
  then show ?thesis using core room hi(2) buf ex by (simp add: rcv_core_def)
qed

lemma flush_loop_core:
  assumes "rcv_core chunk nxt info" "nxt < 2 ^ 32"
  shows "\<exists>info'. flush_loop info = Inr info' \<and> rcv_core chunk nxt info' \<and>
    unat (expected info) \<le> unat (expected info') \<and> highest info' = highest info \<and>
    rcv_windowSize info' = rcv_windowSize info \<and>
    (expected info' > highest info' \<or>
     \<not> e_valid (buffer info' ! (unat (expected info') mod length (buffer info'))))"
  using assms
proof (induction info rule: flush_loop.induct)
  case (1 info)
  note core = "1.prems"(1) and D = rcv_coreD [OF "1.prems"(1)]
  let ?i = "unat (expected info) mod length (buffer info)"
  let ?e = "buffer info ! ?i"
  have i: "?i < length (buffer info)" using D(1) by simp
  show ?case
  proof (cases "expected info \<le> highest info \<and> e_valid ?e")
    case False
    then show ?thesis using core D(3) i by (subst flush_loop.simps) auto
  next
    case True
    let ?next = "info\<lparr>outFile := outFile info @ chunk (unat (expected info)),
      buffer := (buffer info)[?i := ?e\<lparr>e_valid := False\<rparr>], expected := expected info + 1\<rparr>"
    have lt: "unat (expected info) < nxt" using True D(6) by (simp add: word_le_nat_alt)
    have "rcv_core chunk nxt ?next"
      using rcv_core_write [OF core lt "1.prems"(2) order_refl D(6),
          of "(buffer info)[?i := ?e\<lparr>e_valid := False\<rparr>]"] i by simp
    moreover have rd: "read_bytes (e_packet ?e) (e_packetLen ?e) = Inr (chunk (unat (expected info)))"
      using expected_slot(1) [OF core refl] True by simp
    ultimately obtain info' where "flush_loop ?next = Inr info'" "rcv_core chunk nxt info'"
      "unat (expected ?next) \<le> unat (expected info')" "highest info' = highest ?next"
      "rcv_windowSize info' = rcv_windowSize ?next"
      "expected info' > highest info' \<or>
        \<not> e_valid (buffer info' ! (unat (expected info') mod length (buffer info')))"
      using "1.IH" [of ?i ?e "chunk (unat (expected info))"] True D(3) i "1.prems"(2) by auto
    moreover have "unat (expected ?next) = unat (expected info) + 1"
      using lt "1.prems"(2) unat_Suc_u32 [of "expected info"] by simp
    moreover have "flush_loop info = flush_loop ?next"
      using True D(3) i rd by (subst flush_loop.simps) simp
    ultimately show ?thesis by auto
  qed
qed

text \<open>
  What an arriving data packet must satisfy for the invariant to survive it: its number was
  sent, lies below the end of the receive window, and unless it is a duplicate of something
  already written its payload is the chunk of that number.
\<close>

definition arrival_ok :: "(nat \<Rightarrow> byte list) \<Rightarrow> nat \<Rightarrow> ReceiveInfo \<Rightarrow> u32 \<Rightarrow> byte list \<Rightarrow> bool" where
  "arrival_ok chunk nxt info sq p \<longleftrightarrow> unat sq < nxt \<and>
     unat sq < unat (expected info) + length (buffer info) \<and> length p \<le> MAXBUF \<and>
     (expected info \<le> sq \<longrightarrow> p = chunk (unat sq))"

text \<open>
  An acknowledgement the client may send: RR with a number up to \<open>n\<close>, or SREJ with one that
  is also below \<open>nxt\<close>, that is, with the number of a packet that was sent.
\<close>

definition ack_pdu :: "cksum \<Rightarrow> nat \<Rightarrow> nat \<Rightarrow> byte list \<Rightarrow> bool" where
  "ack_pdu ck n nxt p \<longleftrightarrow> (\<exists>m. 1 \<le> unat m \<and> unat m \<le> n \<and>
     (p = pdu_of ck m 5 [] \<or> p = pdu_of ck m 6 [] \<and> unat m < nxt))"

lemma ack_pduI:
  "1 \<le> unat m \<Longrightarrow> unat m \<le> n \<Longrightarrow> ack_pdu ck n nxt (pdu_of ck m 5 [])"
  "1 \<le> unat m \<Longrightarrow> unat m \<le> n \<Longrightarrow> unat m < nxt \<Longrightarrow> ack_pdu ck n nxt (pdu_of ck m 6 [])"
  unfolding ack_pdu_def by blast+

lemma slot_ok_highest: "slot_ok chunk w ex hi i e \<Longrightarrow> hi \<le> hi' \<Longrightarrow> slot_ok chunk w ex hi' i e"
  unfolding slot_ok_def by fastforce

lemma buffer_packet_core:
  assumes core: "rcv_core chunk nxt info" and arr: "arrival_ok chunk nxt info sq p"
    and gt: "expected info < sq"
  shows "\<exists>buf. buffer_packet info sq p (int (length p)) = Inr (info\<lparr>buffer := buf\<rparr>) \<and>
    rcv_core chunk nxt (info\<lparr>buffer := buf, highest := max sq (highest info)\<rparr>) \<and>
    length buf = length (buffer info) \<and>
    buf ! (unat (expected info) mod length buf) = buffer info ! (unat (expected info) mod length buf)"
proof -
  let ?w = "length (buffer info)" and ?i = "unat sq mod length (buffer info)"
  let ?e = "buffer info ! ?i" and ?ex = "unat (expected info)"
  let ?hi = "unat (max sq (highest info))"
  note D = rcv_coreD [OF core]
  have i: "?i < ?w" using D(1) by simp
  have p: "p = chunk (unat sq)" "length p \<le> MAXBUF" "unat sq < nxt" "unat sq < ?ex + ?w"
    and lt: "?ex < unat sq"
    using arr gt by (auto simp: arrival_ok_def word_less_nat_alt word_le_nat_alt)
  have hi: "unat (highest info) \<le> ?hi" "unat sq \<le> ?hi" "?hi < nxt"
    using p(3) D(6) by (auto simp: max_def word_le_nat_alt)
  have slot_ne: "?i \<noteq> ?ex mod ?w" using lt p(4) residue_gap [of ?ex ?w "unat sq"] by auto
  show ?thesis
  proof (cases "e_valid ?e")
    case True
    have "buffer_packet info sq p (int (length p)) = Inr (info\<lparr>buffer := buffer info\<rparr>)"
      using True D(3) i by (simp add: buffer_packet_def)
    moreover have "rcv_core chunk nxt (info\<lparr>highest := max sq (highest info)\<rparr>)"
      using core hi(3) by (auto simp: rcv_core_def intro: slot_ok_highest [OF _ hi(1)])
    ultimately show ?thesis by (intro exI [of _ "buffer info"]) simp
  next
    case False
    let ?pk = "p @ drop (length p) (e_packet ?e)"
    let ?new = "?e\<lparr>e_packet := ?pk, e_packetLen := int (length p), e_valid := True\<rparr>"
    let ?buf = "(buffer info)[?i := ?new]"
    have "buffer_packet info sq p (int (length p)) = Inr (info\<lparr>buffer := ?buf\<rparr>)"
      using False D(3) i p(2) by (simp add: buffer_packet_def memcpy_at_def)
    moreover have "slot_ok chunk ?w ?ex ?hi ?i ?new"
      unfolding slot_ok_def using p lt hi(2)
      by (intro impI exI [of _ "unat sq"]) (simp add: read_bytes_def)
    then have "rcv_core chunk nxt (info\<lparr>buffer := ?buf, highest := max sq (highest info)\<rparr>)"
      using core hi(3) by (auto simp: rcv_core_def nth_list_update intro: slot_ok_highest [OF _ hi(1)])
    ultimately show ?thesis using slot_ne by (intro exI [of _ ?buf]) simp
  qed
qed

lemma rcv_inv_expected_slot:
  assumes "rcv_inv chunk nxt state info" "state \<noteq> FLUSH"
  shows "\<not> e_valid (buffer info ! (unat (expected info) mod length (buffer info)))"
proof
  assume v: "e_valid (buffer info ! (unat (expected info) mod length (buffer info)))"
  have core: "rcv_core chunk nxt info" using assms(1) by (simp add: rcv_inv_def)
  from expected_slot(2) [OF core refl v] have "expected info \<le> highest info"
    by (simp add: word_le_nat_alt)
  then show False using assms v by (cases state) (auto simp: rcv_inv_def)
qed

text \<open>The expected packet itself: the chunk is written and the number advances.\<close>

lemma write_expected:
  assumes inv: "rcv_inv chunk nxt state info" "state \<noteq> FLUSH" and nxt: "nxt < 2 ^ 32"
    and arr: "arrival_ok chunk nxt info (expected info) p"
    and hi: "unat (highest info) \<le> unat hi" "unat hi < nxt"
  shows "rcv_core chunk nxt (info\<lparr>outFile := outFile info @ p, expected := expected info + 1,
      highest := hi\<rparr>)" "unat (expected info + 1) = Suc (unat (expected info))"
proof -
  have core: "rcv_core chunk nxt info" using inv(1) by (simp add: rcv_inv_def)
  have p: "p = chunk (unat (expected info))" "unat (expected info) < nxt"
    using arr by (auto simp: arrival_ok_def)
  have "rcv_core chunk nxt (info\<lparr>outFile := outFile info @ chunk (unat (expected info)),
      buffer := buffer info, expected := expected info + 1, highest := hi\<rparr>)"
    using rcv_inv_expected_slot [OF inv] by (intro rcv_core_write [OF core p(2) nxt hi]) auto
  then show "rcv_core chunk nxt (info\<lparr>outFile := outFile info @ p, expected := expected info + 1,
      highest := hi\<rparr>)" using p(1) by simp
  show "unat (expected info + 1) = Suc (unat (expected info))"
    using unat_Suc_u32 [of "expected info"] p(2) nxt by simp
qed

text \<open>The result of one data packet: no fault, the invariant, honest acknowledgements.\<close>

definition good_step ::
    "cksum \<Rightarrow> (nat \<Rightarrow> byte list) \<Rightarrow> nat \<Rightarrow> ReceiveInfo \<Rightarrow>
     (TRANSFER_STATE \<times> ReceiveInfo \<times> byte list list) res \<Rightarrow> bool" where
  "good_step ck chunk nxt info r \<longleftrightarrow>
     (\<exists>state' info' pdus. r = Inr (state', info', pdus) \<and> rcv_inv chunk nxt state' info' \<and>
        expected info \<le> expected info' \<and> rcv_windowSize info' = rcv_windowSize info \<and>
        (\<forall>p \<in> set pdus. ack_pdu ck (unat (expected info')) nxt p))"

lemma raise_highest:
  "(if highest i < sq then i\<lparr>highest := sq\<rparr> else i) = i\<lparr>highest := max sq (highest i)\<rparr>"
  by (simp add: max_def not_le)

lemma data_packet_in_order:
  assumes inv: "rcv_inv chunk nxt IN_ORDER info" and nxt: "nxt < 2 ^ 32"
    and arr: "arrival_ok chunk nxt info sq p"
  shows "good_step ck chunk nxt info (data_packet ck IN_ORDER info sq p (int (length p)))"
proof -
  have core: "rcv_core chunk nxt info" and hi: "highest info < expected info"
    using inv by (simp_all add: rcv_inv_def)
  note D = rcv_coreD [OF core]
  consider "sq = expected info" | "expected info < sq" | "sq < expected info" by fastforce
  then show ?thesis
  proof cases
    case 1
    let ?info = "info\<lparr>outFile := outFile info @ p, expected := expected info + 1, highest := sq\<rparr>"
    have w: "rcv_core chunk nxt ?info" "unat (expected info + 1) = Suc (unat (expected info))"
      using write_expected [OF inv _ nxt, of p sq] arr 1 hi
      by (auto simp: arrival_ok_def word_less_nat_alt)
    then have "expected info \<le> expected info + 1" "sq < expected info + 1"
      using 1 by (simp_all add: word_le_nat_alt word_less_nat_alt)
    with w 1 show ?thesis
      by (auto simp: good_step_def data_packet_def Let_def rcv_inv_def intro!: ack_pduI)
  next
    case 2
    from buffer_packet_core [OF core arr 2] obtain buf where
      "buffer_packet info sq p (int (length p)) = Inr (info\<lparr>buffer := buf\<rparr>)"
      "rcv_core chunk nxt (info\<lparr>buffer := buf, highest := max sq (highest info)\<rparr>)"
      "\<not> e_valid (buf ! (unat (expected info) mod length buf))"
      using rcv_inv_expected_slot [OF inv] by auto
    moreover have "unat (expected info) < nxt"
      using 2 arr by (auto simp: arrival_ok_def word_less_nat_alt)
    ultimately show ?thesis using 2 D(4)
      by (auto simp: good_step_def data_packet_def Let_def rcv_inv_def raise_highest intro!: ack_pduI)
  next
    case 3
    then show ?thesis using inv by (auto simp: good_step_def data_packet_def)
  qed
qed

lemma data_packet_out_of_order:
  assumes inv: "rcv_inv chunk nxt OUT_OF_ORDER info" and nxt: "nxt < 2 ^ 32"
    and arr: "arrival_ok chunk nxt info sq p"
  shows "good_step ck chunk nxt info (data_packet ck OUT_OF_ORDER info sq p (int (length p)))"
proof -
  have core: "rcv_core chunk nxt info" using inv by (simp add: rcv_inv_def)
  note D = rcv_coreD [OF core]
  consider "sq = expected info" | "expected info < sq" | "sq < expected info" by fastforce
  then show ?thesis
  proof cases
    case 1
    have w: "rcv_core chunk nxt (info\<lparr>outFile := outFile info @ p, expected := expected info + 1\<rparr>)"
      "unat (expected info + 1) = Suc (unat (expected info))"
      using write_expected [OF inv _ nxt, of p "highest info"] arr 1 D(6) by auto
    then have "expected info \<le> expected info + 1" by (simp add: word_le_nat_alt)
    with w 1 show ?thesis
      by (auto simp: good_step_def data_packet_def Let_def rcv_inv_def intro!: ack_pduI)
  next
    case 2
    from buffer_packet_core [OF core arr 2] obtain buf where
      "buffer_packet info sq p (int (length p)) = Inr (info\<lparr>buffer := buf\<rparr>)"
      "rcv_core chunk nxt (info\<lparr>buffer := buf, highest := max sq (highest info)\<rparr>)"
      "\<not> e_valid (buf ! (unat (expected info) mod length buf))"
      using rcv_inv_expected_slot [OF inv] by auto
    then show ?thesis using 2
      by (auto simp: good_step_def data_packet_def Let_def rcv_inv_def raise_highest)
  next
    case 3
    then show ?thesis using inv by (auto simp: good_step_def data_packet_def)
  qed
qed

text \<open>In state \<open>FLUSH\<close> the arriving packet plays no part at all.\<close>

lemma data_packet_flush:
  assumes inv: "rcv_core chunk nxt info" and nxt: "nxt < 2 ^ 32"
  shows "good_step ck chunk nxt info (data_packet ck FLUSH info sq p n)"
proof -
  from flush_loop_core [OF inv nxt] obtain info' where
    f: "flush_loop info = Inr info'" "rcv_core chunk nxt info'"
      "unat (expected info) \<le> unat (expected info')" "highest info' = highest info"
      "rcv_windowSize info' = rcv_windowSize info"
      "expected info' > highest info' \<or>
         \<not> e_valid (buffer info' ! (unat (expected info') mod length (buffer info')))" by blast
  note D = rcv_coreD [OF f(2)]
  have le: "expected info \<le> expected info'" using f(3) by (simp add: word_le_nat_alt)
  show ?thesis
  proof (cases "expected info' \<le> highest info'")
    case True
    then have "data_packet ck FLUSH info sq p n =
        Inr (OUT_OF_ORDER, info', [pdu_of ck (expected info') 6 []])"
      using f(1,6) D(1,3) by (auto simp: data_packet_def)
    moreover have "unat (expected info') < nxt"
      using True D(6) by (simp add: word_le_nat_alt)
    ultimately show ?thesis using f le True D(4)
      by (auto simp: good_step_def rcv_inv_def intro!: ack_pduI)
  next
    case False
    then have "data_packet ck FLUSH info sq p n =
        Inr (IN_ORDER, info', [pdu_of ck (expected info') 5 []])"
      using f(1) by (simp add: data_packet_def)
    then show ?thesis using f le False D(4)
      by (auto simp: good_step_def rcv_inv_def intro!: ack_pduI)
  qed
qed

lemma data_packet_good:
  assumes "rcv_inv chunk nxt state info" "nxt < 2 ^ 32" "arrival_ok chunk nxt info sq p"
  shows "good_step ck chunk nxt info (data_packet ck state info sq p (int (length p)))"
proof (cases state)
  case IN_ORDER
  then show ?thesis using assms by (auto intro: data_packet_in_order)
next
  case OUT_OF_ORDER
  then show ?thesis using assms by (auto intro: data_packet_out_of_order)
next
  case FLUSH
  then show ?thesis using assms by (auto simp: rcv_inv_def intro: data_packet_flush)
qed

subsection \<open>One received datagram\<close>

lemma payload_of_rbuf:
  "7 \<le> length d \<Longrightarrow> payload_of (rbuf_of d jk) (int (length d) - 7) = drop 7 d"
  by (rule nth_equalityI) (auto simp: payload_of_def rbuf_of_def)

lemma payload_of_pdu [simp]:
  "payload_of (rbuf_of (pdu_of ck m fl p) jk) (int (length p)) = p"
  using payload_of_rbuf [of "pdu_of ck m fl p" jk] by simp

lemma rcv_core_frame [simp]:
  "rcv_core chunk nxt (info\<lparr>serverAddr := a\<rparr>) = rcv_core chunk nxt info"
  "rcv_core chunk nxt (info\<lparr>rcv_eofSeq := m\<rparr>) = rcv_core chunk nxt info"
  "rcv_core chunk nxt (info\<lparr>outFile_open := v\<rparr>) = rcv_core chunk nxt info"
  by (simp_all add: rcv_core_def)

lemma rcv_inv_frame [simp]:
  "rcv_inv chunk nxt st (info\<lparr>serverAddr := a\<rparr>) = rcv_inv chunk nxt st info"
  by (cases st) (simp_all add: rcv_inv_def)

lemma slot_ok_mono:
  "rcv_core chunk nxt info \<Longrightarrow> nxt \<le> nxt' \<Longrightarrow> rcv_core chunk nxt' info"
  by (auto simp: rcv_core_def)

lemma rcv_inv_mono: "rcv_inv chunk nxt st info \<Longrightarrow> nxt \<le> nxt' \<Longrightarrow> rcv_inv chunk nxt' st info"
  by (auto simp: rcv_inv_def intro: slot_ok_mono)

lemma transfer_packet_data:
  assumes inv: "rcv_inv chunk nxt st info" "nxt < 2 ^ 32" and fl: "fl = 16 \<or> fl = 17 \<or> fl = 18"
    and arr: "arrival_ok chunk nxt info m p"
  obtains st' info' pdus where
    "transfer_packet ck st info (rbuf_of (pdu_of ck m fl p) jk) (int (length (pdu_of ck m fl p)))
       = Inr (More st' info' pdus)"
    "rcv_inv chunk nxt st' info'" "expected info \<le> expected info'"
    "rcv_windowSize info' = rcv_windowSize info"
    "\<forall>q \<in> set pdus. ack_pdu ck (unat (expected info')) nxt q"
proof -
  from data_packet_good [OF inv arr, of ck] obtain st' info' pdus where
    g: "data_packet ck st info m p (int (length p)) = Inr (st', info', pdus)"
    "rcv_inv chunk nxt st' info'" "expected info \<le> expected info'"
    "rcv_windowSize info' = rcv_windowSize info"
    "\<forall>q \<in> set pdus. ack_pdu ck (unat (expected info')) nxt q"
    unfolding good_step_def by blast
  from fl have "fl \<noteq> 10" by auto
  with g(1) fl have "transfer_packet ck st info (rbuf_of (pdu_of ck m fl p) jk)
      (int (length (pdu_of ck m fl p))) = Inr (More st' info' pdus)"
    by (simp add: transfer_packet_def Let_def)
  with g(2-) that show thesis by blast
qed

lemma flush_loop_frame:
  "flush_loop info = Inr info' \<Longrightarrow> rcv_eofSeq info' = rcv_eofSeq info \<and> outFile_open info' = outFile_open info"
proof (induction info rule: flush_loop.induct)
  case (1 info)
  show ?case
  proof (cases "info' = info")
    case False
    with "1.prems" obtain i e p where "expected info \<le> highest info"
      "umod (expected info) (rcv_windowSize info) = Inr i" "arr_get (buffer info) i = Inr e" "e_valid e"
      "read_bytes (e_packet e) (e_packetLen e) = Inr p"
      "flush_loop (info\<lparr>outFile := outFile info @ p, buffer := (buffer info)[i := e\<lparr>e_valid := False\<rparr>],
         expected := expected info + 1\<rparr>) = Inr info'"
      by (subst (asm) flush_loop.simps) (auto simp: rbind_eq_Inr split: if_splits)
    from "1.IH" [OF this] show ?thesis by simp
  qed simp
qed

lemma transfer_packet_eof:
  assumes core: "rcv_core chunk nxt info" and nxt: "nxt < 2 ^ 32"
  obtains info' where
    "transfer_packet ck st info (rbuf_of (pdu_of ck m 10 p) jk) n = Inr (Finished info' [pdu_of ck m 35 []])"
    "rcv_core chunk nxt info'" "expected info \<le> expected info'" "rcv_eofSeq info' = m"
    "rcv_windowSize info' = rcv_windowSize info" "\<not> outFile_open info'"
proof -
  obtain info1 where f: "flush_loop (info\<lparr>rcv_eofSeq := m\<rparr>) = Inr info1" "rcv_core chunk nxt info1"
    "unat (expected info) \<le> unat (expected info1)" "rcv_windowSize info1 = rcv_windowSize info"
    using flush_loop_core [of chunk nxt "info\<lparr>rcv_eofSeq := m\<rparr>"] core nxt by auto
  then have "transfer_packet ck st info (rbuf_of (pdu_of ck m 10 p) jk) n =
      Inr (Finished (info1\<lparr>outFile_open := False\<rparr>) [pdu_of ck m 35 []])"
    by (simp add: transfer_packet_def Let_def send_eof_ack_def)
  with f flush_loop_frame [OF f(1)] that show thesis by (auto simp: word_le_nat_alt)
qed

subsection \<open>The receive loop\<close>

lemma loop_in_order:
  assumes "is_open w (socketNum info)" "schedule w = Arrive (pdu_of ck m fl p) a # es"
    and "m = expected info" "fl = 16 \<or> fl = 17 \<or> fl = 18" "length p \<le> MAXBUF"
  shows "process_transfer_loop ck IN_ORDER info w =
    process_transfer_loop ck IN_ORDER
      (info\<lparr>serverAddr := a, outFile := outFile info @ p, expected := m + 1, highest := m\<rparr>)
      (w\<lparr>schedule := es, sent := sent w @ [(socketNum info, pdu_of ck (m + 1) 5 [], a)]\<rparr>)"
proof -
  have "fl \<noteq> 10" using assms(4) by auto
  then have "transfer_packet ck IN_ORDER (info\<lparr>serverAddr := a\<rparr>)
      (rbuf_of (pdu_of ck m fl p) jk) (7 + int (length p)) =
    Inr (More IN_ORDER (info\<lparr>serverAddr := a, outFile := outFile info @ p, expected := m + 1, highest := m\<rparr>)
      [pdu_of ck (m + 1) 5 []])" for jk
    using assms(3,4) by (simp add: transfer_packet_def data_packet_def Let_def)
  then show ?thesis using assms safeRecvfrom_arrive [OF assms(1,2), of "MAXBUF + 7"]
    by (subst process_transfer_loop.simps) (simp add: sendtoErr_def)
qed

lemma flush_loop_idle: "highest info < expected info \<Longrightarrow> flush_loop info = Inr info"
  by (subst flush_loop.simps) (metis not_le)

lemma loop_eof:
  assumes "is_open w (socketNum info)" "schedule w = Arrive (pdu_of ck m 10 []) a # es"
    and "highest info < expected info"
  shows "process_transfer_loop ck IN_ORDER info w =
    (Inr (info\<lparr>serverAddr := a, rcv_eofSeq := m, outFile_open := False\<rparr>),
     w\<lparr>schedule := es, sent := sent w @ [(socketNum info, pdu_of ck m 35 [], a)],
       open_fds := filter (\<lambda>i. int i \<noteq> socketNum info) (filter (\<lambda>i. int i \<noteq> outFile_fd info) (open_fds w))\<rparr>)"
proof -
  have "transfer_packet ck IN_ORDER (info\<lparr>serverAddr := a\<rparr>) (rbuf_of (pdu_of ck m 10 []) jk) 7 =
    Inr (Finished (info\<lparr>serverAddr := a, rcv_eofSeq := m, outFile_open := False\<rparr>) [pdu_of ck m 35 []])" for jk
    using assms(3) by (simp add: transfer_packet_def send_eof_ack_def Let_def flush_loop_idle)
  then show ?thesis using assms safeRecvfrom_arrive [OF assms(1,2), of "MAXBUF + 7"]
    by (subst process_transfer_loop.simps) (simp add: sendtoErr_def close_fd_def)
qed

lemma process_in_order:
  assumes "k \<le> n" "n < 2 ^ 32" "\<And>s. length (chunk s) \<le> MAXBUF"
    and "is_open w (socketNum info)"
    and "schedule w = map (\<lambda>d. Arrive d a) (data_run ck chunk k n) @ es"
    and "expected info = word_of_nat k" "highest info < expected info" "1 \<le> k"
  shows "\<exists>info' w'. process_transfer_loop ck IN_ORDER info w = (Inr info', w') \<and>
    outFile info' = outFile info @ concat (map chunk [k..<n]) \<and> rcv_eofSeq info' = word_of_nat n \<and>
    \<not> outFile_open info' \<and>
    sent w' = sent w @ map (\<lambda>d. (socketNum info, d, a)) (rr_run ck k n) \<and> schedule w' = es \<and>
    open_fds w' = filter (\<lambda>i. int i \<noteq> outFile_fd info \<and> int i \<noteq> socketNum info) (open_fds w)"
  using assms(1,4-8)
proof (induction "n - k" arbitrary: k info w)
  case 0
  then have k: "k = n" by simp
  show ?case
    using loop_eof [of w info ck "word_of_nat n" a es] 0 k
    by (simp add: run_rec filter_filter)
next
  case (Suc j)
  then have lt: "k < n" by simp
  let ?m = "word_of_nat k :: u32"
  have m: "unat ?m = k" "unat (?m + 1) = Suc k"
  proof -
    show "unat ?m = k" using lt assms(2) by (simp add: unat_of_nat take_bit_nat_eq_self)
    then show "unat (?m + 1) = Suc k" using lt assms(2) unat_Suc_u32 [of ?m] by simp
  qed
  let ?info = "info\<lparr>serverAddr := a, outFile := outFile info @ chunk k, expected := ?m + 1, highest := ?m\<rparr>"
  let ?es = "map (\<lambda>d. Arrive d a) (data_run ck chunk (Suc k) n) @ es"
  let ?w = "w\<lparr>schedule := ?es, sent := sent w @ [(socketNum info, pdu_of ck (?m + 1) 5 [], a)]\<rparr>"
  have step: "process_transfer_loop ck IN_ORDER info w = process_transfer_loop ck IN_ORDER ?info ?w"
    using Suc.prems lt assms(3) by (intro loop_in_order) (auto simp: run_rec)
  have w1: "?m + 1 = word_of_nat (Suc k)" by simp
  have "\<exists>info' w'. process_transfer_loop ck IN_ORDER ?info ?w = (Inr info', w') \<and>
    outFile info' = outFile ?info @ concat (map chunk [Suc k..<n]) \<and> rcv_eofSeq info' = word_of_nat n \<and>
    \<not> outFile_open info' \<and>
    sent w' = sent ?w @ map (\<lambda>d. (socketNum ?info, d, a)) (rr_run ck (Suc k) n) \<and> schedule w' = es \<and>
    open_fds w' = filter (\<lambda>i. int i \<noteq> outFile_fd ?info \<and> int i \<noteq> socketNum ?info) (open_fds ?w)"
  proof (rule Suc.hyps(1))
    show "highest ?info < expected ?info" using m by (simp add: word_less_nat_alt)
    show "is_open ?w (socketNum ?info)" using Suc.prems by (simp add: is_open_def)
  qed (use Suc.hyps(2) lt w1 in auto)
  then show ?case using step lt w1 by (simp add: run_rec upt_conv_Cons)
qed

text \<open>The whole of an in-order transfer.\<close>

lemma process_transfer_in_order:
  assumes "0 < b" "b \<le> MAXBUF" "length f \<le> n * b" "n + 1 < 2 ^ 32"
    and "is_open w sock"
    and "schedule w = map (\<lambda>d. Arrive d a) (data_run ck (file_chunk b f) 1 (n + 1)) @ es"
  shows "\<exists>info' w'. process_transfer_state ck (fresh_receiver wsize sock peer\<lparr>outFile_fd := strm\<rparr>) w = (Inr info', w') \<and>
    outFile info' = f \<and> rcv_eofSeq info' = word_of_nat (n + 1) \<and> \<not> outFile_open info' \<and>
    sent w' = sent w @ map (\<lambda>d. (sock, d, a)) (rr_run ck 1 (n + 1)) \<and> schedule w' = es \<and>
    open_fds w' = filter (\<lambda>i. int i \<noteq> strm \<and> int i \<noteq> sock) (open_fds w)"
proof -
  let ?info = "fresh_receiver wsize sock peer\<lparr>outFile_fd := strm\<rparr>"
  have len: "length (file_chunk b f s) \<le> MAXBUF" for s
    using length_file_chunk [of b f s] assms(2) by simp
  have "concat (map (file_chunk b f) [1..<n + 1]) = f"
    using concat_file_chunks [of b f n] assms(3) by simp
  moreover have "is_open w (socketNum ?info)" "expected ?info = word_of_nat 1"
    "highest ?info < expected ?info"
    using assms(5) by (simp_all add: fresh_receiver_def)
  note process_in_order [OF _ assms(4) len this(1) assms(6) this(2,3)]
  ultimately show ?thesis
    by (simp add: process_transfer_state_def fresh_receiver_def del: upt_Suc of_nat_Suc)
qed

text \<open>How the loop ends.\<close>

lemma buffer_packet_frame:
  "buffer_packet info sq d n = Inr info' \<Longrightarrow> socketNum info' = socketNum info"
  by (auto simp: buffer_packet_def res_eqs split: if_splits)

lemma flush_loop_socket:
  "flush_loop info = Inr info' \<Longrightarrow> socketNum info' = socketNum info \<and> serverAddr info' = serverAddr info"
proof (induction info rule: flush_loop.induct)
  case (1 info)
  show ?case
  proof (cases "info' = info")
    case False
    with "1.prems" obtain i e p where "expected info \<le> highest info"
      "umod (expected info) (rcv_windowSize info) = Inr i" "arr_get (buffer info) i = Inr e" "e_valid e"
      "read_bytes (e_packet e) (e_packetLen e) = Inr p"
      "flush_loop (info\<lparr>outFile := outFile info @ p, buffer := (buffer info)[i := e\<lparr>e_valid := False\<rparr>],
         expected := expected info + 1\<rparr>) = Inr info'"
      by (subst (asm) flush_loop.simps) (auto simp: rbind_eq_Inr split: if_splits)
    from "1.IH" [OF this] show ?thesis by simp
  qed simp
qed

lemma data_packet_socket:
  "data_packet ck st info sq p n = Inr (st', info', pdus) \<Longrightarrow> socketNum info' = socketNum info"
  by (cases st)
     (auto simp: data_packet_def Let_def rbind_eq_Inr split: if_splits
       dest!: buffer_packet_frame flush_loop_socket)

lemma transfer_packet_more:
  "transfer_packet ck st info b n = Inr (More st' info' pdus) \<Longrightarrow> socketNum info' = socketNum info"
  by (auto simp: transfer_packet_def Let_def rbind_eq_Inr split: if_splits prod.splits
      dest!: data_packet_socket)

lemma transfer_packet_finished:
  assumes "transfer_packet ck st info b n = Inr (Finished info' pdus)"
  shows "socketNum info' = socketNum info" "\<not> outFile_open info'" "serverAddr info' = serverAddr info"
    "hdr_flag b = 10" "rcv_eofSeq info' = hdr_seq b" "pdus = [pdu_of ck (hdr_seq b) 35 []]"
proof -
  from assms obtain info1 where f: "flush_loop (info\<lparr>rcv_eofSeq := hdr_seq b\<rparr>) = Inr info1"
    "info' = info1\<lparr>outFile_open := False\<rparr>" "hdr_flag b = 10" "pdus = [pdu_of ck (hdr_seq b) 35 []]"
    by (auto simp: transfer_packet_def Let_def send_eof_ack_def rbind_eq_Inr split: if_splits prod.splits)
  show "socketNum info' = socketNum info" "\<not> outFile_open info'" "serverAddr info' = serverAddr info"
    "hdr_flag b = 10" "rcv_eofSeq info' = hdr_seq b" "pdus = [pdu_of ck (hdr_seq b) 35 []]"
    using flush_loop_socket [OF f(1)] flush_loop_frame [OF f(1)] f(2-4)
    by simp_all
qed

lemma loop_ends:
  "process_transfer_loop ck st info w = (Inr info', w') \<Longrightarrow>
   socketNum info' = socketNum info \<and> \<not> outFile_open info' \<and> \<not> is_open w' (socketNum info) \<and>
   (\<exists>pre. sent w' = pre @ [(socketNum info, pdu_of ck (rcv_eofSeq info') 35 [], serverAddr info')])"
proof (induction ck st info w rule: process_transfer_loop.induct)
  case (1 ck st info w)
  from "1.prems" obtain b n src w1 t where
    rc: "safeRecvfrom (socketNum info) (MAXBUF + 7) w = (Inr (b, n, src), w1)"
    and t: "transfer_packet ck st (info\<lparr>serverAddr := src\<rparr>) b n = Inr t"
    and k: "(case t of
        Finished info1 pdus \<Rightarrow>
          bnd (send_all (socketNum info1) pdus (serverAddr info1)) (\<lambda>_.
          bnd (close_fd (outFile_fd info1)) (\<lambda>_.
          bnd (close_fd (socketNum info1)) (\<lambda>_. ret info1))) w1
      | More state1 info1 pdus \<Rightarrow>
          bnd (send_all (socketNum info1) pdus (serverAddr info1)) (\<lambda>_ w3.
            process_transfer_loop ck state1 info1 w3) w1) = (Inr info', w')"
    by (subst (asm) process_transfer_loop.simps) (auto simp: bnd_eq_Inr to_stop_eq_Inr)
  show ?case
  proof (cases t)
    case (Finished info1 pdus)
    note f = transfer_packet_finished [OF t [unfolded Finished]]
    from k Finished f show ?thesis by (auto simp: bnd_eq_Inr sendtoErr_def close_fd_def is_open_def)
  next
    case (More st1 info1 pdus)
    with k obtain w3 where s: "send_all (socketNum info1) pdus (serverAddr info1) w1 = (Inr (), w3)"
      and d: "process_transfer_loop ck st1 info1 w3 = (Inr info', w')"
      by (auto simp: bnd_eq_Inr)
    have "lift (to_stop (transfer_packet ck st (info\<lparr>serverAddr := src\<rparr>) b n)) w1 = (Inr t, w1)"
      using t by simp
    from "1.IH" [OF rc refl refl this More s d] transfer_packet_more [OF t [unfolded More]]
    show ?thesis by simp
  qed
qed

subsection \<open>Properties\<close>

text \<open>
  Over a network that delivers in order, \<open>process_transfer_state\<close> on a fresh receiver
  writes exactly the server's file, acknowledges every packet with the next number and the
  end with flag 35, closes stream and socket, and leaves the rest of the schedule alone.
\<close>

lemma in_order_transfer:
  assumes "0 < b" "b \<le> MAXBUF" "length f \<le> n * b" "n + 1 < 2 ^ 32"
    and "is_open w sock"
    and "schedule w = map (\<lambda>d. Arrive d a) (data_run ck (file_chunk b f) 1 (n + 1)) @ es"
  shows "\<exists>info' w'. process_transfer_state ck (fresh_receiver wsize sock peer) w = (Inr info', w') \<and>
    outFile info' = f \<and> rcv_eofSeq info' = word_of_nat (n + 1) \<and> \<not> outFile_open info' \<and>
    sent w' = sent w @ map (\<lambda>d. (sock, d, a)) (rr_run ck 1 (n + 1)) \<and> schedule w' = es \<and>
    \<not> is_open w' sock"
proof -
  have "fresh_receiver wsize sock peer = fresh_receiver wsize sock peer\<lparr>outFile_fd := -1\<rparr>"
    by (simp add: fresh_receiver_def)
  with process_transfer_in_order [OF assms, where strm = "-1" and wsize = wsize and peer = peer] show ?thesis by (auto simp: is_open_def)
qed

text \<open>
  One data packet that belongs to the file (its number at most a window ahead, its
  payload the chunk of that number unless it is old) is handled without a fault in every
  state of the mini state machine; it keeps the receiver's invariant, never lowers
  \<open>expected\<close>, and every RR or SREJ it causes names a number between 1 and \<open>expected\<close>.
\<close>

lemma data_packet_keeps_invariant:
  assumes "rcv_inv chunk nxt state info" "nxt < 2 ^ 32" "arrival_ok chunk nxt info sq p"
  shows "\<exists>state' info' pdus. data_packet ck state info sq p (int (length p)) = Inr (state', info', pdus) \<and>
    rcv_inv chunk nxt state' info' \<and> expected info \<le> expected info' \<and>
    (\<forall>q \<in> set pdus. ack_pdu ck (unat (expected info')) nxt q)"
  using data_packet_good [OF assms, of ck] unfolding good_step_def by blast

text \<open>
  C20: \<open>process_transfer_state\<close> returns only after an EOF packet: the last thing it sends is
  the EOF acknowledgement for the number it recorded, and stream and socket are closed.
\<close>

theorem returns_after_eof_ack:
  assumes "process_transfer_state ck info w = (Inr info', w')"
  shows "\<exists>pre. sent w' = pre @ [(socketNum info, pdu_of ck (rcv_eofSeq info') 35 [], serverAddr info')]
    \<and> \<not> outFile_open info' \<and> \<not> is_open w' (socketNum info)"
  using loop_ends [OF assms [unfolded process_transfer_state_def]] by blast

theorem returns_after_eof_ack_witness:
  "\<exists>info' w' pre. process_transfer_state (\<lambda>_. 0) (fresh_receiver 4 2 0)
       (start_world [Arrive (pdu_of (\<lambda>_. 0) 1 10 []) 9]) = (Inr info', w') \<and>
     sent w' = pre @ [(2, pdu_of (\<lambda>_. 0) (rcv_eofSeq info') 35 [], serverAddr info')]"
proof -
  have "\<exists>info' w'. process_transfer_state (\<lambda>_. 0) (fresh_receiver 4 2 0)
       (start_world [Arrive (pdu_of (\<lambda>_. 0) 1 10 []) 9]) = (Inr info', w')"
    unfolding process_transfer_state_def
    by (subst loop_eof) (auto simp: start_world_def is_open_def fresh_receiver_def)
  then obtain info' w' where r: "process_transfer_state (\<lambda>_. 0) (fresh_receiver 4 2 0)
       (start_world [Arrive (pdu_of (\<lambda>_. 0) 1 10 []) 9]) = (Inr info', w')" by blast
  from returns_after_eof_ack [OF r] r show ?thesis by (auto simp: fresh_receiver_def)
qed

text \<open>
  The client never looks at the checksum: two datagrams that differ only in the two
  checksum bytes have the same effect, so a packet altered in transit is written like any
  other.
\<close>

lemma checksum_ignored:
  assumes "\<And>i. i \<noteq> 4 \<Longrightarrow> i \<noteq> 5 \<Longrightarrow> b i = b' i"
  shows "transfer_packet ck st info b n = transfer_packet ck st info b' n"
proof -
  have "hdr_seq b = hdr_seq b'" "hdr_flag b = hdr_flag b'" "payload_of b m = payload_of b' m" for m
    using assms by (simp_all add: hdr_seq_def hdr_flag_def payload_of_def)
  then show ?thesis by (simp add: transfer_packet_def)
qed

text \<open>
  In state \<open>FLUSH\<close> an arriving packet is never written, not even the one the client is
  waiting for: with no buffered packet to write, the file and \<open>expected\<close> stay as they are
  and the client asks again for the packet it has just thrown away, or acknowledges up to it.
\<close>

lemma flush_drops_expected:
  assumes "rcv_core chunk nxt info"
    and "expected info \<le> highest info \<longrightarrow>
      \<not> e_valid (buffer info ! (unat (expected info) mod length (buffer info)))"
  shows "data_packet ck FLUSH info (expected info) p n =
    (if expected info \<le> highest info then Inr (OUT_OF_ORDER, info, [pdu_of ck (expected info) 6 []])
     else Inr (IN_ORDER, info, [pdu_of ck (expected info) 5 []]))"
proof -
  note D = rcv_coreD [OF assms(1)]
  have "flush_loop info = Inr info" using assms(2) D(1,3) by (subst flush_loop.simps) auto
  then show ?thesis using assms(2) D(1,3) by (simp add: data_packet_def)
qed

text \<open>
  A packet below \<open>expected\<close> (a retransmission whose acknowledgement was lost) is
  dropped in silence in the states \<open>IN_ORDER\<close> and \<open>OUT_OF_ORDER\<close>: nothing changes and no
  RR is repeated, so a lost RR is not recovered by the server's timeout.
\<close>

lemma old_packet_silent:
  assumes "state \<noteq> FLUSH" "hdr_seq b < expected info" "hdr_flag b \<noteq> 10"
  shows "transfer_packet ck state info b n = Inr (More state info [])"
proof -
  have "\<not> expected info < hdr_seq b" "hdr_seq b \<noteq> expected info" using assms(2) by auto
  then have "data_packet ck state info (hdr_seq b) p m = Inr (state, info, [])" for p m
    using assms(1) by (cases state) (auto simp: data_packet_def)
  then show ?thesis using assms(3) by (simp add: transfer_packet_def Let_def)
qed

end
