(* ===== verification/Protocol.thy ===== *)
theory Protocol
  imports Sender Receiver
begin

text \<open>
  The file transfer as a whole: the server's turns (\<open>send_chunk\<close>, \<open>handle_ack\<close>,
  \<open>resend_oldest\<close>, the EOF packet) and the client's (\<open>transfer_packet\<close>) as one step relation
  over a network that loses, duplicates and reorders datagrams but does not alter them.  The
  invariant \<open>proto_inv\<close> ties both ends together; its consequences are that the client's file
  is always a prefix of the server's file, and the whole of it when the client stops at the
  number the EOF packet carries.
\<close>

subsection \<open>The step relation\<close>

text \<open>
  \<open>to_client\<close> and \<open>to_server\<close> keep every datagram ever sent in that direction; delivering
  one does not remove it, so that loss, duplication and reordering are runs of the relation.
\<close>

record proto =
  win :: CircularQueue
  next_seq :: u32
  unread :: "byte list"
  ended :: bool
  to_client :: "byte list list"
  to_server :: "byte list list"
  rinfo :: ReceiveInfo
  rstate :: TRANSFER_STATE
  finished :: bool

inductive proto_step :: "cksum \<Rightarrow> u16 \<Rightarrow> proto \<Rightarrow> proto \<Rightarrow> bool" for ck :: cksum and b :: u16 where
  fill: "\<not> ended s \<Longrightarrow> \<not> CircularQueue_is_full (win s) \<Longrightarrow>
    send_chunk ck True (win s) (next_seq s) b (unread s) = Inr (Some (q, sq, rest, pdu)) \<Longrightarrow>
    proto_step ck b s (s\<lparr>win := q, next_seq := sq, unread := rest, to_client := pdu # to_client s\<rparr>)"
| eof: "\<not> ended s \<Longrightarrow> \<not> CircularQueue_is_full (win s) \<Longrightarrow>
    send_chunk ck True (win s) (next_seq s) b (unread s) = Inr None \<Longrightarrow>
    createPDU ck 7 (next_seq s) 10 [] 0 = Inr pdu \<Longrightarrow>
    proto_step ck b s (s\<lparr>ended := True, to_client := pdu # to_client s\<rparr>)"
| ack: "\<not> ended s \<Longrightarrow> a \<in> set (to_server s) \<Longrightarrow>
    handle_ack ck (win s) (rbuf_of a jk) = Inr (q, pdus) \<Longrightarrow>
    proto_step ck b s (s\<lparr>win := q, to_client := pdus @ to_client s\<rparr>)"
| timeout: "\<not> ended s \<Longrightarrow> CircularQueue_is_full (win s) \<Longrightarrow>
    resend_oldest ck (win s) = Inr pdus \<Longrightarrow>
    proto_step ck b s (s\<lparr>to_client := pdus @ to_client s\<rparr>)"
| deliver: "\<not> finished s \<Longrightarrow> p \<in> set (to_client s) \<Longrightarrow>
    transfer_packet ck (rstate s) (rinfo s) (rbuf_of p jk) (int (length p)) = Inr (More st info pdus) \<Longrightarrow>
    proto_step ck b s (s\<lparr>rstate := st, rinfo := info, to_server := pdus @ to_server s\<rparr>)"
| finish: "\<not> finished s \<Longrightarrow> p \<in> set (to_client s) \<Longrightarrow>
    transfer_packet ck (rstate s) (rinfo s) (rbuf_of p jk) (int (length p)) = Inr (Finished info pdus) \<Longrightarrow>
    proto_step ck b s (s\<lparr>finished := True, rinfo := info, to_server := pdus @ to_server s\<rparr>)"

text \<open>
  The start: the window of \<open>processClient\<close> with \<open>ws\<close> slots, the receiver of
  \<open>wait_on_data_state\<close> with \<open>wc\<close> slots.
\<close>

definition empty_queue :: CircularQueue where
  "empty_queue = \<lparr>entries = None, WindowSize = 0, ValidCount = 0\<rparr>"

definition proto_start :: "int \<Rightarrow> int \<Rightarrow> byte list \<Rightarrow> proto" where
  "proto_start ws wc f =
     \<lparr>win = snd (CircularQueue_init True empty_queue ws), next_seq = 1, unread = f, ended = False,
      to_client = [], to_server = [], rinfo = fresh_receiver wc 0 0, rstate = IN_ORDER, finished = False\<rparr>"

lemma proto_start_simps [simp]:
  "rinfo (proto_start ws wc f) = fresh_receiver wc 0 0" "rstate (proto_start ws wc f) = IN_ORDER"
  "finished (proto_start ws wc f) = False" "to_client (proto_start ws wc f) = []"
  "to_server (proto_start ws wc f) = []" "next_seq (proto_start ws wc f) = 1"
  "ended (proto_start ws wc f) = False" "unread (proto_start ws wc f) = f"
  by (simp_all add: proto_start_def)

inductive proto_reach :: "cksum \<Rightarrow> u16 \<Rightarrow> proto \<Rightarrow> proto \<Rightarrow> bool" for ck :: cksum and b :: u16 and s0 :: proto where
  start: "proto_reach ck b s0 s0"
| step: "proto_reach ck b s0 s \<Longrightarrow> proto_step ck b s t \<Longrightarrow> proto_reach ck b s0 t"

lemma reach_trans: "proto_reach ck b t u \<Longrightarrow> proto_reach ck b s t \<Longrightarrow> proto_reach ck b s u"
  by (induction rule: proto_reach.induct) (auto intro: proto_reach.step)

lemma reach_star: "proto_reach ck b s0 s \<longleftrightarrow> (proto_step ck b)\<^sup>*\<^sup>* s0 s"
proof
  show "proto_reach ck b s0 s \<Longrightarrow> (proto_step ck b)\<^sup>*\<^sup>* s0 s"
    by (induction rule: proto_reach.induct) (auto intro: rtranclp.rtrancl_into_rtrancl)
  show "(proto_step ck b)\<^sup>*\<^sup>* s0 s \<Longrightarrow> proto_reach ck b s0 s"
    by (induction rule: rtranclp_induct) (auto intro: proto_reach.intros)
qed

subsection \<open>The invariant\<close>

definition eof_pdu :: "cksum \<Rightarrow> proto \<Rightarrow> byte list \<Rightarrow> bool" where
  "eof_pdu ck s p \<longleftrightarrow> ended s \<and> p = pdu_of ck (next_seq s) 10 []"

definition eof_ack_pdu :: "cksum \<Rightarrow> byte list \<Rightarrow> bool" where
  "eof_ack_pdu ck p \<longleftrightarrow> (\<exists>m. p = pdu_of ck m 35 [])"

text \<open>
  What the server's side and the datagrams in flight satisfy, whatever the receiver's buffer
  holds; of the client only \<open>expected\<close> matters here.
\<close>

definition srv_side :: "cksum \<Rightarrow> u16 \<Rightarrow> byte list \<Rightarrow> nat \<Rightarrow> proto \<Rightarrow> bool" where
  "srv_side ck b f lo s \<longleftrightarrow>
     snd_window ck (file_chunk (unat b) f) lo (unat (next_seq s)) (win s) \<and>
     unread s = drop ((unat (next_seq s) - 1) * unat b) f \<and>
     (unat (next_seq s) - 1) \<le> length f \<and>
     (ended s \<longrightarrow> unread s = []) \<and>
     lo \<le> unat (expected (rinfo s)) \<and>
     (\<forall>p \<in> set (to_client s).
        data_pdu ck (file_chunk (unat b) f) (unat (expected (rinfo s))) (unat (next_seq s)) p \<or> eof_pdu ck s p) \<and>
     (\<forall>a \<in> set (to_server s).
        ack_pdu ck (unat (expected (rinfo s))) (unat (next_seq s)) a \<or> eof_ack_pdu ck a)"

lemma srv_sideD:
  assumes "srv_side ck b f lo s"
  shows "snd_window ck (file_chunk (unat b) f) lo (unat (next_seq s)) (win s)"
    "unread s = drop ((unat (next_seq s) - 1) * unat b) f"
    "unat (next_seq s) - 1 \<le> length f"
    "ended s \<Longrightarrow> unread s = []"
    "lo \<le> unat (expected (rinfo s))"
    "p \<in> set (to_client s) \<Longrightarrow>
       data_pdu ck (file_chunk (unat b) f) (unat (expected (rinfo s))) (unat (next_seq s)) p \<or> eof_pdu ck s p"
    "a \<in> set (to_server s) \<Longrightarrow>
       ack_pdu ck (unat (expected (rinfo s))) (unat (next_seq s)) a \<or> eof_ack_pdu ck a"
  using assms by (auto simp: srv_side_def)

text \<open>With a client window at least as large as the server's, the receiver is exact too.\<close>

definition proto_inv :: "cksum \<Rightarrow> u16 \<Rightarrow> byte list \<Rightarrow> nat \<Rightarrow> proto \<Rightarrow> bool" where
  "proto_inv ck b f lo s \<longleftrightarrow>
     srv_side ck b f lo s \<and>
     queue_cap (win s) \<le> length (buffer (rinfo s)) \<and>
     (finished s \<longrightarrow> ended s \<and> rcv_eofSeq (rinfo s) = next_seq s \<and>
        rcv_core (file_chunk (unat b) f) (unat (next_seq s)) (rinfo s)) \<and>
     (\<not> finished s \<longrightarrow> rcv_inv (file_chunk (unat b) f) (unat (next_seq s)) (rstate s) (rinfo s))"

lemma proto_inv_side: "proto_inv ck b f lo s \<Longrightarrow> srv_side ck b f lo s"
  by (simp add: proto_inv_def)

lemma proto_invD:
  assumes "proto_inv ck b f lo s"
  shows "snd_window ck (file_chunk (unat b) f) lo (unat (next_seq s)) (win s)"
    "queue_cap (win s) \<le> length (buffer (rinfo s))"
    "unread s = drop ((unat (next_seq s) - 1) * unat b) f"
    "unat (next_seq s) - 1 \<le> length f"
    "ended s \<Longrightarrow> unread s = []"
    "lo \<le> unat (expected (rinfo s))"
    "finished s \<Longrightarrow> ended s \<and> rcv_eofSeq (rinfo s) = next_seq s"
    "rcv_core (file_chunk (unat b) f) (unat (next_seq s)) (rinfo s)"
    "\<not> finished s \<Longrightarrow> rcv_inv (file_chunk (unat b) f) (unat (next_seq s)) (rstate s) (rinfo s)"
    "p \<in> set (to_client s) \<Longrightarrow>
       data_pdu ck (file_chunk (unat b) f) (unat (expected (rinfo s))) (unat (next_seq s)) p \<or> eof_pdu ck s p"
    "a \<in> set (to_server s) \<Longrightarrow>
       ack_pdu ck (unat (expected (rinfo s))) (unat (next_seq s)) a \<or> eof_ack_pdu ck a"
  using assms by (auto simp: proto_inv_def srv_side_def rcv_inv_def)

lemma ack_pdu_mono:
  assumes "ack_pdu ck n nxt p" "n \<le> n'" "nxt \<le> nxt'"
  shows "ack_pdu ck n' nxt' p"
proof -
  from assms(1) obtain m where m: "1 \<le> unat m" "unat m \<le> n"
    "p = pdu_of ck m 5 [] \<or> p = pdu_of ck m 6 [] \<and> unat m < nxt" unfolding ack_pdu_def by blast
  from m(3) show ?thesis
    by (elim disjE) (use m(1,2) assms(2,3) in \<open>auto intro!: ack_pduI\<close>)
qed

lemma srv_side_start:
  assumes "0 < ws" "ws < 2 ^ 31" "unat b \<le> MAXBUF"
  shows "srv_side ck b f 1 (proto_start ws wc f)" "queue_cap (win (proto_start ws wc f)) = nat ws"
proof -
  have "length (file_chunk (unat b) f s) \<le> MAXBUF" for s
    using length_file_chunk [of "unat b" f s] assms(3) by simp
  then have "snd_window ck (file_chunk (unat b) f) 1 1 (snd (CircularQueue_init True empty_queue ws))"
    using assms by (intro snd_window_init) auto
  then show "srv_side ck b f 1 (proto_start ws wc f)"
    by (auto simp: srv_side_def proto_start_def fresh_receiver_def)
  show "queue_cap (win (proto_start ws wc f)) = nat ws"
    using queue_init_ok [OF assms(1,2), of empty_queue] by (simp add: proto_start_def)
qed

lemma proto_inv_start:
  assumes "0 < ws" "ws \<le> wc" "wc < 2 ^ 31" "unat b \<le> MAXBUF"
  shows "proto_inv ck b f 1 (proto_start ws wc f)"
  using assms srv_side_start(1) [of ws b ck f wc] srv_side_start(2) [where ws = ws and b = b and wc = wc and f = f]
  by (auto simp: proto_inv_def fresh_receiver_def rcv_inv_def rcv_core_def slot_ok_def zero_packet_entry_def)

text \<open>What a turn of the filling loop sends and leaves behind.\<close>

lemma fill_result:
  assumes side: "srv_side ck b f lo s" and len: "length f + 3 < 2 ^ 32"
    and b: "0 < unat b" "unat b \<le> MAXBUF" and full: "\<not> CircularQueue_is_full (win s)"
    and st: "send_chunk ck True (win s) (next_seq s) b (unread s) = Inr (Some (q, sq, rest, pdu))"
  shows "unat sq = unat (next_seq s) + 1" "unat (next_seq s) - 1 < length f"
    "pdu = pdu_of ck (next_seq s) 16 (file_chunk (unat b) f (unat (next_seq s)))"
    "rest = drop (unat (next_seq s) * unat b) f"
    "snd_window ck (file_chunk (unat b) f) lo (unat (next_seq s) + 1) q" "queue_cap q = queue_cap (win s)"
proof -
  note D = srv_sideD [OF side]
  let ?n = "unat (next_seq s)"
  have w: "(word_of_nat ?n :: u32) = next_seq s" by simp
  have ne: "unread s \<noteq> []" using st send_chunk_end [of ck True "win s" "next_seq s" b] by auto
  have n1: "1 \<le> ?n" using snd_windowD(2,3) [OF D(1)] by simp
  show lt: "?n - 1 < length f"
  proof -
    have "(?n - 1) * unat b < length f" using ne D(2) by (metis drop_all not_le)
    moreover have "?n - 1 \<le> (?n - 1) * unat b" using b(1) by (cases "unat b") auto
    ultimately show ?thesis by linarith
  qed
  have ch: "take (unat b) (unread s) = file_chunk (unat b) f ?n" by (simp add: D(2) file_chunk_def)
  have small: "?n + 1 < 2 ^ 32" using lt len n1 by simp
  from send_chunk_window [OF D(1) full this b ne ch] obtain q' where
    "send_chunk ck True (win s) (next_seq s) b (unread s) =
       Inr (Some (q', word_of_nat (?n + 1), drop (unat b) (unread s),
                  pdu_of ck (next_seq s) 16 (file_chunk (unat b) f ?n)))"
    "snd_window ck (file_chunk (unat b) f) lo (?n + 1) q'" "queue_cap q' = queue_cap (win s)"
    unfolding w by blast
  with st have eqs: "sq = word_of_nat (?n + 1)" "rest = drop (unat b) (unread s)"
    "pdu = pdu_of ck (next_seq s) 16 (file_chunk (unat b) f ?n)"
    "snd_window ck (file_chunk (unat b) f) lo (?n + 1) q" "queue_cap q = queue_cap (win s)" by auto
  show "unat sq = ?n + 1" unfolding eqs(1) using small
    by (simp add: unat_of_nat take_bit_nat_eq_self del: of_nat_add of_nat_Suc)
  show "rest = drop (?n * unat b) f"
    using n1 by (simp add: eqs(2) D(2) add.commute flip: mult_Suc)
  show "pdu = pdu_of ck (next_seq s) 16 (file_chunk (unat b) f ?n)"
    "snd_window ck (file_chunk (unat b) f) lo (?n + 1) q" "queue_cap q = queue_cap (win s)" by (rule eqs)+
qed

lemma srv_side_fill:
  assumes side: "srv_side ck b f lo s" and len: "length f + 3 < 2 ^ 32"
    and b: "0 < unat b" "unat b \<le> MAXBUF"
    and st: "\<not> ended s" "\<not> CircularQueue_is_full (win s)"
      "send_chunk ck True (win s) (next_seq s) b (unread s) = Inr (Some (q, sq, rest, pdu))"
  shows "srv_side ck b f lo (s\<lparr>win := q, next_seq := sq, unread := rest, to_client := pdu # to_client s\<rparr>)"
proof -
  note F = fill_result [OF side len b st(2,3)] and W = snd_windowD(5) [OF srv_sideD(1) [OF side]]
  have "data_pdu ck (file_chunk (unat b) f) (unat (expected (rinfo s))) (unat (next_seq s) + 1) pdu"
    unfolding F(3) using W by (intro data_pduI) auto
  then show ?thesis
    using side F st(1)
    by (auto simp: srv_side_def eof_pdu_def intro: data_pdu_mono ack_pdu_mono)
qed

lemma srv_side_eof:
  assumes side: "srv_side ck b f lo s" and b: "0 < unat b"
    and st: "\<not> ended s" "send_chunk ck True (win s) (next_seq s) b (unread s) = Inr None"
      "createPDU ck 7 (next_seq s) 10 [] 0 = Inr pdu"
  shows "srv_side ck b f lo (s\<lparr>ended := True, to_client := pdu # to_client s\<rparr>)"
proof -
  have "unread s = []" using st(2) b by (auto simp: send_chunk_def Let_def res_eqs split: if_splits)
  moreover have "pdu = pdu_of ck (next_seq s) 10 []" using st(3) by simp
  ultimately show ?thesis using side st(1) by (auto simp: srv_side_def eof_pdu_def)
qed

lemma srv_side_ack:
  assumes side: "srv_side ck b f lo s" and a: "a \<in> set (to_server s)"
    and st: "handle_ack ck (win s) (rbuf_of a jk) = Inr (q, pdus)"
  shows "\<exists>lo'. srv_side ck b f lo' (s\<lparr>win := q, to_client := pdus @ to_client s\<rparr>)"
    "queue_cap q = queue_cap (win s)"
proof -
  note D = srv_sideD [OF side]
  let ?ex = "unat (expected (rinfo s))" and ?n = "unat (next_seq s)" and ?b = "rbuf_of a jk"
  have hon: "hdr_flag ?b = 6 \<longrightarrow> unat (hdr_seq ?b) < ?n" "hdr_flag ?b = 5 \<longrightarrow> unat (hdr_seq ?b) \<le> ?ex"
    using D(7) [OF a] by (auto simp: ack_pdu_def eof_ack_pdu_def)
  from handle_ack_window [OF D(1) st hon(1)] obtain lo' where
    lo': "lo \<le> lo'" "lo' \<le> max lo (if hdr_flag ?b = 5 then unat (hdr_seq ?b) else 0)"
      "snd_window ck (file_chunk (unat b) f) lo' ?n q" "queue_cap q = queue_cap (win s)"
      "\<forall>p \<in> set pdus. data_pdu ck (file_chunk (unat b) f) lo ?n p" by blast
  show "queue_cap q = queue_cap (win s)" by (rule lo'(4))
  have "lo' \<le> ?ex" using lo'(2) hon(2) D(5) by (auto split: if_splits)
  moreover have "data_pdu ck (file_chunk (unat b) f) ?ex ?n p" if "p \<in> set pdus" for p
    using lo'(5) that D(5) by (blast intro: data_pdu_mono)
  ultimately have "srv_side ck b f lo' (s\<lparr>win := q, to_client := pdus @ to_client s\<rparr>)"
    using side lo'(3,4) by (auto simp: srv_side_def eof_pdu_def)
  then show "\<exists>lo'. srv_side ck b f lo' (s\<lparr>win := q, to_client := pdus @ to_client s\<rparr>)" by blast
qed

lemma srv_side_timeout:
  assumes side: "srv_side ck b f lo s" and st: "resend_oldest ck (win s) = Inr pdus"
  shows "srv_side ck b f lo (s\<lparr>to_client := pdus @ to_client s\<rparr>)"
proof -
  note D = srv_sideD [OF side]
  let ?ch = "file_chunk (unat b) f"
  have "data_pdu ck ?ch (unat (expected (rinfo s))) (unat (next_seq s)) p" if "p \<in> set pdus" for p
  proof (cases "lo < unat (next_seq s)")
    case True
    with resend_oldest_window [OF D(1)] st that snd_windowD(5) [OF D(1)] show ?thesis
      by (auto intro!: data_pduI)
  next
    case False
    then have "lo = unat (next_seq s)" using snd_windowD(3) [OF D(1)] by simp
    with D(1) resend_oldest_empty [of ck ?ch lo "win s"] st that show ?thesis by simp
  qed
  with side show ?thesis by (auto simp: srv_side_def eof_pdu_def)
qed

text \<open>The client moves on: what is in flight stays explained.\<close>

lemma srv_side_client:
  assumes side: "srv_side ck b f lo s" and le: "unat (expected (rinfo s)) \<le> unat (expected info)"
    and acks: "\<forall>p \<in> set pdus. ack_pdu ck (unat (expected info)) (unat (next_seq s)) p \<or> eof_ack_pdu ck p"
  shows "srv_side ck b f lo (s\<lparr>rstate := st, rinfo := info, to_server := pdus @ to_server s\<rparr>)"
    "srv_side ck b f lo (s\<lparr>finished := True, rinfo := info, to_server := pdus @ to_server s\<rparr>)"
  using side le acks
  by (auto simp: srv_side_def eof_pdu_def intro: data_pdu_mono [OF _ le] ack_pdu_mono [OF _ le])

lemma proto_inv_fill:
  assumes inv: "proto_inv ck b f lo s" and len: "length f + 3 < 2 ^ 32"
    and b: "0 < unat b" "unat b \<le> MAXBUF"
    and st: "\<not> ended s" "\<not> CircularQueue_is_full (win s)"
      "send_chunk ck True (win s) (next_seq s) b (unread s) = Inr (Some (q, sq, rest, pdu))"
  shows "proto_inv ck b f lo (s\<lparr>win := q, next_seq := sq, unread := rest, to_client := pdu # to_client s\<rparr>)"
  using inv fill_result [OF proto_inv_side [OF inv] len b st(2,3)]
    srv_side_fill [OF proto_inv_side [OF inv] len b st] st(1)
  by (auto simp: proto_inv_def intro: rcv_inv_mono)

lemma in_flight_arrival:
  assumes inv: "proto_inv ck b f lo s"
    and p: "unat m < unat (next_seq s)" "length pl \<le> MAXBUF"
      "unat (expected (rinfo s)) \<le> unat m \<longrightarrow> pl = file_chunk (unat b) f (unat m)"
  shows "arrival_ok (file_chunk (unat b) f) (unat (next_seq s)) (rinfo s) m pl"
proof -
  note D = proto_invD [OF inv]
  from snd_windowD(6) [OF D(1)] D(2,6) p(1)
  have "unat m < unat (expected (rinfo s)) + length (buffer (rinfo s))" by linarith
  with p show ?thesis by (simp add: arrival_ok_def word_le_nat_alt)
qed

lemma rcv_core_length:
  "rcv_core chunk nxt info \<Longrightarrow> rcv_core chunk' nxt' info' \<Longrightarrow>
   rcv_windowSize info = rcv_windowSize info' \<Longrightarrow> length (buffer info) = length (buffer info')"
  by (simp add: rcv_core_def)

lemma proto_inv_receive:
  assumes inv: "proto_inv ck b f lo s" and st: "\<not> finished s" and p: "p \<in> set (to_client s)"
  shows "(\<exists>st info pdus. transfer_packet ck (rstate s) (rinfo s) (rbuf_of p jk) (int (length p))
        = Inr (More st info pdus) \<and>
      proto_inv ck b f lo (s\<lparr>rstate := st, rinfo := info, to_server := pdus @ to_server s\<rparr>)) \<or>
    (\<exists>info pdus. transfer_packet ck (rstate s) (rinfo s) (rbuf_of p jk) (int (length p))
        = Inr (Finished info pdus) \<and>
      proto_inv ck b f lo (s\<lparr>finished := True, rinfo := info, to_server := pdus @ to_server s\<rparr>))"
    (is "?more \<or> ?fin")
proof -
  note D = proto_invD [OF inv] and side = srv_side_client [OF proto_inv_side [OF inv]]
  let ?ch = "file_chunk (unat b) f" and ?n = "unat (next_seq s)"
  have n32: "?n < 2 ^ 32" using unat_u32_less by simp
  from D(10) [OF p] show ?thesis
  proof
    assume "data_pdu ck ?ch (unat (expected (rinfo s))) ?n p"
    then obtain m fl pl where m: "unat m < ?n" "fl = 16 \<or> fl = 17 \<or> fl = 18" "length pl \<le> MAXBUF"
      "unat (expected (rinfo s)) \<le> unat m \<longrightarrow> pl = ?ch (unat m)" "p = pdu_of ck m fl pl"
      unfolding data_pdu_def by blast
    obtain st' info' pdus where t: "transfer_packet ck (rstate s) (rinfo s) (rbuf_of p jk) (int (length p))
        = Inr (More st' info' pdus)" "rcv_inv ?ch ?n st' info'" "expected (rinfo s) \<le> expected info'"
      "rcv_windowSize info' = rcv_windowSize (rinfo s)"
      "\<forall>q \<in> set pdus. ack_pdu ck (unat (expected info')) ?n q"
      using transfer_packet_data [OF D(9) [OF st] n32 m(2) in_flight_arrival [OF inv m(1,3,4)], of ck jk]
      unfolding m(5) by blast
    have le: "unat (expected (rinfo s)) \<le> unat (expected info')" using t(3) by (simp add: word_le_nat_alt)
    have "length (buffer info') = length (buffer (rinfo s))"
      using rcv_core_length [OF _ D(8) t(4)] t(2) by (auto simp: rcv_inv_def)
    then have "proto_inv ck b f lo (s\<lparr>rstate := st', rinfo := info', to_server := pdus @ to_server s\<rparr>)"
      using inv st t(2,5) side(1) [OF le] by (auto simp: proto_inv_def)
    with t(1) show ?thesis by blast
  next
    assume "eof_pdu ck s p"
    then have e: "ended s" "p = pdu_of ck (next_seq s) 10 []" by (simp_all add: eof_pdu_def)
    obtain info' where t: "transfer_packet ck (rstate s) (rinfo s) (rbuf_of p jk) (int (length p))
        = Inr (Finished info' [pdu_of ck (next_seq s) 35 []])" "rcv_core ?ch ?n info'"
      "expected (rinfo s) \<le> expected info'" "rcv_eofSeq info' = next_seq s"
      "rcv_windowSize info' = rcv_windowSize (rinfo s)"
      using transfer_packet_eof [OF D(8) n32, of ck "rstate s" "next_seq s" "[]" jk] unfolding e(2) by blast
    have le: "unat (expected (rinfo s)) \<le> unat (expected info')" using t(3) by (simp add: word_le_nat_alt)
    have "length (buffer info') = length (buffer (rinfo s))"
      using rcv_core_length [OF t(2) D(8) t(5)] .
    then have "proto_inv ck b f lo
        (s\<lparr>finished := True, rinfo := info', to_server := [pdu_of ck (next_seq s) 35 []] @ to_server s\<rparr>)"
      using inv e(1) t(2,4) side(2) [OF le, of "[pdu_of ck (next_seq s) 35 []]"]
      by (auto simp: proto_inv_def eof_ack_pdu_def)
    with t(1) show ?thesis by blast
  qed
qed

lemma proto_inv_step:
  assumes "proto_step ck b s t" and inv: "proto_inv ck b f lo s" and len: "length f + 3 < 2 ^ 32"
    and b: "0 < unat b" "unat b \<le> MAXBUF"
  shows "\<exists>lo'. proto_inv ck b f lo' t"
  using assms(1)
proof cases
  case (fill q sq rest pdu)
  then show ?thesis using proto_inv_fill [OF inv len b] by blast
next
  case (eof pdu)
  then show ?thesis using inv srv_side_eof [OF proto_inv_side [OF inv] b(1)]
    by (auto simp: proto_inv_def)
next
  case (ack a jk q pdus)
  then show ?thesis using inv srv_side_ack [OF proto_inv_side [OF inv] ack(3,4)]
    by (auto simp: proto_inv_def)
next
  case (timeout pdus)
  then show ?thesis using inv srv_side_timeout [OF proto_inv_side [OF inv]]
    by (auto simp: proto_inv_def)
next
  case (deliver p jk st info pdus)
  then show ?thesis using proto_inv_receive [OF inv deliver(2,3), of jk] by auto
next
  case (finish p jk info pdus)
  then show ?thesis using proto_inv_receive [OF inv finish(2,3), of jk] by auto
qed

lemma proto_inv_reach:
  assumes "proto_reach ck b s0 s" and inv: "proto_inv ck b f lo s0" and len: "length f + 3 < 2 ^ 32"
    and b: "0 < unat b" "unat b \<le> MAXBUF"
  shows "\<exists>lo'. proto_inv ck b f lo' s"
  using assms(1)
proof (induction rule: proto_reach.induct)
  case start
  then show ?case using inv by blast
next
  case (step s t)
  then show ?case using proto_inv_step [OF step(2) _ len b] by blast
qed

lemma reach_inv:
  assumes "proto_reach ck b (proto_start ws wc f) s" "0 < ws" "ws \<le> wc" "wc < 2 ^ 31"
    "0 < unat b" "unat b \<le> MAXBUF" "length f + 3 < 2 ^ 32"
  obtains lo where "proto_inv ck b f lo s"
  using proto_inv_reach [OF assms(1) proto_inv_start [OF assms(2-4,6)] assms(7,5,6)] by blast

text \<open>What the invariant says of the client's file.\<close>

lemma inv_prefix:
  assumes "proto_inv ck b f lo s"
  shows "outFile (rinfo s) = take ((unat (expected (rinfo s)) - 1) * unat b) f"
proof -
  note D = rcv_coreD [OF proto_invD(8) [OF assms]]
  have "unat (expected (rinfo s)) = Suc (unat (expected (rinfo s)) - 1)" using D(4) by simp
  then show ?thesis using D(7) concat_file_chunks [of "unat b" f "unat (expected (rinfo s)) - 1"] by simp
qed

lemma inv_complete:
  assumes "proto_inv ck b f lo s" "finished s" "expected (rinfo s) = rcv_eofSeq (rinfo s)"
  shows "outFile (rinfo s) = f"
proof -
  note D = proto_invD [OF assms(1)]
  have "expected (rinfo s) = next_seq s" "unread s = []" using D(5,7) assms(2,3) by auto
  then have "length f \<le> (unat (expected (rinfo s)) - 1) * unat b" using D(3) by simp
  then show ?thesis using inv_prefix [OF assms(1)] by simp
qed

subsection \<open>Executable runs\<close>

text \<open>
  A scheduler's choices as data: which side moves, and which datagram in flight (counted from
  the latest) it is given.  A run that the executable \<open>run_actions\<close> accepts is a run of the
  step relation.
\<close>

datatype action = Fill | Eof | Ack nat | Timeout | Deliver nat

definition act :: "cksum \<Rightarrow> u16 \<Rightarrow> action \<Rightarrow> proto \<Rightarrow> proto option" where
  "act ck b a s =
     (case a of
        Fill \<Rightarrow>
          if ended s \<or> CircularQueue_is_full (win s) then None
          else (case send_chunk ck True (win s) (next_seq s) b (unread s) of
                  Inr (Some (q, sq, rest, pdu)) \<Rightarrow>
                    Some (s\<lparr>win := q, next_seq := sq, unread := rest, to_client := pdu # to_client s\<rparr>)
                | _ \<Rightarrow> None)
      | Eof \<Rightarrow>
          if ended s \<or> CircularQueue_is_full (win s) then None
          else (case send_chunk ck True (win s) (next_seq s) b (unread s) of
                  Inr None \<Rightarrow>
                    (case createPDU ck 7 (next_seq s) 10 [] 0 of
                       Inr pdu \<Rightarrow> Some (s\<lparr>ended := True, to_client := pdu # to_client s\<rparr>)
                     | Inl _ \<Rightarrow> None)
                | _ \<Rightarrow> None)
      | Ack i \<Rightarrow>
          if ended s \<or> length (to_server s) \<le> i then None
          else (case handle_ack ck (win s) (rbuf_of (to_server s ! i) (\<lambda>_. 0)) of
                  Inr (q, pdus) \<Rightarrow> Some (s\<lparr>win := q, to_client := pdus @ to_client s\<rparr>)
                | Inl _ \<Rightarrow> None)
      | Timeout \<Rightarrow>
          if ended s \<or> \<not> CircularQueue_is_full (win s) then None
          else (case resend_oldest ck (win s) of
                  Inr pdus \<Rightarrow> Some (s\<lparr>to_client := pdus @ to_client s\<rparr>)
                | Inl _ \<Rightarrow> None)
      | Deliver i \<Rightarrow>
          if finished s \<or> length (to_client s) \<le> i then None
          else (let p = to_client s ! i
                in case transfer_packet ck (rstate s) (rinfo s) (rbuf_of p (\<lambda>_. 0)) (int (length p)) of
                     Inr (More st info pdus) \<Rightarrow>
                       Some (s\<lparr>rstate := st, rinfo := info, to_server := pdus @ to_server s\<rparr>)
                   | Inr (Finished info pdus) \<Rightarrow>
                       Some (s\<lparr>finished := True, rinfo := info, to_server := pdus @ to_server s\<rparr>)
                   | Inl _ \<Rightarrow> None))"

lemma act_step: "act ck b a s = Some t \<Longrightarrow> proto_step ck b s t"
  by (cases a)
     (auto simp: act_def Let_def not_le split: if_splits sum.splits option.splits prod.splits turn.splits
       intro: proto_step.fill proto_step.eof proto_step.timeout proto_step.ack [OF _ nth_mem]
         proto_step.deliver [OF _ nth_mem] proto_step.finish [OF _ nth_mem])

fun run_actions :: "cksum \<Rightarrow> u16 \<Rightarrow> action list \<Rightarrow> proto \<Rightarrow> proto option" where
  "run_actions ck b [] s = Some s"
| "run_actions ck b (a # as) s = Option.bind (act ck b a s) (run_actions ck b as)"

lemma run_actions_reach:
  "run_actions ck b as s = Some t \<Longrightarrow> proto_reach ck b s0 s \<Longrightarrow> proto_reach ck b s0 t"
proof (induction as arbitrary: s)
  case (Cons a as)
  from Cons.prems(1) obtain u where "act ck b a s = Some u" "run_actions ck b as u = Some t"
    by (auto simp: Option.bind_eq_Some_conv)
  with Cons.IH [of u] Cons.prems(2) show ?case by (blast intro: proto_reach.step act_step)
qed simp

lemma run_result:
  assumes "map_option g (run_actions ck b as s0) = Some v"
  obtains s where "proto_reach ck b s0 s" "g s = v"
  using assms run_actions_reach [OF _ proto_reach.start, of ck b as s0] by auto

end
