(* ===== verification/Receiver_Safety.thy ===== *)
theory Receiver_Safety
  imports Receiver
begin

text \<open>
  Memory safety of the receiver against an arbitrary network.  \<open>rcv_wf\<close> types the receiver's
  state: the buffer has the slots the window size promises, and what a valid slot claims to
  hold lies inside \<open>packet[MAXBUF]\<close>.  Every datagram of at least a header, whatever its bytes,
  is processed without a fault and leaves a well-formed state, in every state of the mini
  machine; so the receive loop meets no fault on any schedule of such datagrams.
\<close>

subsection \<open>Well-formed receivers\<close>

definition entry_wf :: "PacketEntry \<Rightarrow> bool" where
  "entry_wf e \<longleftrightarrow> length (e_packet e) \<le> MAXBUF \<and>
     (e_valid e \<longrightarrow> 0 \<le> e_packetLen e \<and> e_packetLen e \<le> int (length (e_packet e)))"

definition rcv_wf :: "ReceiveInfo \<Rightarrow> bool" where
  "rcv_wf info \<longleftrightarrow> 0 < rcv_windowSize info \<and> rcv_windowSize info < 2 ^ 31 \<and>
     length (buffer info) = nat (rcv_windowSize info) \<and> (\<forall>e \<in> set (buffer info). entry_wf e)"

fun turn_info :: "turn \<Rightarrow> ReceiveInfo" where
  "turn_info (More st info pdus) = info"
| "turn_info (Finished info pdus) = info"

lemma rcv_wfD:
  assumes "rcv_wf info"
  shows "0 < length (buffer info)"
    "umod x (rcv_windowSize info) = Inr (unat x mod length (buffer info))"
    "unat x mod length (buffer info) < length (buffer info)"
    "entry_wf (buffer info ! (unat x mod length (buffer info)))"
  using assms by (auto simp: rcv_wf_def)

lemma rcv_wf_frame [simp]:
  "rcv_wf (info\<lparr>outFile := f\<rparr>) = rcv_wf info" "rcv_wf (info\<lparr>expected := x\<rparr>) = rcv_wf info"
  "rcv_wf (info\<lparr>highest := x\<rparr>) = rcv_wf info" "rcv_wf (info\<lparr>rcv_eofSeq := x\<rparr>) = rcv_wf info"
  "rcv_wf (info\<lparr>serverAddr := a\<rparr>) = rcv_wf info" "rcv_wf (info\<lparr>outFile_open := v\<rparr>) = rcv_wf info"
  by (simp_all add: rcv_wf_def)

lemma rcv_wf_update:
  "rcv_wf info \<Longrightarrow> entry_wf e \<Longrightarrow> rcv_wf (info\<lparr>buffer := (buffer info)[i := e]\<rparr>)"
  by (auto simp: rcv_wf_def dest!: subsetD [OF set_update_subset_insert])

lemma entry_wf_read: "entry_wf e \<Longrightarrow> e_valid e \<Longrightarrow> \<exists>p. read_bytes (e_packet e) (e_packetLen e) = Inr p"
  by (auto simp: entry_wf_def read_bytes_def)

lemma entry_wf_invalid: "entry_wf e \<Longrightarrow> entry_wf (e\<lparr>e_valid := False\<rparr>)"
  by (simp add: entry_wf_def)

lemma fresh_receiver_wf: "0 < n \<Longrightarrow> n < 2 ^ 31 \<Longrightarrow> rcv_wf (fresh_receiver n s a)"
  by (auto simp: rcv_wf_def fresh_receiver_def entry_wf_def zero_packet_entry_def)

subsection \<open>Every operation is safe and keeps well-formedness\<close>

lemma flush_loop_wf: "rcv_wf info \<Longrightarrow> \<exists>info'. flush_loop info = Inr info' \<and> rcv_wf info'"
proof (induction info rule: flush_loop.induct)
  case (1 info)
  note W = rcv_wfD [OF "1.prems"]
  let ?i = "unat (expected info) mod length (buffer info)"
  let ?e = "buffer info ! ?i"
  show ?case
  proof (cases "expected info \<le> highest info \<and> e_valid ?e")
    case False
    then show ?thesis using "1.prems" W by (subst flush_loop.simps) auto
  next
    case True
    obtain p where p: "read_bytes (e_packet ?e) (e_packetLen ?e) = Inr p"
      using entry_wf_read [OF W(4)] True by blast
    let ?next = "info\<lparr>outFile := outFile info @ p, buffer := (buffer info)[?i := ?e\<lparr>e_valid := False\<rparr>],
      expected := expected info + 1\<rparr>"
    have "rcv_wf ?next"
      using rcv_wf_update [of "info\<lparr>outFile := outFile info @ p\<rparr>" "?e\<lparr>e_valid := False\<rparr>" ?i]
        "1.prems" entry_wf_invalid [OF W(4)] by simp
    then obtain info' where "flush_loop ?next = Inr info'" "rcv_wf info'"
      using "1.IH" [of ?i ?e p] True W(2,3) p by auto
    moreover have "flush_loop info = flush_loop ?next"
      using True W(2,3) p by (subst flush_loop.simps) simp
    ultimately show ?thesis by simp
  qed
qed

lemma buffer_packet_wf:
  assumes wf: "rcv_wf info" and len: "length p \<le> MAXBUF"
  shows "\<exists>info'. buffer_packet info sq p (int (length p)) = Inr info' \<and> rcv_wf info'"
proof -
  note W = rcv_wfD [OF wf]
  let ?i = "unat sq mod length (buffer info)"
  let ?e = "buffer info ! ?i"
  let ?new = "?e\<lparr>e_packet := p @ drop (length p) (e_packet ?e), e_packetLen := int (length p), e_valid := True\<rparr>"
  show ?thesis
  proof (cases "e_valid ?e")
    case True
    then show ?thesis using wf W(2,3) by (simp add: buffer_packet_def)
  next
    case False
    have "length (e_packet ?e) \<le> MAXBUF" using W(4) by (simp add: entry_wf_def)
    then have "entry_wf ?new" using len by (simp add: entry_wf_def)
    then have "rcv_wf (info\<lparr>buffer := (buffer info)[?i := ?new]\<rparr>)" by (rule rcv_wf_update [OF wf])
    moreover have "buffer_packet info sq p (int (length p)) = Inr (info\<lparr>buffer := (buffer info)[?i := ?new]\<rparr>)"
      using False W(2,3) len by (simp add: buffer_packet_def memcpy_at_def)
    ultimately show ?thesis by blast
  qed
qed

lemma data_packet_wf:
  assumes wf: "rcv_wf info" and len: "length p \<le> MAXBUF"
  shows "\<exists>st' info' pdus. data_packet ck st info sq p (int (length p)) = Inr (st', info', pdus) \<and> rcv_wf info'"
proof -
  obtain bi where bp: "buffer_packet info sq p (int (length p)) = Inr bi" "rcv_wf bi"
    using buffer_packet_wf [OF assms] by blast
  obtain fi where fl: "flush_loop info = Inr fi" "rcv_wf fi" using flush_loop_wf [OF wf] by blast
  show ?thesis
    using wf bp fl rcv_wfD(2,3) [OF fl(2)] by (cases st) (auto simp: data_packet_def Let_def)
qed

lemma transfer_packet_wf:
  assumes wf: "rcv_wf info" and n: "7 \<le> n" "n \<le> int MAXBUF + 7"
  shows "\<exists>t. transfer_packet ck st info b n = Inr t \<and> rcv_wf (turn_info t)"
proof -
  let ?p = "payload_of b (n - 7)"
  have p: "int (length ?p) = n - 7" "length ?p \<le> MAXBUF" using n by (simp_all add: payload_of_def)
  obtain st' di pdus where d: "data_packet ck st info (hdr_seq b) ?p (n - 7) = Inr (st', di, pdus)" "rcv_wf di"
    using data_packet_wf [OF wf p(2), of ck st "hdr_seq b"] unfolding p(1) by blast
  obtain fi where f: "flush_loop (info\<lparr>rcv_eofSeq := hdr_seq b\<rparr>) = Inr fi" "rcv_wf fi"
    using flush_loop_wf [of "info\<lparr>rcv_eofSeq := hdr_seq b\<rparr>"] wf by auto
  show ?thesis using wf d f by (simp add: transfer_packet_def Let_def send_eof_ack_def)
qed

text \<open>
  C12: The receiver is type safe: in a well-formed state, whatever the mini machine's state and
  whatever bytes arrive, a datagram of 7 to \<open>MAXBUF + 7\<close> bytes (all that the receive call can
  deliver, short of a cut-off header) is processed without a fault, and the state it leaves is
  well-formed again.
\<close>

theorem client_type_safe:
  assumes "rcv_wf info" "7 \<le> n" "n \<le> int MAXBUF + 7"
  shows "\<exists>t. transfer_packet ck st info b n = Inr t \<and> rcv_wf (turn_info t)"
  by (rule transfer_packet_wf [OF assms])

theorem client_type_safe_witness:
  "\<exists>t. transfer_packet (\<lambda>_. 0) OUT_OF_ORDER (fresh_receiver 4 3 0) (\<lambda>_. 17) 9 = Inr t \<and> rcv_wf (turn_info t)"
  by (rule client_type_safe) (simp_all add: fresh_receiver_wf MAXBUF_def)

text \<open>
  C33: The bound of 7 bytes is needed: no length is checked.  A shorter datagram leaves the rest
  of the header as the stack had it; when those bytes name the packet the client waits for, the
  negative payload length becomes a huge size, and the write or the copy runs out of the packet
  buffer, in order and out of order alike.
\<close>

theorem short_datagram_faults:
  assumes "hdr_flag b \<in> {16, 17, 18}" "hdr_seq b = expected info" "n < 7" "st \<noteq> FLUSH"
  shows "transfer_packet ck st info b n = Inl OutOfBounds"
  using assms by (cases st) (auto simp: transfer_packet_def data_packet_def read_bytes_def Let_def)

theorem short_datagram_faults_witness:
  "transfer_packet (\<lambda>_. 0) IN_ORDER (fresh_receiver 4 3 0)
     (rbuf_of [0, 0, 0, 1] (\<lambda>i. pdu_of (\<lambda>_. 0) 1 16 [5] ! i)) 4 = Inl OutOfBounds"
proof -
  let ?b = "rbuf_of [0, 0, 0, 1] (\<lambda>i. pdu_of (\<lambda>_. 0) 1 16 [5] ! i)"
  have "hdr_flag ?b = 16" "hdr_seq ?b = 1" by code_simp+
  then show ?thesis by (intro short_datagram_faults) (simp_all add: fresh_receiver_def)
qed

subsection \<open>The receive loop\<close>

lemma recv_events:
  assumes "safeRecvfrom s len w = (r, w')"
  shows "set (schedule w') \<subseteq> set (schedule w)"
    "r = Inr (b, n, src) \<Longrightarrow> \<exists>d. Arrive d src \<in> set (schedule w) \<and> n = int (length (take len d)) \<and>
       (\<exists>jk. b = rbuf_of (take len d) jk)"
    "\<forall>f. r \<noteq> Inl (Fault f)"
proof -
  let ?es = "dropWhile (\<lambda>e. e = Quiet) (schedule w)"
  have sub: "set ?es \<subseteq> set (schedule w)" by (auto dest: set_dropWhileD)
  show "set (schedule w') \<subseteq> set (schedule w)" "\<forall>f. r \<noteq> Inl (Fault f)"
    using assms sub
    by (auto simp: safeRecvfrom_def recvfrom_def bnd_def Let_def split: if_splits list.splits event.splits)
  show "\<exists>d. Arrive d src \<in> set (schedule w) \<and> n = int (length (take len d)) \<and>
       (\<exists>jk. b = rbuf_of (take len d) jk)" if "r = Inr (b, n, src)"
    using assms that sub
    by (auto simp: safeRecvfrom_def recvfrom_def bnd_def Let_def split: if_splits list.splits event.splits)
qed

text \<open>One turn of the loop, by what the receive and the packet give.\<close>

lemma loop_stop:
  "safeRecvfrom (socketNum info) (MAXBUF + 7) w = (Inl s, w1) \<Longrightarrow>
   process_transfer_loop ck st info w = (Inl s, w1)"
  by (subst process_transfer_loop.simps) simp

lemma loop_more:
  "safeRecvfrom (socketNum info) (MAXBUF + 7) w = (Inr (b, n, src), w1) \<Longrightarrow>
   transfer_packet ck st (info\<lparr>serverAddr := src\<rparr>) b n = Inr (More st1 info1 pdus) \<Longrightarrow>
   process_transfer_loop ck st info w =
     process_transfer_loop ck st1 info1
       (w1\<lparr>sent := sent w1 @ map (\<lambda>m. (socketNum info1, m, serverAddr info1)) pdus\<rparr>)"
  by (subst process_transfer_loop.simps) (simp add: bnd_def send_all_eq)

lemma loop_finished:
  "safeRecvfrom (socketNum info) (MAXBUF + 7) w = (Inr (b, n, src), w1) \<Longrightarrow>
   transfer_packet ck st (info\<lparr>serverAddr := src\<rparr>) b n = Inr (Finished info1 pdus) \<Longrightarrow>
   fst (process_transfer_loop ck st info w) = Inr info1"
  by (subst process_transfer_loop.simps) (simp add: bnd_def send_all_eq close_fd_def)

lemma loop_sends:
  "safeRecvfrom (socketNum info) (MAXBUF + 7) w = (Inr (b, n, src), w1) \<Longrightarrow>
   transfer_packet ck st (info\<lparr>serverAddr := src\<rparr>) b n = Inr (Finished info1 pdus) \<Longrightarrow>
   sent (snd (process_transfer_loop ck st info w)) =
     sent w1 @ map (\<lambda>m. (socketNum info1, m, serverAddr info1)) pdus"
  by (subst process_transfer_loop.simps) (simp add: bnd_def send_all_eq close_fd_def)

lemma loop_fault:
  "safeRecvfrom (socketNum info) (MAXBUF + 7) w = (Inr (b, n, src), w1) \<Longrightarrow>
   transfer_packet ck st (info\<lparr>serverAddr := src\<rparr>) b n = Inl f \<Longrightarrow>
   process_transfer_loop ck st info w = (Inl (Fault f), w1)"
  by (subst process_transfer_loop.simps) (simp add: bnd_def)

lemma process_transfer_loop_safe:
  assumes "rcv_wf info" "\<forall>d a. Arrive d a \<in> set (schedule w) \<longrightarrow> 7 \<le> length d"
  shows "fst (process_transfer_loop ck st info w) \<noteq> Inl (Fault f)"
  using assms
proof (induction "length (schedule w)" arbitrary: st info w rule: less_induct)
  case less
  obtain r w1 where rc: "safeRecvfrom (socketNum info) (MAXBUF + 7) w = (r, w1)" by fastforce
  note E = recv_events [OF rc]
  show ?case
  proof (cases r)
    case (Inl s)
    then show ?thesis using loop_stop [of info w s w1 ck st] rc E(3) by simp
  next
    case (Inr x)
    obtain b n src where x: "x = (b, n, src)" by (cases x)
    have rc': "safeRecvfrom (socketNum info) (MAXBUF + 7) w = (Inr (b, n, src), w1)"
      using rc Inr x by simp
    obtain d where "Arrive d src \<in> set (schedule w)" "n = int (length (take (MAXBUF + 7) d))"
      using E(2) [of b n src] Inr x by blast
    then have "7 \<le> n" "n \<le> int MAXBUF + 7" using less.prems(2) by auto
    then obtain t where t: "transfer_packet ck st (info\<lparr>serverAddr := src\<rparr>) b n = Inr t" "rcv_wf (turn_info t)"
      using transfer_packet_wf [of "info\<lparr>serverAddr := src\<rparr>" n ck st b] less.prems(1) by auto
    show ?thesis
    proof (cases t)
      case (Finished info1 pdus)
      then show ?thesis using loop_finished [OF rc'] t(1) by simp
    next
      case (More st1 info1 pdus)
      show ?thesis unfolding loop_more [OF rc' t(1) [unfolded More]]
        by (rule less.hyps)
           (use safeRecvfrom_schedule [OF rc'] E(1) t(2) More less.prems(2) in auto)
    qed
  qed
qed

text \<open>
  C13: Against an arbitrary network the receive loop of the client meets no fault: on any
  schedule of timeouts, receive errors and datagrams of at least a header, with whatever
  contents, from whatever sender and in whatever order, \<open>process_transfer_state\<close> started by
  \<open>wait_on_data_state\<close> ends with the EOF acknowledgement, with \<open>exit\<close>, or waiting.
\<close>

theorem receive_loop_safe:
  assumes "0 < wsize" "wsize < 2 ^ 31" "\<forall>d a. Arrive d a \<in> set (schedule w) \<longrightarrow> 7 \<le> length d"
  shows "fst (process_transfer_state ck (fresh_receiver wsize sock peer) w) \<noteq> Inl (Fault f)"
  unfolding process_transfer_state_def
  by (rule process_transfer_loop_safe [OF fresh_receiver_wf [OF assms(1,2)] assms(3)])

theorem receive_loop_safe_witness:
  "fst (process_transfer_state (\<lambda>_. 0) (fresh_receiver 2 0 0)
     (start_world [Arrive (replicate 7 16) 4, Quiet, Arrive [1, 2, 3, 4, 5, 6, 10, 8] 9])) \<noteq> Inl (Fault OutOfBounds)"
  by (rule receive_loop_safe) (auto simp: start_world_def)

end
