(* ===== verification/Safe_Windows.thy ===== *)
theory Safe_Windows
  imports Protocol Receiver_Safety
begin

text \<open>
  Which window sizes the transfer is safe for.  The server runs with the two bytes of the
  client's window size swapped (\<open>filename_state\<close> keeps the raw value), so its window is larger
  than the client's buffer as soon as the low byte exceeds the high byte.  \<open>Protocol\<close> shows that
  a server window no larger than the client's is safe; here a run of \<open>proto_step\<close> that corrupts
  the file is built for every window of the other kind, and the two make an equivalence.  The same
  runs show how much the EOF packet can cut off.
\<close>

subsection \<open>The server's side of the run\<close>

text \<open>Every chunk, then the EOF packet: all of it fits into the server's window.\<close>

definition in_pool :: "cksum \<Rightarrow> (nat \<Rightarrow> byte list) \<Rightarrow> nat \<Rightarrow> byte list list \<Rightarrow> bool" where
  "in_pool ck chunk n ds \<longleftrightarrow> (\<forall>m. 1 \<le> m \<and> m < n \<longrightarrow> pdu_of ck (word_of_nat m) 16 (chunk m) \<in> set ds)"

lemma fill_all:
  assumes "0 < ws" "ws < 2 ^ 31" "0 < unat b" "unat b \<le> MAXBUF"
    and "int n \<le> ws" "(n - 1) * unat b < length f" "1 \<le> k" "k \<le> n + 1"
  shows "\<exists>s. proto_reach ck b (proto_start ws wc f) s \<and>
    rinfo s = fresh_receiver wc 0 0 \<and> rstate s = IN_ORDER \<and> \<not> finished s \<and> \<not> ended s \<and>
    next_seq s = word_of_nat k \<and> unread s = drop ((k - 1) * unat b) f \<and>
    snd_window ck (file_chunk (unat b) f) 1 k (win s) \<and> queue_cap (win s) = nat ws \<and>
    in_pool ck (file_chunk (unat b) f) k (to_client s)"
  using assms(7,8)
proof (induction k rule: nat_induct_at_least)
  case base
  have "length (file_chunk (unat b) f s) \<le> MAXBUF" for s
    using length_file_chunk [of "unat b" f s] assms(4) by simp
  then have "snd_window ck (file_chunk (unat b) f) 1 1 (win (proto_start ws wc f))"
    unfolding proto_start_def using snd_window_init [OF assms(1,2), of "file_chunk (unat b) f"] by simp
  moreover have "queue_cap (win (proto_start ws wc f)) = nat ws"
    unfolding proto_start_def using queue_init_ok [OF assms(1,2), of empty_queue] by simp
  ultimately show ?case
    by (intro exI [of _ "proto_start ws wc f"]) (auto simp: in_pool_def intro: proto_reach.start)
next
  case (Suc k)
  then obtain s where s: "proto_reach ck b (proto_start ws wc f) s" "rinfo s = fresh_receiver wc 0 0"
    "rstate s = IN_ORDER" "\<not> finished s" "\<not> ended s" "next_seq s = word_of_nat k"
    "unread s = drop ((k - 1) * unat b) f" "snd_window ck (file_chunk (unat b) f) 1 k (win s)"
    "queue_cap (win s) = nat ws" "in_pool ck (file_chunk (unat b) f) k (to_client s)"
    by auto
  note W = snd_windowD [OF s(8)]
  let ?pdu = "pdu_of ck (word_of_nat k) 16 (file_chunk (unat b) f k)"
  have kn: "1 \<le> k" "k \<le> n" using Suc by auto
  have room: "\<not> CircularQueue_is_full (win s)"
    using cq.full_range [OF W(1,7)] W(4) s(9) assms(5) kn by simp
  have "(k - 1) * unat b \<le> (n - 1) * unat b" using kn by (intro mult_right_mono) auto
  then have "(k - 1) * unat b < length f" using assms(6) by (rule le_less_trans)
  then have ne: "unread s \<noteq> []" using s(7) by simp
  have "k + 1 < 2 ^ 32" using kn assms(2,5) by simp
  from send_chunk_window [OF s(8) room this assms(3,4) ne] s(7) obtain q where
    q: "send_chunk ck True (win s) (word_of_nat k) b (unread s) =
      Inr (Some (q, word_of_nat (k + 1), drop (unat b) (unread s), ?pdu))"
    "snd_window ck (file_chunk (unat b) f) 1 (k + 1) q" "queue_cap q = queue_cap (win s)"
    by (auto simp: file_chunk_def)
  let ?t = "s\<lparr>win := q, next_seq := word_of_nat (k + 1), unread := drop (unat b) (unread s),
    to_client := ?pdu # to_client s\<rparr>"
  have "proto_step ck b s ?t" using s(5,6) room q(1) by (intro proto_step.fill) simp_all
  then have "proto_reach ck b (proto_start ws wc f) ?t" by (rule proto_reach.step [OF s(1)])
  moreover have "unread ?t = drop ((Suc k - 1) * unat b) f"
    using s(7) kn(1) by (simp add: add.commute flip: mult_Suc)
  moreover have "in_pool ck (file_chunk (unat b) f) (Suc k) (to_client ?t)"
    using s(10) by (auto simp: in_pool_def less_Suc_eq)
  ultimately show ?case using s(2-5,9) q(2,3) by (intro exI [of _ ?t]) simp
qed

lemma send_all_and_eof:
  assumes "ws < 2 ^ 31" "0 < unat b" "unat b \<le> MAXBUF"
    and "int n < ws" "(n - 1) * unat b < length f" "length f \<le> n * unat b"
  shows "\<exists>s. proto_reach ck b (proto_start ws wc f) s \<and>
    rinfo s = fresh_receiver wc 0 0 \<and> rstate s = IN_ORDER \<and> \<not> finished s \<and>
    in_pool ck (file_chunk (unat b) f) (n + 1) (to_client s) \<and>
    pdu_of ck (word_of_nat (n + 1)) 10 [] \<in> set (to_client s)"
proof -
  have pos: "0 < ws" "int n \<le> ws" using assms(4) by simp_all
  obtain s where s: "proto_reach ck b (proto_start ws wc f) s" "rinfo s = fresh_receiver wc 0 0"
    "rstate s = IN_ORDER" "\<not> finished s" "\<not> ended s" "next_seq s = word_of_nat (n + 1)"
    "unread s = drop ((n + 1 - 1) * unat b) f" "snd_window ck (file_chunk (unat b) f) 1 (n + 1) (win s)"
    "queue_cap (win s) = nat ws" "in_pool ck (file_chunk (unat b) f) (n + 1) (to_client s)"
    using fill_all [OF pos(1) assms(1-3) pos(2) assms(5), of "n + 1" ck wc] by auto
  note W = snd_windowD [OF s(8)]
  have "\<not> CircularQueue_is_full (win s)" using cq.full_range [OF W(1,7)] W(4) s(9) assms(4) by simp
  moreover have "unread s = []" using s(7) assms(6) by simp
  ultimately have "proto_step ck b s (s\<lparr>ended := True,
      to_client := pdu_of ck (next_seq s) 10 [] # to_client s\<rparr>)"
    using s(5) by (intro proto_step.eof) (simp_all add: send_chunk_end)
  from proto_reach.step [OF s(1) this] s show ?thesis
    by (intro exI [of _ "s\<lparr>ended := True, to_client := pdu_of ck (next_seq s) 10 [] # to_client s\<rparr>"])
       (simp add: in_pool_def del: of_nat_add of_nat_Suc)
qed

subsection \<open>The client's side of the run\<close>

text \<open>A client that can be reached while the datagrams \<open>pool\<close> are in flight to it.\<close>

definition client_at ::
    "cksum \<Rightarrow> u16 \<Rightarrow> proto \<Rightarrow> byte list list \<Rightarrow> TRANSFER_STATE \<Rightarrow> ReceiveInfo \<Rightarrow> bool" where
  "client_at ck b s0 pool st info \<longleftrightarrow>
     (\<exists>s. proto_reach ck b s0 s \<and> to_client s = pool \<and> \<not> finished s \<and> rstate s = st \<and> rinfo s = info)"

lemma client_takes:
  assumes "client_at ck b s0 pool st info" "pdu_of ck m 16 p \<in> set pool"
    and "data_packet ck st info m p (int (length p)) = Inr (st', info', pdus)"
  shows "client_at ck b s0 pool st' info'"
proof -
  obtain s where s: "proto_reach ck b s0 s" "to_client s = pool" "\<not> finished s" "rstate s = st" "rinfo s = info"
    using assms(1) unfolding client_at_def by blast
  let ?t = "s\<lparr>rstate := st', rinfo := info', to_server := pdus @ to_server s\<rparr>"
  have "transfer_packet ck st info (rbuf_of (pdu_of ck m 16 p) (\<lambda>_. 0)) (int (length (pdu_of ck m 16 p))) =
      Inr (More st' info' pdus)"
    using assms(3) by (simp add: transfer_packet_def Let_def)
  then have "proto_step ck b s ?t"
    using s(2-5) assms(2) by (intro proto_step.deliver [where jk = "\<lambda>_. 0"]) auto
  from proto_reach.step [OF s(1) this] show ?thesis
    unfolding client_at_def using s(2,3) by (intro exI [of _ ?t]) simp
qed

lemma client_stops:
  assumes "client_at ck b s0 pool st info" "pdu_of ck m 10 [] \<in> set pool" "highest info < expected info"
  shows "\<exists>s. proto_reach ck b s0 s \<and> finished s \<and> rinfo s = info\<lparr>rcv_eofSeq := m, outFile_open := False\<rparr> \<and>
    pdu_of ck m 35 [] \<in> set (to_server s)"
proof -
  obtain s where s: "proto_reach ck b s0 s" "to_client s = pool" "\<not> finished s" "rstate s = st" "rinfo s = info"
    using assms(1) unfolding client_at_def by blast
  let ?info = "info\<lparr>rcv_eofSeq := m, outFile_open := False\<rparr>"
  let ?t = "s\<lparr>finished := True, rinfo := ?info, to_server := [pdu_of ck m 35 []] @ to_server s\<rparr>"
  have "flush_loop (info\<lparr>rcv_eofSeq := m\<rparr>) = Inr (info\<lparr>rcv_eofSeq := m\<rparr>)"
    using assms(3) by (simp add: flush_loop_idle)
  then have "transfer_packet ck st info (rbuf_of (pdu_of ck m 10 []) (\<lambda>_. 0)) (int (length (pdu_of ck m 10 []))) =
      Inr (Finished ?info [pdu_of ck m 35 []])"
    by (simp add: transfer_packet_def Let_def send_eof_ack_def)
  then have "proto_step ck b s ?t"
    using s(2-5) assms(2) by (intro proto_step.finish [where jk = "\<lambda>_. 0"]) auto
  from proto_reach.step [OF s(1) this] show ?thesis by (intro exI [of _ ?t]) simp
qed

text \<open>In-order arrivals are written one by one, whatever the client's buffer.\<close>

lemma client_in_order:
  assumes "client_at ck b s0 pool IN_ORDER (fresh_receiver wc 0 0)" "in_pool ck chunk (n + 1) pool"
    and "n < 2 ^ 31" "j \<le> n"
  shows "\<exists>info. client_at ck b s0 pool IN_ORDER info \<and> expected info = word_of_nat (j + 1) \<and>
    highest info = word_of_nat j \<and> outFile info = concat (map chunk [1..<j + 1])"
  using assms(4)
proof (induction j)
  case 0
  show ?case using assms(1) by (intro exI [of _ "fresh_receiver wc 0 0"]) (simp add: fresh_receiver_def)
next
  case (Suc j)
  then obtain info where i: "client_at ck b s0 pool IN_ORDER info" "expected info = word_of_nat (j + 1)"
    "highest info = word_of_nat j" "outFile info = concat (map chunk [1..<j + 1])" by auto
  let ?info = "info\<lparr>outFile := outFile info @ chunk (j + 1), expected := expected info + 1,
    highest := word_of_nat (j + 1)\<rparr>"
  have "pdu_of ck (word_of_nat (j + 1)) 16 (chunk (j + 1)) \<in> set pool"
    using spec [OF assms(2) [unfolded in_pool_def], of "j + 1"] Suc.prems by simp
  moreover have "data_packet ck IN_ORDER info (word_of_nat (j + 1)) (chunk (j + 1)) (int (length (chunk (j + 1)))) =
      Inr (IN_ORDER, ?info, [pdu_of ck (expected info + 1) 5 []])"
    using i(2) by (simp add: data_packet_def Let_def)
  ultimately have "client_at ck b s0 pool IN_ORDER ?info" by (rule client_takes [OF i(1)])
  then show ?case using i(2,4) by (intro exI [of _ ?info]) (simp add: add.commute)
qed

text \<open>A client that waits for \<open>j\<close>, has heard of \<open>n\<close> and has nothing buffered.\<close>

definition bare :: "nat \<Rightarrow> nat \<Rightarrow> nat \<Rightarrow> ReceiveInfo \<Rightarrow> bool" where
  "bare w n j info \<longleftrightarrow> 0 < w \<and> int w < 2 ^ 31 \<and> rcv_windowSize info = int w \<and> length (buffer info) = w \<and>
     (\<forall>i < w. \<not> e_valid (buffer info ! i)) \<and> highest info = word_of_nat n \<and> expected info = word_of_nat j"

lemma bareD:
  assumes "bare w n j info"
  shows "umod x (rcv_windowSize info) = Inr (unat x mod w)" "length (buffer info) = w" "unat x mod w < w"
    "i < w \<Longrightarrow> \<not> e_valid (buffer info ! i)" "highest info = word_of_nat n" "expected info = word_of_nat j"
  using assms by (auto simp: bare_def)

lemma flush_bare: "bare w n j info \<Longrightarrow> flush_loop info = Inr info"
  using bareD [of w n j info] by (subst flush_loop.simps) auto

lemma flush_asks:
  assumes "flush_loop info = Inr info'" "bare w n j info'" "expected info' \<le> highest info'"
  shows "data_packet ck FLUSH info sq p len = Inr (OUT_OF_ORDER, info', [pdu_of ck (expected info') 6 []])"
  using assms(1,3) bareD(1-4) [OF assms(2)] by (simp add: data_packet_def)

lemma bare_next:
  "bare w n j info \<Longrightarrow> bare w n (Suc j) (info\<lparr>outFile := f, expected := expected info + 1\<rparr>)"
  by (simp add: bare_def add.commute)

text \<open>One retransmission is written; the packet after it is thrown away by \<open>FLUSH\<close>.\<close>

lemma client_catches_up:
  assumes "client_at ck b s0 pool OUT_OF_ORDER info" "bare w n j info"
    and "j \<le> n" "n < 2 ^ 31" "in_pool ck chunk (n + 1) pool" "1 \<le> j"
  shows "client_at ck b s0 pool FLUSH (info\<lparr>outFile := outFile info @ chunk j, expected := expected info + 1\<rparr>)"
    and "j < n \<Longrightarrow> client_at ck b s0 pool OUT_OF_ORDER
      (info\<lparr>outFile := outFile info @ chunk j, expected := expected info + 1\<rparr>)"
proof -
  let ?info = "info\<lparr>outFile := outFile info @ chunk j, expected := expected info + 1\<rparr>"
  have p: "pdu_of ck (word_of_nat j) 16 (chunk j) \<in> set pool"
    using assms(3,5,6) unfolding in_pool_def by auto
  show fl: "client_at ck b s0 pool FLUSH ?info"
    by (rule client_takes [OF assms(1) p, where pdus = "[pdu_of ck (expected info + 1) 5 []]"])
       (simp add: data_packet_def bareD(6) [OF assms(2)] Let_def)
  assume lt: "j < n"
  note B = bareD [OF bare_next [OF assms(2), of "outFile info @ chunk j"]]
  have "unat (word_of_nat (Suc j) :: u32) = Suc j" "unat (word_of_nat n :: u32) = n"
    using assms(4) lt by (simp_all add: unat_of_nat take_bit_nat_eq_self del: of_nat_Suc)
  then have le: "expected ?info \<le> highest ?info" unfolding B(5,6) word_le_nat_alt using lt by simp
  have bare: "bare w n (Suc j) ?info" by (rule bare_next [OF assms(2)])
  show "client_at ck b s0 pool OUT_OF_ORDER ?info"
    by (rule client_takes [OF fl p flush_asks [OF flush_bare [OF bare] bare le]])
qed

lemma client_catches_all:
  assumes "client_at ck b s0 pool OUT_OF_ORDER info" "bare w n j info"
    and "j \<le> n" "n < 2 ^ 31" "in_pool ck chunk (n + 1) pool" "1 \<le> j"
  shows "\<exists>info'. client_at ck b s0 pool FLUSH info' \<and> bare w n (n + 1) info' \<and>
    outFile info' = outFile info @ concat (map chunk [j..<n + 1])"
  using assms(1-3,6)
proof (induction "n - j" arbitrary: j info)
  case 0
  then have "j = n" by simp
  then show ?case
    using client_catches_up(1) [OF 0(2-4) assms(4,5) 0(5)] bare_next [OF 0(3), of "outFile info @ chunk j"]
    by (intro exI [of _ "info\<lparr>outFile := outFile info @ chunk j, expected := expected info + 1\<rparr>"]) simp
next
  case (Suc i)
  then have lt: "j < n" by simp
  let ?info = "info\<lparr>outFile := outFile info @ chunk j, expected := expected info + 1\<rparr>"
  have "client_at ck b s0 pool OUT_OF_ORDER ?info"
    by (rule client_catches_up(2) [OF Suc.prems(1-3) assms(4,5) Suc.prems(4) lt])
  moreover have "bare w n (Suc j) ?info" by (rule bare_next [OF Suc.prems(2)])
  moreover have "i = n - Suc j" "Suc j \<le> n" using Suc.hyps(2) by simp_all
  ultimately obtain info' where "client_at ck b s0 pool FLUSH info'" "bare w n (n + 1) info'"
    "outFile info' = outFile ?info @ concat (map chunk [Suc j..<n + 1])"
    using Suc.hyps(1) [of "Suc j" ?info] by auto
  moreover have "[j..<n + 1] = j # [Suc j..<n + 1]" using lt by (simp add: upt_conv_Cons)
  ultimately show ?case by (intro exI [of _ info']) simp
qed

text \<open>
  Number \<open>w + 2\<close> overtakes numbers 1 and 2 and lands in the slot of number 2; when number 1 has
  come, the flush takes it for number 2.
\<close>

lemma client_overtaken:
  assumes "client_at ck b s0 pool IN_ORDER (fresh_receiver (int w) 0 0)" "0 < w" "w + 2 < 2 ^ 31"
    and "in_pool ck chunk (w + 3) pool" "\<And>m. length (chunk m) \<le> MAXBUF"
  shows "\<exists>info. client_at ck b s0 pool OUT_OF_ORDER info \<and> bare w (w + 2) 3 info \<and>
    outFile info = chunk 1 @ chunk (w + 2)"
proof -
  define N where "N = (word_of_nat (w + 2) :: u32)"
  define far where "far = chunk (w + 2)"
  let ?i = "2 mod w" and ?start = "fresh_receiver (int w) 0 0"
  have uN: "unat N = w + 2"
    using assms(3) by (simp add: N_def unat_of_nat take_bit_nat_eq_self del: of_nat_add of_nat_Suc)
  have "(w + 2) mod w = 2 mod w" by (rule mod_add_self1)
  moreover have "1 < N" "2 \<le> N" "3 \<le> N" "N \<noteq> 1" "0 < N"
    using assms(2) uN by (auto simp: word_le_nat_alt word_less_nat_alt)
  ultimately have N: "unat N mod w = ?i" "1 < N" "2 \<le> N" "3 \<le> N" "N \<noteq> 1" "0 < N"
    unfolding uN by simp_all
  have lt: "?i < w" using assms(2) by simp
  have w: "umod x (int w) = Inr (unat x mod w)" for x using assms(2,3) by simp
  have pool: "pdu_of ck N 16 far \<in> set pool" "pdu_of ck 1 16 (chunk 1) \<in> set pool"
    using assms(4) unfolding in_pool_def N_def far_def by (auto dest: spec [of _ "1 :: nat"])
  let ?e = "\<lparr>e_packet = far, e_packetLen = int (length far), e_valid = True\<rparr>"
  let ?buf = "(replicate w zero_packet_entry)[?i := ?e]"
  let ?info1 = "?start\<lparr>buffer := ?buf, highest := N\<rparr>"
  let ?info2 = "?info1\<lparr>outFile := chunk 1, expected := 2\<rparr>"
  let ?info3 = "?info2\<lparr>outFile := chunk 1 @ far, buffer := ?buf[?i := ?e\<lparr>e_valid := False\<rparr>], expected := 3\<rparr>"
  have "buffer_packet ?start N far (int (length far)) = Inr (?start\<lparr>buffer := ?buf\<rparr>)"
    using lt assms(5) [of "w + 2", folded far_def]
    by (simp add: buffer_packet_def fresh_receiver_def w N(1) zero_packet_entry_def memcpy_at_def)
  then have "data_packet ck IN_ORDER ?start N far (int (length far)) = Inr (OUT_OF_ORDER, ?info1, [pdu_of ck 1 6 []])"
    using N(2,5,6) by (simp add: data_packet_def Let_def fresh_receiver_def)
  then have c1: "client_at ck b s0 pool OUT_OF_ORDER ?info1" by (rule client_takes [OF assms(1) pool(1)])
  have "data_packet ck OUT_OF_ORDER ?info1 1 (chunk 1) (int (length (chunk 1))) =
      Inr (FLUSH, ?info2, [pdu_of ck 2 5 []])"
    by (simp add: data_packet_def Let_def fresh_receiver_def)
  then have c2: "client_at ck b s0 pool FLUSH ?info2" by (rule client_takes [OF c1 pool(2)])
  have bare: "bare w (w + 2) 3 ?info3"
    using assms(2,3)
    by (simp add: bare_def fresh_receiver_def nth_list_update zero_packet_entry_def N_def)
  have "flush_loop ?info2 = flush_loop ?info3"
    using lt N(3) by (subst flush_loop.simps) (simp add: fresh_receiver_def w)
  then have "flush_loop ?info2 = Inr ?info3" using flush_bare [OF bare] by simp
  moreover have "expected ?info3 \<le> highest ?info3" using N(4) by simp
  ultimately have "client_at ck b s0 pool OUT_OF_ORDER ?info3"
    by (intro client_takes [OF c2 pool(2) flush_asks [OF _ bare]])
  then show ?thesis using bare by (intro exI [of _ ?info3]) (simp add: far_def)
qed

subsection \<open>The equivalence\<close>

lemma wide_window_corrupts:
  assumes "0 < w" "int w + 2 < ws" "ws < 2 ^ 31" "0 < unat b" "unat b \<le> MAXBUF"
    and "(w + 1) * unat b < length f" "length f \<le> (w + 2) * unat b"
  defines "ch \<equiv> file_chunk (unat b) f"
  shows "\<exists>s. proto_reach ck b (proto_start ws (int w) f) s \<and> finished s \<and>
    expected (rinfo s) = rcv_eofSeq (rinfo s) \<and>
    outFile (rinfo s) = ch 1 @ ch (w + 2) @ concat (map ch [3..<w + 3])"
proof -
  let ?s0 = "proto_start ws (int w) f"
  have w31: "w + 2 < 2 ^ 31" using assms(2,3) by simp
  have len: "length (ch m) \<le> MAXBUF" for m
    unfolding ch_def using length_file_chunk [of "unat b" f m] assms(5) by simp
  have "int (w + 2) < ws" "(w + 2 - 1) * unat b < length f" using assms(2,6) by simp_all
  moreover have three: "w + 2 + 1 = w + 3" by simp
  ultimately obtain s where
    s: "proto_reach ck b ?s0 s" "rinfo s = fresh_receiver (int w) 0 0" "rstate s = IN_ORDER" "\<not> finished s"
    "in_pool ck ch (w + 3) (to_client s)" "pdu_of ck (word_of_nat (w + 3)) 10 [] \<in> set (to_client s)"
    using send_all_and_eof [OF assms(3-5) _ _ assms(7), of ck "int w", unfolded three] unfolding ch_def by blast
  let ?pool = "to_client s"
  have "client_at ck b ?s0 ?pool IN_ORDER (fresh_receiver (int w) 0 0)"
    unfolding client_at_def using s(1-4) by blast
  from client_overtaken [OF this assms(1) w31 s(5) len] obtain info where
    i: "client_at ck b ?s0 ?pool OUT_OF_ORDER info" "bare w (w + 2) 3 info" "outFile info = ch 1 @ ch (w + 2)"
    by blast
  have "3 \<le> w + 2" "(1 :: nat) \<le> 3" "in_pool ck ch (w + 2 + 1) ?pool"
    using assms(1) s(5) by (simp_all add: numeral_3_eq_3)
  from client_catches_all [OF i(1,2) this(1) w31 this(3,2), unfolded three] obtain info' where
    i': "client_at ck b ?s0 ?pool FLUSH info'" "bare w (w + 2) (w + 3) info'"
    "outFile info' = outFile info @ concat (map ch [3..<w + 3])"
    by blast
  have e: "expected info' = word_of_nat (w + 3)" "highest info' = word_of_nat (w + 2)"
    by (rule bareD [OF i'(2)])+
  have "unat (word_of_nat (w + 3) :: u32) = w + 3" "unat (word_of_nat (w + 2) :: u32) = w + 2"
    using w31 by (simp_all add: unat_of_nat take_bit_nat_eq_self del: of_nat_add of_nat_Suc)
  then have "highest info' < expected info'" unfolding e word_less_nat_alt by simp
  from client_stops [OF i'(1) s(6) this] obtain t where
    "proto_reach ck b ?s0 t" "finished t" "rinfo t = info'\<lparr>rcv_eofSeq := word_of_nat (w + 3), outFile_open := False\<rparr>"
    by blast
  with i(3) i'(3) e(1) show ?thesis by (intro exI [of _ t]) (simp del: of_nat_add of_nat_Suc upt_Suc)
qed

text \<open>A file whose last chunk shows up in the wrong place.\<close>

lemma telling_file:
  fixes w B :: nat
  assumes "0 < w" "0 < B"
  defines "f \<equiv> replicate ((w + 1) * B) 0 @ [1 :: byte]"
  shows "(w + 1) * B < length f" "length f \<le> (w + 2) * B"
    "file_chunk B f 1 @ file_chunk B f (w + 2) @ rest \<noteq> f"
proof -
  show "(w + 1) * B < length f" "length f \<le> (w + 2) * B" using assms(2) by (simp_all add: f_def)
  have "B < (w + 1) * B" using assms(1,2) by simp
  then have f: "file_chunk B f 1 = replicate B 0" "f ! B = 0"
    by (simp_all add: file_chunk_def f_def nth_append)
  have "file_chunk B f (w + 2) = [1]" using assms(2) by (simp add: file_chunk_def f_def)
  with f(1) have "(file_chunk B f 1 @ file_chunk B f (w + 2) @ rest) ! B = 1" by (simp add: nth_append)
  with f(2) show "file_chunk B f 1 @ file_chunk B f (w + 2) @ rest \<noteq> f" by auto
qed

text \<open>The server's window for the client's window \<open>n\<close>, compared with it.\<close>

lemma swapped_window:
  assumes "0 < n" "n < 65536"
  shows "n mod 256 \<le> n div 256 \<Longrightarrow> 0 < uint (htons (word_of_int n)) \<and> uint (htons (word_of_int n)) \<le> n"
    "n div 256 < n mod 256 \<Longrightarrow> n + 2 < uint (htons (word_of_int n))" "uint (htons (word_of_int n)) < 2 ^ 31"
proof -
  have u: "uint (htons (word_of_int n)) = 256 * (n mod 256) + n div 256"
    unfolding uint_nat using assms by (intro unat_htons) simp_all
  have n: "n = 256 * (n div 256) + n mod 256" "0 \<le> n mod 256" "n mod 256 < 256" "0 \<le> n div 256" "n div 256 < 256"
    using assms by simp_all
  show "n mod 256 \<le> n div 256 \<Longrightarrow> 0 < uint (htons (word_of_int n)) \<and> uint (htons (word_of_int n)) \<le> n"
    unfolding u using n assms(1) by linarith
  show "n div 256 < n mod 256 \<Longrightarrow> n + 2 < uint (htons (word_of_int n))" unfolding u using n by linarith
  show "uint (htons (word_of_int n)) < 2 ^ 31" unfolding u using n by simp
qed

text \<open>
  C28: The EOF packet is sent without waiting for the window to drain, and the client stops at
  it: for every file that fits into the server's window and every number \<open>j\<close> of its chunks, there
  is a run after which the client has written the first \<open>j\<close> chunks only, none at all for
  \<open>j = 0\<close>, and has acknowledged the end of the whole file.
\<close>

theorem eof_truncates:
  assumes "ws < 2 ^ 31" "0 < unat b" "unat b \<le> MAXBUF" "int n < ws"
    and "(n - 1) * unat b < length f" "length f \<le> n * unat b" "j \<le> n"
  shows "\<exists>s. proto_reach ck b (proto_start ws wc f) s \<and> finished s \<and>
    outFile (rinfo s) = take (j * unat b) f \<and> pdu_of ck (word_of_nat (n + 1)) 35 [] \<in> set (to_server s)"
proof -
  have n31: "n < 2 ^ 31" using assms(1,4) by simp
  obtain s where s: "proto_reach ck b (proto_start ws wc f) s" "rinfo s = fresh_receiver wc 0 0"
    "rstate s = IN_ORDER" "\<not> finished s" "in_pool ck (file_chunk (unat b) f) (n + 1) (to_client s)"
    "pdu_of ck (word_of_nat (n + 1)) 10 [] \<in> set (to_client s)"
    using send_all_and_eof [OF assms(1-6), of ck wc] by blast
  have "client_at ck b (proto_start ws wc f) (to_client s) IN_ORDER (fresh_receiver wc 0 0)"
    unfolding client_at_def using s(1-4) by blast
  from client_in_order [OF this s(5) n31 assms(7)] obtain info where
    i: "client_at ck b (proto_start ws wc f) (to_client s) IN_ORDER info" "expected info = word_of_nat (j + 1)"
    "highest info = word_of_nat j" "outFile info = concat (map (file_chunk (unat b) f) [1..<j + 1])" by blast
  have "unat (word_of_nat (j + 1) :: u32) = j + 1" "unat (word_of_nat j :: u32) = j"
    using n31 assms(7) by (simp_all add: unat_of_nat take_bit_nat_eq_self del: of_nat_add of_nat_Suc)
  then have "highest info < expected info" unfolding i(2,3) word_less_nat_alt by simp
  from client_stops [OF i(1) s(6) this] obtain t where
    "proto_reach ck b (proto_start ws wc f) t" "finished t" "pdu_of ck (word_of_nat (n + 1)) 35 [] \<in> set (to_server t)"
    "rinfo t = info\<lparr>rcv_eofSeq := word_of_nat (n + 1), outFile_open := False\<rparr>" by blast
  moreover from this(4) have "outFile (rinfo t) = take (j * unat b) f"
    using i(4) concat_file_chunks [of "unat b" f j] by simp
  ultimately show ?thesis by blast
qed

theorem eof_truncates_witness:
  "\<exists>s. proto_reach (\<lambda>_. 0) 2 (proto_start 4 4 [1, 2, 3]) s \<and> finished s \<and> outFile (rinfo s) = [1, 2]"
  using eof_truncates [of 4 2 2 "[1, 2, 3]" 1 "\<lambda>_. 0" 4] by (auto simp: MAXBUF_def)

text \<open>
  C5: Which window sizes are safe: for a client window \<open>n\<close> that the request can carry, every run
  of the transfer that stops with all numbers accounted for leaves an exact copy of the file if
  and only if the low byte of \<open>n\<close> is at most its high byte.  Every window below 256 is unsafe:
  the server uses \<open>256 * n\<close> slots, and one overtaking datagram makes the client write a wrong file.
\<close>

theorem safe_windows:
  assumes "0 < n" "n < 65536" "0 < unat b" "unat b \<le> MAXBUF"
  shows "(\<forall>f s. length f + 3 < 2 ^ 32 \<and>
        proto_reach ck b (proto_start (uint (htons (word_of_int n))) n f) s \<and>
        finished s \<and> expected (rinfo s) = rcv_eofSeq (rinfo s) \<longrightarrow> outFile (rinfo s) = f) \<longleftrightarrow>
    n mod 256 \<le> n div 256"
proof (cases "n mod 256 \<le> n div 256")
  case True
  note S = swapped_window(1) [OF assms(1,2) True]
  have n31: "n < 2 ^ 31" using assms(2) by simp
  have "outFile (rinfo s) = f" if h: "length f + 3 < 2 ^ 32"
    "proto_reach ck b (proto_start (uint (htons (word_of_int n))) n f) s"
    "finished s" "expected (rinfo s) = rcv_eofSeq (rinfo s)" for f s
  proof -
    obtain lo where "proto_inv ck b f lo s"
      using reach_inv [OF h(2) _ _ n31 assms(3,4) h(1)] S by blast
    then show ?thesis using h(3,4) by (rule inv_complete)
  qed
  with True show ?thesis by blast
next
  case False
  let ?w = "nat n" and ?B = "unat b"
  let ?f = "replicate ((?w + 1) * ?B) 0 @ [1 :: byte]"
  have w: "0 < ?w" "int ?w = n" using assms(1) by simp_all
  note T = telling_file [OF w(1) assms(3)]
  have big: "int ?w + 2 < uint (htons (word_of_int n))" using swapped_window(2) [OF assms(1,2)] False w(2) by simp
  obtain s where s: "proto_reach ck b (proto_start (uint (htons (word_of_int n))) n ?f) s" "finished s"
    "expected (rinfo s) = rcv_eofSeq (rinfo s)"
    "outFile (rinfo s) = file_chunk ?B ?f 1 @ file_chunk ?B ?f (?w + 2) @ concat (map (file_chunk ?B ?f) [3..<?w + 3])"
    using wide_window_corrupts [OF w(1) big swapped_window(3) [OF assms(1,2)] assms(3,4) T(1,2), of ck]
    unfolding w(2) by blast
  have "(?w + 1) * ?B \<le> 65536 * 1400" using assms(2,4) by (intro mult_le_mono) (simp_all add: MAXBUF_def)
  then have "length ?f + 3 < 2 ^ 32" by simp
  with s T(3) False show ?thesis by metis
qed

theorem safe_windows_witness:
  "\<not> (\<forall>f s. length f + 3 < 2 ^ 32 \<and>
      proto_reach (\<lambda>_. 0) 512 (proto_start (uint (htons (word_of_int 5))) 5 f) s \<and>
      finished s \<and> expected (rinfo s) = rcv_eofSeq (rinfo s) \<longrightarrow> outFile (rinfo s) = f)"
  by (subst safe_windows) (simp_all add: MAXBUF_def)

end
