(* ===== verification/Server.thy ===== *)
theory Server
  imports Sender
begin

text \<open>
  The rest of \<open>server.c\<close>: \<open>filename_state\<close>, \<open>write_file_ok_ack_state\<close>, the two EOF states,
  the state loop \<open>processClient\<close> and the dispatch of \<open>processServer\<close>.  The lemmas give the
  successor states of each state and the termination of the state loop.
\<close>

subsection \<open>\<open>filename_state\<close>\<close>

text \<open>\<open>fopen(name, "rb")\<close>: the name ends at its first zero byte; an open stream takes a descriptor.\<close>

definition fopen_read :: "byte list \<Rightarrow> (byte list \<times> nat) option prog" where
  "fopen_read name w =
     (case readable w name of
        None \<Rightarrow> (Inr None, w)
      | Some content \<Rightarrow> bnd open_fd (\<lambda>n. ret (Some (content, n))) w)"

text \<open>The copy of the name into \<open>filename[100]\<close> and its terminating zero.\<close>

definition extract_filename :: "rbuf \<Rightarrow> int \<Rightarrow> byte list res" where
  "extract_filename buf bytesRecv =
     (let filenameLen = bytesRecv - 11
      in if filenameLen < 0 then Inl OutOfBounds
         else rbind (memcpy_at 100 [] 0 (map (\<lambda>i. buf (11 + i)) [0..<nat filenameLen])) (\<lambda>filename.
              memcpy_at 100 filename (nat filenameLen) [0]))"

definition filename_state ::
    "cksum \<Rightarrow> int \<Rightarrow> rbuf \<Rightarrow> int \<Rightarrow> ServerInfo \<Rightarrow> (server_state \<times> ServerInfo) prog" where
  "filename_state ck socketNum buf bytesRecv info =
     bnd (close_fd socketNum) (\<lambda>_.
     bnd (udpServerSetup 0) (\<lambda>child.
     if child < 0 then stop_with (Exited (-1))
     else
       let wsize = load16 (buf 7) (buf 8); bsize = load16 (buf 9) (buf 10);
           info1 = info\<lparr>childSocket := child, windowSize := ntohs wsize, bufferSize := ntohs bsize\<rparr>
       in bnd (lift (to_stop (extract_filename buf bytesRecv))) (\<lambda>filename.
          let name = c_string filename
          in bnd (fopen_read name) (\<lambda>f.
             case f of
               None \<Rightarrow>
                 bnd (lift (to_stop (createPDU ck MAXBUF 0 33 name (int (length name))))) (\<lambda>errorPDU.
                 bnd (sendtoErr child errorPDU (clientAddr info1)) (\<lambda>_. ret (DONE, info1)))
             | Some (content, n) \<Rightarrow>
                 bnd (lift (to_stop (createPDU ck MAXBUF 0 9 name (int (length name))))) (\<lambda>okPDU.
                 bnd (sendtoErr child okPDU (clientAddr info1)) (\<lambda>_.
                   ret (WRITE_FILE_OK_ACK,
                        info1\<lparr>in_file := Some content, in_fd := int n, windowSize := wsize, bufferSize := bsize\<rparr>)))))))"

subsection \<open>\<open>write_file_ok_ack_state\<close>\<close>

function write_ok_loop :: "ServerInfo \<Rightarrow> nat \<Rightarrow> (server_state \<times> ServerInfo) prog" where
  "write_ok_loop info count w =
     (if count < 10
      then bnd (poll_call 1000) (\<lambda>socketReady w1.
             if socketReady \<noteq> -1
             then bnd (safeRecvfrom (childSocket info) MAXBUF) (\<lambda>r w2.
                    case r of (buf, bytesRecv, src) \<Rightarrow>
                      if bytesRecv < 0 then write_ok_loop (info\<lparr>clientAddr := src\<rparr>) count w2
                      else if hdr_flag buf = 34 then ret (SEND_DATA, info\<lparr>clientAddr := src\<rparr>) w2
                      else write_ok_loop (info\<lparr>clientAddr := src\<rparr>) count w2) w1
             else write_ok_loop info (count + 1) w1) w
      else ret (DONE, info) w)"
  by pat_completeness auto

termination
proof (relation "measures [\<lambda>(info, n, w). length (schedule w), \<lambda>(info, n, w). 10 - n]", goal_cases)
  case (2 info count w socketReady w1 r w2 buf y bytesRecv src)
  then show ?case using poll_call_schedule [of 1000 w socketReady w1]
      safeRecvfrom_schedule [of "childSocket info" MAXBUF w1 r w2] by auto
next
  case (3 info count w socketReady w1 r w2 buf y bytesRecv src)
  then show ?case using poll_call_schedule [of 1000 w socketReady w1]
      safeRecvfrom_schedule [of "childSocket info" MAXBUF w1 r w2] by auto
next
  case (4 info count w socketReady w1)
  then show ?case using poll_call_schedule [of 1000 w socketReady w1] by auto
qed simp

declare write_ok_loop.simps [simp del]

definition write_file_ok_ack_state :: "ServerInfo \<Rightarrow> (server_state \<times> ServerInfo) prog" where
  "write_file_ok_ack_state info =
     bnd setup_poll_set (\<lambda>_.
     bnd (add_to_poll_set (childSocket info)) (\<lambda>_.
       write_ok_loop info 0))"

subsection \<open>The EOF states\<close>

text \<open>
  The acceptance test of \<open>wait_on_eof_ack_state\<close>: the received checksum goes through
  \<open>ntohs\<close>, the recomputed one does not.
\<close>

definition eof_ack_accepted :: "cksum \<Rightarrow> ServerInfo \<Rightarrow> rbuf \<Rightarrow> int \<Rightarrow> bool" where
  "eof_ack_accepted ck info buf bytesRecv \<longleftrightarrow>
     (let recvChecksum = ntohs (hdr_cksum buf);
          tempBuf = map (\<lambda>i. if i = 4 \<or> i = 5 then 0 else buf i) [0..<nat bytesRecv];
          calcChecksum = ck tempBuf
      in hdr_flag buf = 35 \<and> hdr_seq buf = eofSeq info \<and> recvChecksum = calcChecksum)"

definition wait_on_eof_ack_state :: "cksum \<Rightarrow> ServerInfo \<Rightarrow> (server_state \<times> ServerInfo) prog" where
  "wait_on_eof_ack_state ck info =
     bnd (poll_call 1000) (\<lambda>pollCallTimer.
       if pollCallTimer > 0
       then bnd (safeRecvfrom (childSocket info) MAXBUF) (\<lambda>(buf, bytesRecv, src).
            let info1 = info\<lparr>clientAddr := src\<rparr>
            in if bytesRecv < 0 then ret (WAIT_ON_EOF_ACK, info1)
               else if eof_ack_accepted ck info1 buf bytesRecv then ret (DONE, info1)
               else ret (WAIT_ON_EOF_ACK, info1))
       else ret (RESEND_EOF, info))"

definition resend_eof_state :: "ServerInfo \<Rightarrow> (server_state \<times> ServerInfo) prog" where
  "resend_eof_state info =
     (if eofResendCount info \<ge> 10 then ret (DONE, info)
      else bnd (lift (to_stop (read_bytes (eofPacket info) (eofLen info)))) (\<lambda>p.
           bnd (sendtoErr (childSocket info) p (clientAddr info)) (\<lambda>_.
             ret (WAIT_ON_EOF_ACK, info\<lparr>eofResendCount := eofResendCount info + 1\<rparr>))))"

subsection \<open>\<open>processClient\<close>\<close>

text \<open>
  The local \<open>window\<close> is uninitialised (\<open>None\<close>) until the state \<open>SEND_DATA\<close>.  When
  \<open>calloc\<close> fails there, the counters the next test reads are uninitialised as well.
\<close>

definition send_data_entry ::
    "cksum \<Rightarrow> CircularQueue option \<Rightarrow> ServerInfo \<Rightarrow> (server_state \<times> CircularQueue option \<times> ServerInfo) prog" where
  "send_data_entry ck window info =
     bnd alloc (\<lambda>mem.
       case (window, mem) of
         (None, False) \<Rightarrow> stop_with (Fault Uninitialised)
       | (None, True) \<Rightarrow>
           bnd (send_data_state ck (snd (CircularQueue_init True
                  \<lparr>entries = None, WindowSize = 0, ValidCount = 0\<rparr> (uint (windowSize info)))) info)
             (\<lambda>(st, q, info1). ret (st, Some q, info1))
       | (Some old, _) \<Rightarrow>
           bnd (send_data_state ck (snd (CircularQueue_init mem old (uint (windowSize info)))) info)
             (\<lambda>(st, q, info1). ret (st, Some q, info1)))"

definition with_window ::
    "CircularQueue option \<Rightarrow> (server_state \<times> ServerInfo) prog \<Rightarrow>
     (server_state \<times> CircularQueue option \<times> ServerInfo) prog" where
  "with_window window m = bnd m (\<lambda>(st, info). ret (st, window, info))"

text \<open>One turn of the \<open>switch\<close>.\<close>

fun client_turn ::
    "cksum \<Rightarrow> int \<Rightarrow> rbuf \<Rightarrow> int \<Rightarrow> server_state \<Rightarrow> CircularQueue option \<Rightarrow> ServerInfo \<Rightarrow>
     (server_state \<times> CircularQueue option \<times> ServerInfo) prog" where
  "client_turn ck sock buf n START window info = ret (FILENAME, window, info)"
| "client_turn ck sock buf n FILENAME window info =
     with_window window (filename_state ck sock buf n info)"
| "client_turn ck sock buf n WRITE_FILE_OK_ACK window info =
     with_window window (write_file_ok_ack_state info)"
| "client_turn ck sock buf n SEND_DATA window info = send_data_entry ck window info"
| "client_turn ck sock buf n WAIT_ON_ACK window info =
     (case window of
        None \<Rightarrow> stop_with (Fault Uninitialised)
      | Some q \<Rightarrow> bnd (wait_on_ack_state ck q info) (\<lambda>(st, q1, info1). ret (st, Some q1, info1)))"
| "client_turn ck sock buf n WAIT_ON_EOF_ACK window info =
     with_window window (wait_on_eof_ack_state ck info)"
| "client_turn ck sock buf n RESEND_EOF window info =
     with_window window (resend_eof_state info)"
| "client_turn ck sock buf n DONE window info = ret (DONE, window, info)"

subsection \<open>Successors and termination of the state loop\<close>

lemma filename_state_next:
  "filename_state ck sock buf n info w = (Inr (st, info'), w') \<Longrightarrow> st = DONE \<or> st = WRITE_FILE_OK_ACK"
  by (auto simp: filename_state_def bnd_eq_Inr Let_def split: if_splits option.splits)

lemma write_ok_loop_next:
  "write_ok_loop info count w = (Inr (st, info'), w') \<Longrightarrow> st = DONE \<or> st = SEND_DATA"
proof (induction info count w rule: write_ok_loop.induct)
  case (1 info count w)
  show ?case
  proof (cases "count < 10")
    case False
    with "1.prems" show ?thesis by (subst (asm) write_ok_loop.simps) simp
  next
    case True
    with "1.prems" obtain r w1 where p: "poll_call 1000 w = (Inr r, w1)"
      and k: "(if r \<noteq> -1
             then bnd (safeRecvfrom (childSocket info) MAXBUF) (\<lambda>r w2.
                    case r of (buf, bytesRecv, src) \<Rightarrow>
                      if bytesRecv < 0 then write_ok_loop (info\<lparr>clientAddr := src\<rparr>) count w2
                      else if hdr_flag buf = 34 then ret (SEND_DATA, info\<lparr>clientAddr := src\<rparr>) w2
                      else write_ok_loop (info\<lparr>clientAddr := src\<rparr>) count w2) w1
             else write_ok_loop info (count + 1) w1) = (Inr (st, info'), w')"
      by (subst (asm) write_ok_loop.simps) (auto simp only: bnd_eq_Inr if_True)
    show ?thesis
    proof (cases "r \<noteq> -1")
      case False
      with k have "write_ok_loop info (count + 1) w1 = (Inr (st, info'), w')" by simp
      from "1.IH"(3) [OF True p False this] show ?thesis .
    next
      case rdy: True
      with k obtain buf m src w2 where rc: "safeRecvfrom (childSocket info) MAXBUF w1 = (Inr (buf, m, src), w2)"
        and d: "(if m < 0 then write_ok_loop (info\<lparr>clientAddr := src\<rparr>) count w2
            else if hdr_flag buf = 34 then ret (SEND_DATA, info\<lparr>clientAddr := src\<rparr>) w2
            else write_ok_loop (info\<lparr>clientAddr := src\<rparr>) count w2) = (Inr (st, info'), w')"
        by (auto simp: bnd_eq_Inr)
      note IH = "1.IH"(1) [OF True p rdy rc refl refl] "1.IH"(2) [OF True p rdy rc refl refl]
      from d IH show ?thesis by (auto split: if_splits)
    qed
  qed
qed

lemma write_file_ok_ack_next:
  "write_file_ok_ack_state info w = (Inr (st, info'), w') \<Longrightarrow> st = DONE \<or> st = SEND_DATA"
  by (auto simp: write_file_ok_ack_state_def bnd_eq_Inr dest: write_ok_loop_next)

lemma send_data_state_next:
  "send_data_state ck q info w = (Inr (st, q', info'), w') \<Longrightarrow> st = DONE \<or> st = WAIT_ON_EOF_ACK"
  by (auto simp: send_data_state_def bnd_eq_Inr split: if_splits)

lemma send_data_entry_next:
  "send_data_entry ck q info w = (Inr (st, q', info'), w') \<Longrightarrow> st = DONE \<or> st = WAIT_ON_EOF_ACK"
  by (auto simp: send_data_entry_def bnd_eq_Inr dest: send_data_state_next split: option.splits bool.splits)

lemma wait_on_ack_next:
  "wait_on_ack_state ck q info w = (Inr (st, q', info'), w') \<Longrightarrow> st = DONE \<or> st = SEND_DATA"
  by (auto simp: wait_on_ack_state_def bnd_eq_Inr Let_def split: if_splits)

lemma wait_on_eof_ack_next:
  assumes "wait_on_eof_ack_state ck info w = (Inr (st, info'), w')"
  shows "st = DONE \<or>
    st = WAIT_ON_EOF_ACK \<and> length (schedule w') < length (schedule w) \<or>
    st = RESEND_EOF \<and> length (schedule w') \<le> length (schedule w) \<and> info' = info"
proof -
  from assms obtain r w1 where p: "poll_call 1000 w = (Inr r, w1)"
    and k: "(if r > 0
       then bnd (safeRecvfrom (childSocket info) MAXBUF) (\<lambda>(buf, bytesRecv, src).
            let info1 = info\<lparr>clientAddr := src\<rparr>
            in if bytesRecv < 0 then ret (WAIT_ON_EOF_ACK, info1)
               else if eof_ack_accepted ck info1 buf bytesRecv then ret (DONE, info1)
               else ret (WAIT_ON_EOF_ACK, info1))
       else ret (RESEND_EOF, info)) w1 = (Inr (st, info'), w')"
    by (auto simp: wait_on_eof_ack_state_def bnd_eq_Inr)
  have le: "length (schedule w1) \<le> length (schedule w)" using poll_call_schedule [OF p] by auto
  show ?thesis
  proof (cases "r > 0")
    case False
    with k le show ?thesis by simp
  next
    case True
    with k obtain x where "safeRecvfrom (childSocket info) MAXBUF w1 = (Inr x, w')"
      "st = DONE \<or> st = WAIT_ON_EOF_ACK"
      by (auto simp: bnd_eq_Inr Let_def split: if_splits)
    with le safeRecvfrom_schedule [OF this(1)] show ?thesis by auto
  qed
qed

lemma resend_eof_next:
  "resend_eof_state info w = (Inr (st, info'), w') \<Longrightarrow>
   st = DONE \<or> st = WAIT_ON_EOF_ACK \<and> eofResendCount info < 10 \<and>
     eofResendCount info' = eofResendCount info + 1 \<and> schedule w' = schedule w"
  by (auto simp: resend_eof_state_def bnd_eq_Inr sendtoErr_def split: if_splits)

fun phase :: "server_state \<Rightarrow> nat" where
  "phase START = 6"
| "phase FILENAME = 5"
| "phase WRITE_FILE_OK_ACK = 4"
| "phase WAIT_ON_ACK = 3"
| "phase SEND_DATA = 2"
| "phase WAIT_ON_EOF_ACK = 1"
| "phase RESEND_EOF = 1"
| "phase DONE = 0"

lemma with_window_eq_Inr:
  "with_window window m w = (Inr (st, window', info'), w') \<longleftrightarrow>
   m w = (Inr (st, info'), w') \<and> window' = window"
  by (auto simp: with_window_def bnd_eq_Inr)

lemma client_turn_progress:
  assumes "client_turn ck sock buf n st window info w = (Inr (st', window', info'), w')" "st \<noteq> DONE"
  shows "phase st' < phase st \<or> phase st' = phase st \<and>
    (length (schedule w') < length (schedule w) \<or> length (schedule w') = length (schedule w) \<and>
      (nat (10 - eofResendCount info') < nat (10 - eofResendCount info) \<or>
       eofResendCount info' = eofResendCount info \<and> st = WAIT_ON_EOF_ACK \<and> st' = RESEND_EOF))"
proof (cases st)
  case FILENAME
  with assms show ?thesis by (auto simp: with_window_eq_Inr dest!: filename_state_next)
next
  case WRITE_FILE_OK_ACK
  with assms show ?thesis by (auto simp: with_window_eq_Inr dest!: write_file_ok_ack_next)
next
  case SEND_DATA
  with assms show ?thesis by (auto dest!: send_data_entry_next)
next
  case WAIT_ON_ACK
  with assms show ?thesis by (auto simp: bnd_eq_Inr split: option.splits dest!: wait_on_ack_next)
next
  case WAIT_ON_EOF_ACK
  with assms show ?thesis by (auto simp: with_window_eq_Inr dest!: wait_on_eof_ack_next)
next
  case RESEND_EOF
  with assms show ?thesis by (auto simp: with_window_eq_Inr dest!: resend_eof_next)
qed (use assms in auto)

function client_loop ::
    "cksum \<Rightarrow> int \<Rightarrow> rbuf \<Rightarrow> int \<Rightarrow> server_state \<Rightarrow> CircularQueue option \<Rightarrow> ServerInfo \<Rightarrow>
     (CircularQueue option \<times> ServerInfo) prog" where
  "client_loop ck sock buf n st window info w =
     (if st = DONE then ret (window, info) w
      else bnd (client_turn ck sock buf n st window info) (\<lambda>r w1.
             case r of (st1, window1, info1) \<Rightarrow> client_loop ck sock buf n st1 window1 info1 w1) w)"
  by pat_completeness auto
termination
proof (relation "measures [\<lambda>(ck, sock, buf, n, st, q, info, w). phase st,
    \<lambda>(ck, sock, buf, n, st, q, info, w). length (schedule w),
    \<lambda>(ck, sock, buf, n, st, q, info, w). nat (10 - eofResendCount info),
    \<lambda>(ck, sock, buf, n, st, q, info, w). if st = WAIT_ON_EOF_ACK then 1 else 0]", goal_cases)
  case (2 ck sock buf n st window info w r w1 st1 y window1 info1)
  then show ?case using client_turn_progress [of ck sock buf n st window info w st1 window1 info1 w1]
    by auto
qed simp

declare client_loop.simps [simp del]

text \<open>The clean-up after the state loop: free the window, \<open>fclose(info.file)\<close>, close the socket.\<close>

definition clean_up :: "CircularQueue option \<Rightarrow> ServerInfo \<Rightarrow> unit prog" where
  "clean_up window info =
     bnd (if windowSize info > 0
          then (case window of
                  None \<Rightarrow> stop_with (Fault Uninitialised)
                | Some q \<Rightarrow> bnd (lift (to_stop (CircularQueue_free q))) (\<lambda>_. ret ()))
          else ret ()) (\<lambda>_.
     bnd (case in_file info of None \<Rightarrow> stop_with (Fault NullPointer) | Some _ \<Rightarrow> close_fd (in_fd info)) (\<lambda>_.
       close_fd (childSocket info)))"

definition processClient :: "cksum \<Rightarrow> addr \<Rightarrow> int \<Rightarrow> rbuf \<Rightarrow> int \<Rightarrow> unit prog" where
  "processClient ck client sock buf bytesRecv =
     bnd (client_loop ck sock buf bytesRecv START None (initial_info client)) (\<lambda>(window, info).
       clean_up window info)"

subsection \<open>\<open>processServer\<close>\<close>

text \<open>
  One turn of the dispatch loop up to \<open>fork\<close>: \<open>Some\<close> is a child to start, with the request
  it was started for.  A failed \<open>fork\<close> ends the server.
\<close>

definition server_turn :: "bool \<Rightarrow> int \<Rightarrow> (rbuf \<times> int \<times> addr) option prog" where
  "server_turn fork_ok socketNum =
     bnd (safeRecvfrom socketNum MAXBUF) (\<lambda>(buf, bytesRecv, src).
       if bytesRecv < 0 then ret None
       else if hdr_flag buf = 8
       then (if fork_ok then ret (Some (buf, bytesRecv, src)) else stop_with (Exited (-1)))
       else ret None)"

text \<open>
  The child runs \<open>processClient\<close> and, when that returns, falls back into the dispatch loop
  of \<open>processServer\<close> with the descriptor \<open>filename_state\<close> closed.
\<close>

definition child_process :: "cksum \<Rightarrow> addr \<Rightarrow> int \<Rightarrow> rbuf \<Rightarrow> int \<Rightarrow> (rbuf \<times> int \<times> addr) option prog" where
  "child_process ck client socketNum buf bytesRecv =
     bnd (processClient ck client socketNum buf bytesRecv) (\<lambda>_. server_turn True socketNum)"

lemma server_turn_schedule:
  "server_turn f sock w = (Inr c, w1) \<Longrightarrow> length (schedule w1) < length (schedule w)"
  by (auto simp: server_turn_def bnd_eq_Inr split: if_splits dest!: safeRecvfrom_schedule)

text \<open>
  The dispatch loop: the children it starts, in order, and how it ends.  \<open>forks n\<close> tells
  whether \<open>fork\<close> succeeds with \<open>n\<close> events left.
\<close>

function processServer ::
    "(nat \<Rightarrow> bool) \<Rightarrow> int \<Rightarrow> world \<Rightarrow> (rbuf \<times> int \<times> addr) list \<times> stop \<times> world" where
  "processServer forks sock w =
     (case server_turn (forks (length (schedule w))) sock w of
        (Inl s, w1) \<Rightarrow> ([], s, w1)
      | (Inr c, w1) \<Rightarrow>
          (case processServer forks sock w1 of
             (cs, s, w2) \<Rightarrow> ((case c of None \<Rightarrow> cs | Some x \<Rightarrow> x # cs), s, w2)))"
  by pat_completeness auto

termination
  by (relation "measure (\<lambda>(forks, sock, w). length (schedule w))")
     (auto dest: server_turn_schedule [OF sym])

declare processServer.simps [simp del]

text \<open>
  The handler of \<open>SIGCHLD\<close>.  The kernel's table of children holds their numbers and whether they
  have ended; \<open>waitpid(-1, NULL, WNOHANG)\<close> takes an ended child out of it, returns 0 when all
  are running and fails without children.
\<close>

fun take_ended :: "(int \<times> bool) list \<Rightarrow> (int \<times> (int \<times> bool) list) option" where
  "take_ended [] = None"
| "take_ended ((pid, dead) # cs) =
     (if dead then Some (pid, cs)
      else map_option (\<lambda>(p, cs'). (p, (pid, dead) # cs')) (take_ended cs))"

definition waitpid_nohang :: "(int \<times> bool) list \<Rightarrow> int \<times> (int \<times> bool) list" where
  "waitpid_nohang cs =
     (if cs = [] then (-1, []) else case take_ended cs of None \<Rightarrow> (0, cs) | Some r \<Rightarrow> r)"

lemma take_ended_shorter: "take_ended cs = Some (p, cs') \<Longrightarrow> length cs = Suc (length cs')"
  by (induction cs arbitrary: p cs' rule: take_ended.induct) (auto split: if_splits)

function handleZombies :: "(int \<times> bool) list \<Rightarrow> (int \<times> bool) list" where
  "handleZombies cs = (case waitpid_nohang cs of (r, cs') \<Rightarrow> if r > 0 then handleZombies cs' else cs')"
  by pat_completeness auto

termination
  by (relation "measure length")
     (auto simp: waitpid_nohang_def split: if_splits option.splits dest: take_ended_shorter)

declare handleZombies.simps [simp del]

lemma take_ended_None: "take_ended cs = None \<Longrightarrow> filter (\<lambda>c. \<not> snd c) cs = cs"
  by (induction cs rule: take_ended.induct) (auto split: if_splits)

lemma take_ended_Some:
  "take_ended cs = Some (p, cs') \<Longrightarrow> \<exists>xs ys. cs = xs @ (p, True) # ys \<and> cs' = xs @ ys"
proof (induction cs arbitrary: p cs' rule: take_ended.induct)
  case (2 pid dead cs)
  show ?case
  proof (cases dead)
    case True
    with "2.prems" show ?thesis by (intro exI [of _ "[]"] exI [of _ cs]) simp
  next
    case False
    with "2.prems" obtain r where r: "take_ended cs = Some (p, r)" "cs' = (pid, dead) # r" by auto
    from "2.IH" [OF False r(1)] obtain xs ys where "cs = xs @ (p, True) # ys" "r = xs @ ys" by blast
    with r(2) show ?thesis by (intro exI [of _ "(pid, dead) # xs"] exI [of _ ys]) simp
  qed
qed simp

lemma handleZombies_reaps:
  "\<forall>c \<in> set cs. 0 < fst c \<Longrightarrow> handleZombies cs = filter (\<lambda>c. \<not> snd c) cs"
proof (induction cs rule: handleZombies.induct)
  case (1 cs)
  show ?case
  proof (cases "take_ended cs")
    case None
    then show ?thesis using take_ended_None [OF None]
      by (subst handleZombies.simps) (simp add: waitpid_nohang_def)
  next
    case (Some r)
    obtain p cs' where r: "r = (p, cs')" by (cases r)
    have w: "waitpid_nohang cs = (p, cs')" using Some r by (auto simp: waitpid_nohang_def)
    obtain xs ys where "cs = xs @ (p, True) # ys" "cs' = xs @ ys"
      using take_ended_Some [OF Some [unfolded r]] by blast
    then have F: "0 < p" "\<forall>c \<in> set cs'. 0 < fst c"
      "filter (\<lambda>c. \<not> snd c) cs' = filter (\<lambda>c. \<not> snd c) cs" using "1.prems" by auto
    with "1.IH" [OF w [symmetric] F(1,2)] w show ?thesis by (subst handleZombies.simps) simp
  qed
qed

subsection \<open>\<open>main\<close>\<close>

definition server_checkArgs :: "byte list list \<Rightarrow> stop + int" where
  "server_checkArgs argv =
     (if length argv > 3 \<or> length argv = 1 then Inl (Exited (-1))
      else if length argv = 3 then Inr (atoi (argv ! 2))
      else Inr 0)"

definition getErrorRate :: "(byte list \<Rightarrow> c_float) \<Rightarrow> byte list list \<Rightarrow> stop + c_float" where
  "getErrorRate to_float argv =
     (if length argv = 3 \<or> length argv = 2
      then (let errorRate = to_float (argv ! 1)
            in if bad_error_rate errorRate then Inl (Exited (-1)) else Inr errorRate)
      else Inr (Some 0))"

text \<open>The children \<open>main\<close> of the server starts and how it ends.\<close>

definition server_main ::
    "(nat \<Rightarrow> bool) \<Rightarrow> (byte list \<Rightarrow> c_float) \<Rightarrow> byte list list \<Rightarrow> world \<Rightarrow>
     (rbuf \<times> int \<times> addr) list \<times> stop \<times> world" where
  "server_main forks to_float argv w =
     (case bnd (lift (server_checkArgs argv)) (\<lambda>portNumber.
           bnd (udpServerSetup portNumber) (\<lambda>mainSocketNum.
           bnd (lift (getErrorRate to_float argv)) (\<lambda>_. ret mainSocketNum))) w of
        (Inl s, w1) \<Rightarrow> ([], s, w1)
      | (Inr mainSocketNum, w1) \<Rightarrow> processServer forks mainSocketNum w1)"

subsection \<open>Runs over quiet intervals and single datagrams\<close>

lemma write_ok_quiet:
  "pset_sane w \<Longrightarrow> schedule w = replicate (10 - k) Quiet @ es \<Longrightarrow> k \<le> 10 \<Longrightarrow>
   write_ok_loop info k w = (Inr (DONE, info), w\<lparr>schedule := es\<rparr>)"
proof (induction "10 - k" arbitrary: k w)
  case 0
  then show ?case by (subst write_ok_loop.simps) simp
next
  case (Suc j)
  have lt: "k < 10" using Suc.hyps(2) by simp
  have sch: "schedule w = Quiet # replicate (10 - (k + 1)) Quiet @ es"
    using Suc.prems(2) Suc.hyps(2) by (simp add: Suc_diff_le flip: replicate_Suc)
  let ?w = "w\<lparr>schedule := replicate (10 - (k + 1)) Quiet @ es\<rparr>"
  have "write_ok_loop info k w = write_ok_loop info (k + 1) ?w"
    using poll_call_quiet [OF Suc.prems(1) sch, of 1000] lt
    by (subst write_ok_loop.simps) simp
  also have "\<dots> = (Inr (DONE, info), ?w\<lparr>schedule := es\<rparr>)"
  proof (rule Suc.hyps(1))
    show "j = 10 - (k + 1)" "k + 1 \<le> 10" using Suc.hyps(2) by auto
  qed (use Suc.prems(1) in \<open>simp_all add: pset_sane_def\<close>)
  finally show ?case by simp
qed

text \<open>Waiting for the EOF acknowledgement: every silent second up to the tenth sends the EOF again.\<close>

lemma client_loop_eof_resends:
  assumes "pset_sane w" "schedule w = replicate r Quiet @ es" "eofResendCount info = int k" "k + r \<le> 10"
    and "eofLen info = int (length (eofPacket info))"
  shows "client_loop ck sock buf n WAIT_ON_EOF_ACK q info w =
    client_loop ck sock buf n WAIT_ON_EOF_ACK q (info\<lparr>eofResendCount := int (k + r)\<rparr>) (w\<lparr>schedule := es,
       sent := sent w @ replicate r (childSocket info, eofPacket info, clientAddr info)\<rparr>)"
  using assms
proof (induction r arbitrary: k info w)
  case 0
  then have same: "info\<lparr>eofResendCount := int (k + 0)\<rparr> = info"
    "w\<lparr>schedule := es, sent := sent w @ replicate 0 (childSocket info, eofPacket info, clientAddr info)\<rparr> = w"
    by simp_all
  show ?case unfolding same by (rule refl)
next
  case (Suc r)
  let ?m = "(childSocket info, eofPacket info, clientAddr info)"
  have lt: "k < 10" using Suc.prems(4) by simp
  have sch: "schedule w = Quiet # replicate r Quiet @ es" using Suc.prems(2) by simp
  let ?w = "w\<lparr>schedule := replicate r Quiet @ es\<rparr>"
  let ?info = "info\<lparr>eofResendCount := int (k + 1)\<rparr>"
  have "client_loop ck sock buf n WAIT_ON_EOF_ACK q info w =
    client_loop ck sock buf n RESEND_EOF q info ?w"
    using poll_call_quiet [OF Suc.prems(1) sch, of 1000]
    by (subst client_loop.simps) (simp add: with_window_def wait_on_eof_ack_state_def bnd_def)
  also have "\<dots> = client_loop ck sock buf n WAIT_ON_EOF_ACK q ?info (?w\<lparr>sent := sent w @ [?m]\<rparr>)"
    using Suc.prems(3,5) lt
    by (subst client_loop.simps)
       (simp add: with_window_def resend_eof_state_def sendtoErr_def bnd_def add.commute)
  finally show ?case
    using Suc.IH [of "?w\<lparr>sent := sent w @ [?m]\<rparr>" ?info "k + 1"] Suc.prems(1,4,5) by (simp add: pset_sane_def)
qed

lemma client_loop_eof_quiet:
  assumes "pset_sane w" "schedule w = Quiet # es" "eofResendCount info = 10"
  shows "client_loop ck sock buf n WAIT_ON_EOF_ACK q info w = (Inr (q, info), w\<lparr>schedule := es\<rparr>)"
proof -
  have "client_loop ck sock buf n WAIT_ON_EOF_ACK q info w =
    client_loop ck sock buf n RESEND_EOF q info (w\<lparr>schedule := es\<rparr>)"
    using poll_call_quiet [OF assms(1,2), of 1000]
    by (subst client_loop.simps) (simp add: with_window_def wait_on_eof_ack_state_def bnd_def)
  also have "\<dots> = client_loop ck sock buf n DONE q info (w\<lparr>schedule := es\<rparr>)"
    using assms(3) by (subst client_loop.simps) (simp add: with_window_def resend_eof_state_def)
  also have "\<dots> = (Inr (q, info), w\<lparr>schedule := es\<rparr>)" by (subst client_loop.simps) simp
  finally show ?thesis .
qed

lemma client_loop_eof_acked:
  assumes "single (childSocket info) (pset w)" "is_open w (childSocket info)" "0 < childSocket info"
    and "schedule w = Arrive d src # es" "length d \<le> MAXBUF"
    and "\<And>jk. eof_ack_accepted ck (info\<lparr>clientAddr := src\<rparr>) (rbuf_of d jk) (int (length d))"
  shows "client_loop ck sock buf n WAIT_ON_EOF_ACK q info w =
    (Inr (q, info\<lparr>clientAddr := src\<rparr>), w\<lparr>schedule := es\<rparr>)"
proof -
  have "client_loop ck sock buf n WAIT_ON_EOF_ACK q info w =
    client_loop ck sock buf n DONE q (info\<lparr>clientAddr := src\<rparr>) (w\<lparr>schedule := es\<rparr>)"
    using poll_call_arrive [OF assms(1,4), of 1000] safeRecvfrom_arrive [OF assms(2,4,5)] assms(3,6)
    by (subst client_loop.simps) (simp add: with_window_def wait_on_eof_ack_state_def bnd_def Let_def)
  also have "\<dots> = (Inr (q, info\<lparr>clientAddr := src\<rparr>), w\<lparr>schedule := es\<rparr>)"
    by (subst client_loop.simps) simp
  finally show ?thesis .
qed

text \<open>The name of a request of 11 to 110 bytes.\<close>

lemma requested_name:
  assumes "11 \<le> n" "n \<le> 110" "name = c_string (map (\<lambda>i. buf (11 + i)) [0..<nat (n - 11)])"
  shows "\<exists>bytes. extract_filename buf n = Inr bytes \<and> c_string bytes = name" "length name \<le> 99"
proof -
  let ?bytes = "map (\<lambda>i. buf (11 + i)) [0..<nat (n - 11)]"
  have "extract_filename buf n = Inr (?bytes @ [0])"
    using assms(1,2) by (auto simp: extract_filename_def Let_def memcpy_at_def)
  moreover have "c_string (?bytes @ [0]) = name" unfolding assms(3) by (rule c_string_terminated)
  ultimately show "\<exists>bytes. extract_filename buf n = Inr bytes \<and> c_string bytes = name" by blast
  show "length name \<le> 99"
    unfolding assms(3) c_string_def
    using length_takeWhile_le [of "\<lambda>c. c \<noteq> 0" ?bytes] assms(2) by simp
qed

lemma filename_state_found:
  assumes "11 \<le> n" "n \<le> 110" "name = c_string (map (\<lambda>i. buf (11 + i)) [0..<nat (n - 11)])"
    and "sockets_ok w" "readable w name = Some f"
    and "fds = filter (\<lambda>i. int i \<noteq> sock) (open_fds w)" "c = lowest_free fds" "strm = lowest_free (c # fds)"
  shows "filename_state ck sock buf n info w =
    (Inr (WRITE_FILE_OK_ACK, info\<lparr>childSocket := int c, in_file := Some f, in_fd := int strm,
        windowSize := load16 (buf 7) (buf 8), bufferSize := load16 (buf 9) (buf 10)\<rparr>),
     w\<lparr>open_fds := strm # c # fds, sent := sent w @ [(int c, pdu_of ck 0 9 name, clientAddr info)]\<rparr>)"
proof -
  obtain bytes where ex: "extract_filename buf n = Inr bytes" "c_string bytes = name"
    using requested_name(1) [OF assms(1-3)] by blast
  have "createPDU ck MAXBUF 0 9 name (int (length name)) = Inr (pdu_of ck 0 9 name)"
    using requested_name(2) [OF assms(1-3)] by (simp add: createPDU_full MAXBUF_def)
  then show ?thesis using assms(4-8) ex
    by (simp add: filename_state_def close_fd_def udpServerSetup_eq Let_def fopen_read_def open_fd_def
        sendtoErr_def bnd_def)
qed

text \<open>The acknowledgement of OK starts the data phase.\<close>

lemma handshake_start:
  assumes "heap w = (\<lambda>_. True)" "is_open w (childSocket info)" "maxFileDescriptor (pset w) \<le> childSocket info + 1"
    and "schedule w = Arrive d src # es" "7 \<le> length d" "length d \<le> MAXBUF" "d ! 6 = 34"
  obtains ps m where "write_file_ok_ack_state info w =
      (Inr (SEND_DATA, info\<lparr>clientAddr := src\<rparr>), w\<lparr>allocs := m, pset := ps, schedule := es\<rparr>)"
    "single (childSocket info) ps"
proof -
  have pos: "0 \<le> childSocket info" using assms(2) by (simp add: is_open_def)
  from setup_poll_ready [OF assms(1) pos assms(3), of "\<lambda>_. write_ok_loop info 0"] obtain ps m where
    s: "write_file_ok_ack_state info w = write_ok_loop info 0 (w\<lparr>allocs := m, pset := ps\<rparr>)"
    "single (childSocket info) ps" unfolding write_file_ok_ack_state_def by metis
  let ?w = "w\<lparr>allocs := m, pset := ps\<rparr>"
  have sg: "single (childSocket info) (pset ?w)" "is_open ?w (childSocket info)" "schedule ?w = Arrive d src # es"
    using s(2) assms(2,4) by (simp_all add: is_open_def)
  have "hdr_flag (rbuf_of d jk) = 34" for jk using assms(5,7) by (simp add: hdr_flag_def rbuf_of_def)
  then have "write_ok_loop info 0 ?w = (Inr (SEND_DATA, info\<lparr>clientAddr := src\<rparr>), ?w\<lparr>schedule := es\<rparr>)"
    using poll_call_arrive [OF sg(1,3), of 1000] safeRecvfrom_arrive [OF sg(2,3) assms(6)] pos
    by (subst write_ok_loop.simps) simp
  with s that show thesis by simp
qed

subsection \<open>Properties\<close>

text \<open>
  The file name of a request is copied and terminated without leaving \<open>filename[100]\<close>
  exactly when it has at most 99 bytes (a request of 11 to 110 bytes); any other request
  length, longer or shorter than the fixed fields, writes outside the array.
\<close>

lemma extract_filename_spec:
  "extract_filename buf n = Inr name \<longleftrightarrow>
     11 \<le> n \<and> n \<le> 110 \<and> name = map (\<lambda>i. buf (11 + i)) [0..<nat (n - 11)] @ [0]"
  by (auto simp: extract_filename_def Let_def memcpy_at_def)

text \<open>
  C22: In \<open>WRITE_FILE_OK_ACK\<close> ten silent seconds end the session, and a datagram with flag 34
  starts the data phase towards the address it came from.
\<close>

theorem handshake:
  assumes "heap w = (\<lambda>_. True)" "0 \<le> childSocket info" "maxFileDescriptor (pset w) \<le> childSocket info + 1"
    and "schedule w = replicate 10 Quiet @ es \<and> st = DONE \<and> to = clientAddr info \<or>
         schedule w = Arrive d to # es \<and> length d \<le> MAXBUF \<and> 7 \<le> length d \<and> d ! 6 = 34 \<and>
         is_open w (childSocket info) \<and> st = SEND_DATA"
  shows "\<exists>w'. write_file_ok_ack_state info w = (Inr (st, info\<lparr>clientAddr := to\<rparr>), w') \<and>
    schedule w' = es \<and> sent w' = sent w"
proof -
  from setup_poll_ready [OF assms(1-3), of "\<lambda>_. write_ok_loop info 0"] obtain ps n where
    s: "write_file_ok_ack_state info w = write_ok_loop info 0 (w\<lparr>allocs := n, pset := ps\<rparr>)"
    "single (childSocket info) ps" unfolding write_file_ok_ack_state_def by metis
  let ?w = "w\<lparr>allocs := n, pset := ps\<rparr>"
  have sg: "single (childSocket info) (pset ?w)" using s(2) by simp
  from assms(4) show ?thesis
  proof
    assume a: "schedule w = replicate 10 Quiet @ es \<and> st = DONE \<and> to = clientAddr info"
    then have "schedule ?w = replicate (10 - 0) Quiet @ es" by simp
    from write_ok_quiet [OF single_sane [OF sg] this, of info] a s(1) show ?thesis by simp
  next
    assume a: "schedule w = Arrive d to # es \<and> length d \<le> MAXBUF \<and> 7 \<le> length d \<and> d ! 6 = 34 \<and>
         is_open w (childSocket info) \<and> st = SEND_DATA"
    then show ?thesis using handshake_start [OF assms(1) _ assms(3), of d to es] by fastforce
  qed
qed

theorem handshake_witness:
  "\<exists>w'. write_file_ok_ack_state (initial_info 7\<lparr>childSocket := 2\<rparr>)
     (start_world [Arrive (pdu_of (\<lambda>_. 0) 0 34 []) 9]) =
     (Inr (SEND_DATA, initial_info 7\<lparr>childSocket := 2, clientAddr := 9\<rparr>), w')"
  using handshake [of "start_world [Arrive (pdu_of (\<lambda>_. 0) 0 34 []) 9]" "initial_info 7\<lparr>childSocket := 2\<rparr>"
      "[]" SEND_DATA 9 "pdu_of (\<lambda>_. 0) 0 34 []"]
  by (auto simp: start_world_def initial_pollset_def initial_info_def is_open_def MAXBUF_def nth_pdu_of)

text \<open>
  C21: An EOF that is never acknowledged is sent again after each silent second, ten times in
  all, and after the eleventh second the session is over; the window is untouched.
\<close>

theorem unanswered_eof:
  assumes "pset_sane w" "schedule w = replicate 11 Quiet @ es"
    and "eofResendCount info = 0" "eofLen info = int (length (eofPacket info))"
  shows "client_loop ck sock buf n WAIT_ON_EOF_ACK q info w =
    (Inr (q, info\<lparr>eofResendCount := 10\<rparr>), w\<lparr>schedule := es,
       sent := sent w @ replicate 10 (childSocket info, eofPacket info, clientAddr info)\<rparr>)"
proof -
  have "schedule w = replicate 10 Quiet @ Quiet # es" using assms(2) by (simp add: replicate_append_same
        flip: replicate_Suc append_Cons)
  then show ?thesis
    using client_loop_eof_resends [OF assms(1), of 10 "Quiet # es" info 0] assms(1,3,4)
    by (simp add: client_loop_eof_quiet pset_sane_def)
qed

theorem unanswered_eof_witness:
  "\<exists>w'. client_loop (\<lambda>_. 0) 3 (\<lambda>_. 0) 12 WAIT_ON_EOF_ACK None
     (initial_info 9\<lparr>eofPacket := pdu_of (\<lambda>_. 0) 3 10 [], eofLen := 7\<rparr>) (start_world (replicate 11 Quiet)) =
   (Inr (None, initial_info 9\<lparr>eofPacket := pdu_of (\<lambda>_. 0) 3 10 [], eofLen := 7, eofResendCount := 10\<rparr>), w') \<and>
   sent w' = replicate 10 (0, pdu_of (\<lambda>_. 0) 3 10 [], 9)"
  using unanswered_eof [of "start_world (replicate 11 Quiet)" "[]"
      "initial_info 9\<lparr>eofPacket := pdu_of (\<lambda>_. 0) 3 10 [], eofLen := 7\<rparr>" "\<lambda>_. 0" 3 "\<lambda>_. 0" 12 None]
  by (simp add: start_world_def pset_sane_def initial_pollset_def initial_info_def)

text \<open>
  C31: A request for a file the server cannot open is answered with the error PDU (flag 33)
  carrying the name; then the clean-up of \<open>processClient\<close> crashes: it frees a window that
  was never initialised, or, when the window size sent is 0, closes a \<open>NULL\<close> stream.
\<close>

theorem missing_file:
  assumes "11 \<le> n" "n \<le> 110" "sockets_ok w"
    and "name = c_string (map (\<lambda>i. buf (11 + i)) [0..<nat (n - 11)])" "readable w name = None"
  shows "\<exists>w' child. processClient ck client sock buf n w =
      (Inl (Fault (if load16 (buf 7) (buf 8) = 0 then NullPointer else Uninitialised)), w') \<and>
    sent w' = sent w @ [(child, pdu_of ck 0 33 name, client)]"
proof -
  obtain bytes where ex: "extract_filename buf n = Inr bytes" "c_string bytes = name"
    using requested_name(1) [OF assms(1,2,4)] by blast
  have pdu: "createPDU ck MAXBUF 0 33 name (int (length name)) = Inr (pdu_of ck 0 33 name)"
    using requested_name(2) [OF assms(1,2,4)] by (simp add: createPDU_full MAXBUF_def)
  let ?fds = "filter (\<lambda>i. int i \<noteq> sock) (open_fds w)"
  let ?c = "lowest_free ?fds"
  let ?info = "initial_info client\<lparr>childSocket := int ?c, windowSize := htons (load16 (buf 7) (buf 8)),
    bufferSize := htons (load16 (buf 9) (buf 10))\<rparr>"
  let ?w = "w\<lparr>open_fds := ?c # ?fds, sent := sent w @ [(int ?c, pdu_of ck 0 33 name, client)]\<rparr>"
  have "filename_state ck sock buf n (initial_info client) w = (Inr (DONE, ?info), ?w)"
    using assms(3,5) ex pdu
    by (simp add: filename_state_def close_fd_def udpServerSetup_eq Let_def fopen_read_def sendtoErr_def
        bnd_def initial_info_def)
  then have "client_loop ck sock buf n START None (initial_info client) w = (Inr (None, ?info), ?w)"
    by (subst client_loop.simps, simp, subst client_loop.simps, simp add: with_window_def bnd_def)
       (subst client_loop.simps, simp)
  moreover have "0 < htons x \<longleftrightarrow> x \<noteq> 0" for x
    using htons_eq_0_iff [of x] by (simp add: word_neq_0_conv [symmetric] del: htons_eq_0_iff)
  ultimately show ?thesis
    by (auto simp: processClient_def clean_up_def initial_info_def bnd_def)
qed

theorem missing_file_witness:
  "\<exists>w'. processClient (\<lambda>_. 0) 9 3 (rbuf_of (pdu_of (\<lambda>_. 0) 0 8 [4, 0, 2, 0, 97]) (\<lambda>_. 0)) 12 (start_world []) =
     (Inl (Fault Uninitialised), w')"
  using missing_file [of 12 "start_world []" "[97]" "rbuf_of (pdu_of (\<lambda>_. 0) 0 8 [4, 0, 2, 0, 97]) (\<lambda>_. 0)"
      "\<lambda>_. 0" 9 3]
  by (auto simp: start_world_def rbuf_of_def pdu_of_def store32_def store16_def c_string_def load16_def)

text \<open>The children a run of the dispatch loop starts.\<close>

definition child_for :: "byte list \<times> addr \<Rightarrow> rbuf \<times> int \<times> addr \<Rightarrow> bool" where
  "child_for x c \<longleftrightarrow> snd c = (int (length (fst x)), snd x) \<and> (\<exists>jk. fst c = rbuf_of (fst x) jk)"

lemma dispatch_children:
  assumes "is_open w sock" "\<And>k. forks k"
    and "schedule w = map (\<lambda>(d, a). Arrive d a) ds" "\<forall>(d, a) \<in> set ds. 7 \<le> length d \<and> length d \<le> MAXBUF"
  shows "\<exists>cs. processServer forks sock w = (cs, Blocked, w\<lparr>schedule := []\<rparr>) \<and>
    list_all2 child_for (filter (\<lambda>(d, a). d ! 6 = 8) ds) cs"
  using assms(1,3,4)
proof (induction ds arbitrary: w)
  case Nil
  then show ?case
    by (subst processServer.simps)
       (simp add: server_turn_def safeRecvfrom_def recvfrom_def bnd_def Let_def)
next
  case (Cons x ds)
  obtain d a where x: "x = (d, a)" by (cases x)
  let ?w = "w\<lparr>schedule := map (\<lambda>(d, a). Arrive d a) ds\<rparr>"
  let ?b = "rbuf_of d (junk w (Suc (length ds)))"
  have sch: "schedule w = Arrive d a # map (\<lambda>(d, a). Arrive d a) ds" using Cons.prems(2) x by simp
  have len: "7 \<le> length d" "length d \<le> MAXBUF" using Cons.prems(3) x by auto
  have fl: "hdr_flag ?b = d ! 6" using len by (simp add: hdr_flag_def rbuf_of_def)
  have turn: "server_turn (forks k) sock w =
      (Inr (if d ! 6 = 8 then Some (?b, int (length d), a) else None), ?w)" for k
    using safeRecvfrom_arrive [OF Cons.prems(1) sch len(2)] assms(2) fl
    by (simp add: server_turn_def bnd_def)
  obtain cs where IH: "processServer forks sock ?w = (cs, Blocked, ?w\<lparr>schedule := []\<rparr>)"
    "list_all2 child_for (filter (\<lambda>(d, a). d ! 6 = 8) ds) cs"
    using Cons.IH [of ?w] Cons.prems by (auto simp: is_open_def)
  have "child_for x (?b, int (length d), a)" unfolding child_for_def x by auto
  with IH x show ?case by (subst processServer.simps) (auto simp: turn)
qed



text \<open>From the acknowledgement of OK through a quiet data phase.\<close>

lemma client_loop_data:
  assumes "n < unat (windowSize info)" "b = unat (bufferSize info)" "0 < b" "b \<le> MAXBUF"
    and "0 < n \<Longrightarrow> (n - 1) * b < length f" "length f \<le> n * b" "in_file info = Some f"
    and "heap w = (\<lambda>_. True)" "is_open w (childSocket info)" "maxFileDescriptor (pset w) \<le> childSocket info + 1"
    and "7 \<le> length d" "length d \<le> MAXBUF" "d ! 6 = 34" "schedule w = Arrive d src # replicate n Quiet @ es"
  shows "\<exists>q w'. client_loop ck sock buf len WRITE_FILE_OK_ACK None info w =
      client_loop ck sock buf len WAIT_ON_EOF_ACK (Some q)
        (info\<lparr>clientAddr := src, in_file := Some [], eofPacket := pdu_of ck (word_of_nat (n + 1)) 10 [],
          eofLen := 7, eofSeq := word_of_nat (n + 1), eofResendCount := 0\<rparr>) w' \<and>
    queue_ok q \<and> single (childSocket info) (pset w') \<and> open_fds w' = open_fds w \<and> schedule w' = es \<and>
    sent w' = sent w @ map (\<lambda>d. (childSocket info, d, src)) (data_run ck (file_chunk b f) 1 (n + 1))"
proof -
  obtain ps m where h: "write_file_ok_ack_state info w = (Inr (SEND_DATA, info\<lparr>clientAddr := src\<rparr>),
      w\<lparr>allocs := m, pset := ps, schedule := replicate n Quiet @ es\<rparr>)" "single (childSocket info) ps"
    by (rule handshake_start [OF assms(8-10,14,11-13)]) blast
  let ?w1 = "w\<lparr>allocs := m, pset := ps, schedule := replicate n Quiet @ es\<rparr>"
  let ?w2 = "?w1\<lparr>allocs := m + 1\<rparr>"
  let ?info = "info\<lparr>clientAddr := src\<rparr>"
  have st: "client_loop ck sock buf len WRITE_FILE_OK_ACK None info w =
      client_loop ck sock buf len SEND_DATA None ?info ?w1"
    using h(1) by (subst client_loop.simps) (simp add: with_window_def bnd_def)
  let ?ws = "uint (windowSize info)"
  have ws: "int n < ?ws" "?ws < 2 ^ 31"
  proof -
    have "int n < int (unat (windowSize info))" using assms(1) by (simp only: of_nat_less_iff)
    then show "int n < ?ws" unfolding uint_nat .
    show "?ws < 2 ^ 31" using uint_lt2p [of "windowSize info"] by simp
  qed
  have "pset_sane ?w2" using h(2) by (intro single_sane) simp
  then obtain q w' where d: "send_data_state ck (fresh_queue ?ws) ?info ?w2 = (Inr (WAIT_ON_EOF_ACK, q,
        ?info\<lparr>in_file := Some [], eofPacket := pdu_of ck (word_of_nat (n + 1)) 10 [], eofLen := 7,
          eofSeq := word_of_nat (n + 1), eofResendCount := 0\<rparr>), w')"
    "sent w' = sent ?w2 @ map (\<lambda>d. (childSocket ?info, d, clientAddr ?info)) (data_run ck (file_chunk b f) 1 (n + 1))"
    "snd_window ck (file_chunk b f) 1 (n + 1) q" "schedule w' = es" "pset w' = pset ?w2" "open_fds w' = open_fds ?w2"
    using send_data_state_quiet [OF ws, of b ?info f ?w2 es ck] assms(2-8) by auto
  have turn: "client_turn ck sock buf len SEND_DATA None ?info ?w1 = (Inr (WAIT_ON_EOF_ACK, Some q,
        ?info\<lparr>in_file := Some [], eofPacket := pdu_of ck (word_of_nat (n + 1)) 10 [], eofLen := 7,
          eofSeq := word_of_nat (n + 1), eofResendCount := 0\<rparr>), w')"
    using d(1) assms(8) by (simp add: send_data_entry_def alloc_def bnd_def fresh_queue_def)
  have "client_loop ck sock buf len SEND_DATA None ?info ?w1 = client_loop ck sock buf len WAIT_ON_EOF_ACK (Some q)
        (?info\<lparr>in_file := Some [], eofPacket := pdu_of ck (word_of_nat (n + 1)) 10 [], eofLen := 7,
          eofSeq := word_of_nat (n + 1), eofResendCount := 0\<rparr>) w'"
    by (subst client_loop.simps) (simp add: turn bnd_def del: client_turn.simps of_nat_Suc of_nat_add)
  moreover have "single (childSocket info) (pset w')" "open_fds w' = open_fds w"
    "sent w' = sent w @ map (\<lambda>d. (childSocket info, d, src)) (data_run ck (file_chunk b f) 1 (n + 1))"
    using d(2,5,6) h(2) by simp_all
  ultimately show ?thesis using d(4) st snd_windowD(1) [OF d(3)] by (intro exI conjI) simp_all
qed

text \<open>The acknowledgement the client builds.\<close>

lemma eof_ack_accepted_client:
  "eof_ack_accepted ck info (rbuf_of (pdu_of ck m 35 []) jk) 7 \<longleftrightarrow>
     m = eofSeq info \<and>
     htons (ck (store32 (htonl m) @ [0, 0, 35])) = ck (store32 (htonl m) @ [0, 0, 35])"
proof -
  let ?b = "rbuf_of (pdu_of ck m 35 []) jk"
  have "[0..<nat 7] = [0, 1, 2, 3, 4, 5, 6]" by code_simp
  then have "map (\<lambda>i. if i = 4 \<or> i = 5 then 0 else ?b i) [0..<nat 7] = store32 (htonl m) @ [0, 0, 35]"
    by (simp add: rbuf_of_def nth_pdu_of store32_def)
  then show ?thesis by (auto simp: eof_ack_accepted_def Let_def)
qed

text \<open>
  From the EOF on: \<open>r\<close> silent seconds, then the tenth resend has gone unanswered as well or an
  acknowledgement the server accepts arrives.
\<close>

definition eof_settled :: "cksum \<Rightarrow> u32 \<Rightarrow> nat \<Rightarrow> event \<Rightarrow> bool" where
  "eof_settled ck sq r e \<longleftrightarrow> e = Quiet \<and> r = 10 \<or>
     (\<exists>d src. e = Arrive d src \<and> length d \<le> MAXBUF \<and>
        (\<forall>info jk. eofSeq info = sq \<longrightarrow> eof_ack_accepted ck info (rbuf_of d jk) (int (length d))))"

lemma client_loop_settled:
  assumes "single (childSocket info) (pset w)" "is_open w (childSocket info)" "0 < childSocket info"
    and "schedule w = replicate r Quiet @ e # es" "r \<le> 10" "eof_settled ck (eofSeq info) r e"
    and "eofResendCount info = 0" "eofLen info = int (length (eofPacket info))"
  shows "\<exists>info'. client_loop ck sock buf n WAIT_ON_EOF_ACK q info w = (Inr (q, info'), w\<lparr>schedule := es,
       sent := sent w @ replicate r (childSocket info, eofPacket info, clientAddr info)\<rparr>) \<and>
     childSocket info' = childSocket info \<and> in_file info' = in_file info \<and> in_fd info' = in_fd info"
proof -
  let ?info = "info\<lparr>eofResendCount := int r\<rparr>"
  let ?w = "w\<lparr>schedule := e # es,
    sent := sent w @ replicate r (childSocket info, eofPacket info, clientAddr info)\<rparr>"
  have loop: "client_loop ck sock buf n WAIT_ON_EOF_ACK q info w = client_loop ck sock buf n WAIT_ON_EOF_ACK q ?info ?w"
    using client_loop_eof_resends [OF single_sane [OF assms(1)] assms(4), of info 0] assms(5,7,8) by simp
  have w: "single (childSocket ?info) (pset ?w)" "is_open ?w (childSocket ?info)" "0 < childSocket ?info"
    "schedule ?w = e # es" using assms(1-3) by (simp_all add: is_open_def)
  from assms(6) consider (quiet) "e = Quiet" "r = 10" | (ack) d src where "e = Arrive d src" "length d \<le> MAXBUF"
    "\<forall>info' jk. eofSeq info' = eofSeq info \<longrightarrow> eof_ack_accepted ck info' (rbuf_of d jk) (int (length d))"
    unfolding eof_settled_def by blast
  then show ?thesis
  proof cases
    case quiet
    then show ?thesis using client_loop_eof_quiet [OF single_sane [OF w(1)], of es ?info] w(4) loop by simp
  next
    case ack
    then show ?thesis using client_loop_eof_acked [OF w(1-3), of d src es ck] w(4) loop by simp
  qed
qed

text \<open>The session of a child, from the request to its end.\<close>

lemma child_session:
  assumes "11 \<le> len" "len \<le> 110" "name = c_string (map (\<lambda>i. buf (11 + i)) [0..<nat (len - 11)])"
    and "readable w name = Some f" "sockets_ok w" "heap w = (\<lambda>_. True)" "pset w = initial_pollset"
    and "0 < sock" "0 \<in> set (open_fds w)"
    and "n < unat (load16 (buf 7) (buf 8))" "b = unat (load16 (buf 9) (buf 10))" "0 < b" "b \<le> MAXBUF"
    and "0 < n \<Longrightarrow> (n - 1) * b < length f" "length f \<le> n * b"
    and "7 \<le> length d" "length d \<le> MAXBUF" "d ! 6 = 34"
    and "r \<le> 10" "eof_settled ck (word_of_nat (n + 1)) r e"
    and "schedule w = Arrive d src # replicate n Quiet @ replicate r Quiet @ e # es"
  shows "\<exists>child w'. child_process ck client sock buf len w = (Inl (Exited (-1)), w') \<and> schedule w' = es \<and>
    sent w' = sent w @ (child, pdu_of ck 0 9 name, client) #
      map (\<lambda>d. (child, d, src)) (data_run ck (file_chunk b f) 1 (n + 1)) @
      replicate r (child, pdu_of ck (word_of_nat (n + 1)) 10 [], src) \<and>
    set (open_fds w') = set (open_fds w) - {nat sock}"
proof -
  let ?fds = "filter (\<lambda>i. int i \<noteq> sock) (open_fds w)"
  let ?c = "lowest_free ?fds"
  let ?o = "lowest_free (?c # ?fds)"
  let ?info = "initial_info client\<lparr>childSocket := int ?c, in_file := Some f, in_fd := int ?o,
    windowSize := load16 (buf 7) (buf 8), bufferSize := load16 (buf 9) (buf 10)\<rparr>"
  let ?w = "w\<lparr>open_fds := ?o # ?c # ?fds, sent := sent w @ [(int ?c, pdu_of ck 0 9 name, client)]\<rparr>"
  let ?info1 = "?info\<lparr>clientAddr := src, in_file := Some [], eofPacket := pdu_of ck (word_of_nat (n + 1)) 10 [],
    eofLen := 7, eofSeq := word_of_nat (n + 1), eofResendCount := 0\<rparr>"
  have fresh: "?c \<notin> set ?fds" "?o \<notin> set (?c # ?fds)" by (rule lowest_free_props)+
  have "0 \<in> set ?fds" using assms(8,9) by simp
  then have pos: "0 < ?c" using fresh(1) by (cases "?c = 0") auto
  have "filename_state ck sock buf len (initial_info client) w = (Inr (WRITE_FILE_OK_ACK, ?info), ?w)"
    using filename_state_found [OF assms(1-3,5,4) refl refl refl, where sock = sock and ck = ck and info = "initial_info client"]
    by (simp add: initial_info_def)
  then have l1: "client_loop ck sock buf len START None (initial_info client) w =
      client_loop ck sock buf len WRITE_FILE_OK_ACK None ?info ?w"
    by (subst client_loop.simps, simp, subst client_loop.simps, simp add: with_window_def bnd_def)
  obtain q w1 where l2: "client_loop ck sock buf len WRITE_FILE_OK_ACK None ?info ?w =
      client_loop ck sock buf len WAIT_ON_EOF_ACK (Some q) ?info1 w1"
    "queue_ok q" "single (int ?c) (pset w1)" "open_fds w1 = ?o # ?c # ?fds"
    "schedule w1 = replicate r Quiet @ e # es"
    "sent w1 = sent ?w @ map (\<lambda>d. (int ?c, d, src)) (data_run ck (file_chunk b f) 1 (n + 1))"
    using client_loop_data [of n ?info b f ?w d src "replicate r Quiet @ e # es" ck sock buf len]
      assms(6,7,10-18,21) by (auto simp: is_open_def initial_pollset_def simp del: of_nat_Suc of_nat_add)
  have "is_open w1 (int ?c)" using l2(4) by (simp add: is_open_def)
  then obtain info2 where l3: "client_loop ck sock buf len WAIT_ON_EOF_ACK (Some q) ?info1 w1 =
      (Inr (Some q, info2), w1\<lparr>schedule := es,
         sent := sent w1 @ replicate r (int ?c, pdu_of ck (word_of_nat (n + 1)) 10 [], src)\<rparr>)"
    "childSocket info2 = int ?c" "in_file info2 = Some []" "in_fd info2 = int ?o"
    using client_loop_settled [of ?info1 w1 r e es ck sock buf len "Some q"] l2(3,5) pos assms(19,20)
    by (auto simp del: of_nat_Suc of_nat_add)
  obtain q' where fr: "CircularQueue_free q = Inr (0, q')" using queue_free_ok [OF l2(2)] by blast
  let ?w2 = "w1\<lparr>schedule := es,
    sent := sent w1 @ replicate r (int ?c, pdu_of ck (word_of_nat (n + 1)) 10 [], src),
    open_fds := filter (\<lambda>i. int i \<noteq> int ?c) (filter (\<lambda>i. int i \<noteq> int ?o) (open_fds w1))\<rparr>"
  have fds: "set (open_fds ?w2) = set (open_fds w) - {nat sock}"
    using fresh assms(8) l2(4) by auto
  have "processClient ck client sock buf len w = (Inr (), ?w2)"
    unfolding processClient_def l1 l2(1) bnd_def l3(1) using l3(2-4) fr
    by (simp add: clean_up_def bnd_def close_fd_def)
  moreover have "\<not> is_open ?w2 sock" using fds by (simp add: is_open_def)
  ultimately have "child_process ck client sock buf len w = (Inl (Exited (-1)), ?w2)"
    by (simp add: child_process_def server_turn_def safeRecvfrom_def recvfrom_def bnd_def Let_def)
  moreover have "sent ?w2 = sent w @ (int ?c, pdu_of ck 0 9 name, client) #
      map (\<lambda>d. (int ?c, d, src)) (data_run ck (file_chunk b f) 1 (n + 1)) @
      replicate r (int ?c, pdu_of ck (word_of_nat (n + 1)) 10 [], src)"
    using l2(6) by simp
  ultimately show ?thesis using fds by (intro exI [of _ "int ?c"] exI [of _ ?w2]) simp
qed

text \<open>
  C38: A whole session of a child whose client acknowledges the OK and then nothing but the EOF
  (the network loses every RR), on a host whose system calls succeed, for a file with a name of at
  most 99 bytes that can be opened, a swapped buffer size between 1 and
  \<open>MAXBUF\<close> and fewer chunks of that size than the swapped window has slots:
  the OK PDU to the client, then, to the address its acknowledgement came from, every chunk in
  order and the EOF, which is sent again after each of \<open>r\<close> silent seconds until it is
  acknowledged or ten were in vain.  The session's socket and stream are closed; but the
  child then falls back into the dispatch loop of \<open>processServer\<close>, where receiving on
  the closed socket ends it with \<open>exit(-1)\<close>.
\<close>

theorem whole_session:
  assumes "11 \<le> len" "len \<le> 110" "name = c_string (map (\<lambda>i. buf (11 + i)) [0..<nat (len - 11)])"
    and "readable w name = Some f" "sockets_ok w" "heap w = (\<lambda>_. True)" "pset w = initial_pollset"
    and "0 < sock" "0 \<in> set (open_fds w)"
    and "n < unat (load16 (buf 7) (buf 8))" "b = unat (load16 (buf 9) (buf 10))" "0 < b" "b \<le> MAXBUF"
    and "0 < n \<Longrightarrow> (n - 1) * b < length f" "length f \<le> n * b"
    and "7 \<le> length d" "length d \<le> MAXBUF" "d ! 6 = 34"
    and "r \<le> 10" "eof_settled ck (word_of_nat (n + 1)) r e"
    and "schedule w = Arrive d src # replicate n Quiet @ replicate r Quiet @ e # es"
  shows "\<exists>child w'. child_process ck client sock buf len w = (Inl (Exited (-1)), w') \<and> schedule w' = es \<and>
    sent w' = sent w @ (child, pdu_of ck 0 9 name, client) #
      map (\<lambda>d. (child, d, src)) (data_run ck (file_chunk b f) 1 (n + 1)) @
      replicate r (child, pdu_of ck (word_of_nat (n + 1)) 10 [], src) \<and>
    set (open_fds w') = set (open_fds w) - {nat sock}"
  by (rule child_session [OF assms])

theorem whole_session_witness:
  "\<exists>child w'. child_process (\<lambda>_. 0) 9 3 (rbuf_of (pdu_of (\<lambda>_. 0) 0 8 (store16 4 @ store16 2 @ [97])) (\<lambda>_. 0)) 12
       (start_world (Arrive (pdu_of (\<lambda>_. 0) 0 34 []) 6 # replicate 2 Quiet @ replicate 5 Quiet @
          Arrive (pdu_of (\<lambda>_. 0) 3 35 []) 6 # [])\<lparr>readable := (\<lambda>name. if name = [97] then Some [1, 2, 3] else None)\<rparr>) =
     (Inl (Exited (-1)), w') \<and>
     sent w' = (child, pdu_of (\<lambda>_. 0) 0 9 [97], 9) #
       map (\<lambda>d. (child, d, 6)) (data_run (\<lambda>_. 0) (file_chunk 2 [1, 2, 3]) 1 (2 + 1)) @
       replicate 5 (child, pdu_of (\<lambda>_. 0) (word_of_nat (2 + 1)) 10 [], 6)"
proof -
  let ?buf = "rbuf_of (pdu_of (\<lambda>_. 0) 0 8 (store16 4 @ store16 2 @ [97])) (\<lambda>_. 0)"
  let ?e = "Arrive (pdu_of (\<lambda>_. 0) 3 35 []) 6"
  let ?w = "start_world (Arrive (pdu_of (\<lambda>_. 0) 0 34 []) 6 # replicate 2 Quiet @ replicate 5 Quiet @ ?e # [])
    \<lparr>readable := (\<lambda>name. if name = [97] then Some [1, 2, 3] else None)\<rparr>"
  have buf: "[97] = c_string (map (\<lambda>i. ?buf (11 + i)) [0..<nat (12 - 11)])" "load16 (?buf 7) (?buf 8) = 4"
    "load16 (?buf 9) (?buf 10) = 2"
    by code_simp+
  have w: "readable ?w [97] = Some [1, 2, 3]" "sockets_ok ?w" "heap ?w = (\<lambda>_. True)" "pset ?w = initial_pollset"
    "0 \<in> set (open_fds ?w)" "sent ?w = []"
    "schedule ?w = Arrive (pdu_of (\<lambda>_. 0) 0 34 []) 6 # replicate 2 Quiet @ replicate 5 Quiet @ ?e # []"
    by (simp_all add: start_world_def)
  have n: "(2 :: nat) < unat (load16 (?buf 7) (?buf 8))" "2 = unat (load16 (?buf 9) (?buf 10))"
    "(0 :: nat) < 2" "2 \<le> MAXBUF" "(2 - 1) * 2 < length [1 :: byte, 2, 3]" "length [1 :: byte, 2, 3] \<le> 2 * 2"
    unfolding buf(2,3) by (simp_all add: MAXBUF_def)
  have d: "7 \<le> length (pdu_of (\<lambda>_. 0) 0 34 [])" "length (pdu_of (\<lambda>_. 0) 0 34 []) \<le> MAXBUF"
    "pdu_of (\<lambda>_. 0) 0 34 [] ! 6 = 34" by (simp_all add: MAXBUF_def nth_pdu_of)
  have e: "eof_settled (\<lambda>_. 0) (word_of_nat (2 + 1)) 5 ?e"
    by (auto simp: eof_settled_def eof_ack_accepted_client MAXBUF_def htons_eq_0_iff)
  have l: "(11 :: int) \<le> 12" "(12 :: int) \<le> 110" "(0 :: int) < 3" "(5 :: nat) \<le> 10" by simp_all
  from whole_session [OF l(1,2) buf(1) w(1-4) l(3) w(5) n(1-4) n(5) n(6) d l(4) e w(7), of 9]
  show ?thesis unfolding w(6) by auto
qed

end
