(* ===== verification/Rcopy.thy ===== *)
theory Rcopy
  imports Receiver
begin

text \<open>
  The rest of \<open>rcopy.c\<close>: its command line, the request for the file with its retries
  (\<open>wait_on_file_ok_state\<close>), the set-up of the receiver (\<open>wait_on_data_state\<close>) and the state
  loop \<open>processFile\<close>.  Command-line strings are byte lists; the conversion of the error rate
  to a \<open>float\<close> is the parameter \<open>to_float\<close>.
\<close>

subsection \<open>Command line\<close>

definition checkArgs :: "(byte list \<Rightarrow> c_float) \<Rightarrow> byte list list \<Rightarrow> stop + int" where
  "checkArgs to_float argv =
     (if length argv \<noteq> 8 then Inl (Exited 1)
      else if length (argv ! 1) > 100 then Inl (Exited (-1))
      else if atoi (argv ! 3) \<le> 0 \<or> atoi (argv ! 3) \<ge> 2 ^ 30 then Inl (Exited (-1))
      else if bad_error_rate (to_float (argv ! 5)) then Inl (Exited (-1))
      else Inr (atoi (argv ! 7)))"

subsection \<open>States\<close>

text \<open>\<open>START\<close> and \<open>DONE\<close> of \<open>rcopy.c\<close> are renamed: \<open>server.c\<close> has its own.\<close>

datatype rcopy_state =
  START_C | DONE_C | WAIT_ON_FILE_OK | WAIT_ON_DATA | PROCESS_TRANSFER | SEND_EOF_ACK

definition MAX_RETRIES :: nat where "MAX_RETRIES = 10"
definition TIMEOUT_MS :: int where "TIMEOUT_MS = 1000"

definition start_state :: "byte list list \<Rightarrow> int \<Rightarrow> rcopy_state prog" where
  "start_state argv portNumber =
     bnd (setupUdpClientToServer (argv ! 6) portNumber) (\<lambda>(sock, _).
       if sock < 0 then ret DONE_C else ret WAIT_ON_FILE_OK)"

text \<open>The request: window size, buffer size and file name behind flag 8.\<close>

definition request_pdu :: "cksum \<Rightarrow> byte list list \<Rightarrow> byte list res" where
  "request_pdu ck argv =
     rbind (memcpy_at MAXBUF [] 0 (store16 (htons (word_of_int (atoi (argv ! 3)))))) (\<lambda>p.
     rbind (memcpy_at MAXBUF p 2 (store16 (htons (word_of_int (atoi (argv ! 4)))))) (\<lambda>p.
     rbind (memcpy_at MAXBUF p 4 (argv ! 1)) (\<lambda>payload.
       createPDU ck (MAXBUF + 7) 0 8 payload (int (length (argv ! 1)) + 4))))"

text \<open>
  \<open>fopen(name, "wb")\<close>: the descriptor of the stream, if the file can be opened.
\<close>

definition fopen_write :: "byte list \<Rightarrow> int option prog" where
  "fopen_write name w = (if writable w name then bnd open_fd (\<lambda>n. ret (Some (int n))) w else (Inr None, w))"

text \<open>What happens with a reply to the request.\<close>

definition handle_reply ::
    "cksum \<Rightarrow> byte list list \<Rightarrow> int \<Rightarrow> rbuf \<Rightarrow> addr \<Rightarrow> rcopy_state prog" where
  "handle_reply ck argv sock recvBuff recvAddr =
     (if hdr_flag recvBuff = 9
      then bnd (fopen_write (argv ! 2)) (\<lambda>opened.
             if opened = None then bnd (close_fd sock) (\<lambda>_. ret DONE_C)
             else bnd (lift (to_stop (createPDU ck MAXBUF 0 34 [] 0))) (\<lambda>pdu.
                  bnd (sendtoErr sock pdu recvAddr) (\<lambda>_. ret WAIT_ON_DATA)))
      else bnd (close_fd sock) (\<lambda>_. ret WAIT_ON_FILE_OK))"

text \<open>One attempt up to the poll: a fresh socket, a fresh poll set, the request.\<close>

definition attempt :: "byte list list \<Rightarrow> int \<Rightarrow> byte list \<Rightarrow> int \<Rightarrow> (int \<times> int) prog" where
  "attempt argv portNumber pdu sock =
     bnd (if sock > 0 then close_fd sock else ret ()) (\<lambda>_.
     bnd (setupUdpClientToServer (argv ! 6) portNumber) (\<lambda>(sock1, server).
     bnd setup_poll_set (\<lambda>_.
     bnd (add_to_poll_set sock1) (\<lambda>_.
     bnd (sendtoErr sock1 pdu server) (\<lambda>_.
     bnd (poll_call TIMEOUT_MS) (\<lambda>ready. ret (sock1, ready)))))))"

function file_ok_loop ::
    "cksum \<Rightarrow> byte list list \<Rightarrow> int \<Rightarrow> byte list \<Rightarrow> nat \<Rightarrow> int \<Rightarrow> rcopy_state prog" where
  "file_ok_loop ck argv portNumber pdu count sock w =
     (if count < MAX_RETRIES
      then bnd (attempt argv portNumber pdu sock) (\<lambda>r w1.
             case r of (sock1, ready) \<Rightarrow>
               if ready = -1
               then bnd (close_fd sock1) (\<lambda>_ w2.
                      file_ok_loop ck argv portNumber pdu (count + 1) sock1 w2) w1
               else bnd (safeRecvfrom sock1 (MAXBUF + 7)) (\<lambda>x w2.
                      case x of (recvBuff, recvBytes, recvAddr) \<Rightarrow>
                        if recvBytes < 0
                        then bnd (close_fd sock1) (\<lambda>_ w3.
                               file_ok_loop ck argv portNumber pdu (count + 1) sock1 w3) w2
                        else handle_reply ck argv sock1 recvBuff recvAddr w2) w1) w
      else ret DONE_C w)"
  by pat_completeness auto
termination
  by (relation "measure (\<lambda>(ck, argv, p, pdu, n, sock, w). MAX_RETRIES - n)") auto

declare file_ok_loop.simps [simp del]

definition wait_on_file_ok_state ::
    "cksum \<Rightarrow> byte list list \<Rightarrow> int \<Rightarrow> int \<Rightarrow> rcopy_state prog" where
  "wait_on_file_ok_state ck argv sock portNumber =
     bnd (lift (to_stop (request_pdu ck argv))) (\<lambda>pdu.
       file_ok_loop ck argv portNumber pdu 0 sock)"

text \<open>
  \<open>wait_on_data_state\<close>: the receiver is set up and runs to the end of the transfer.  The
  second component is the receiver it leaves, if it started.
\<close>

definition wait_on_data_state ::
    "cksum \<Rightarrow> byte list list \<Rightarrow> addr \<Rightarrow> int \<Rightarrow> (rcopy_state \<times> ReceiveInfo option) prog" where
  "wait_on_data_state ck argv recvAddr sock =
     bnd alloc (\<lambda>mem.
       if \<not> mem \<or> atoi (argv ! 3) < 0 then ret (DONE_C, None)
       else bnd (fopen_write (argv ! 2)) (\<lambda>opened.
            if opened = None then ret (DONE_C, None)
            else bnd (process_transfer_state ck
                     (fresh_receiver (atoi (argv ! 3)) sock recvAddr\<lparr>outFile_fd := the opened\<rparr>))
                   (\<lambda>info. ret (DONE_C, Some info))))"

text \<open>
  One turn of the \<open>switch\<close> of \<open>processFile\<close>.  Its own \<open>info\<close> and \<open>recvAddr\<close> are never
  filled in, so the two states that use that \<open>info\<close> would read uninitialised memory.
\<close>

fun file_turn ::
    "cksum \<Rightarrow> byte list list \<Rightarrow> addr \<Rightarrow> int \<Rightarrow> int \<Rightarrow> rcopy_state \<Rightarrow>
     (rcopy_state \<times> ReceiveInfo option) prog" where
  "file_turn ck argv garbage sock port START_C =
     bnd (start_state argv port) (\<lambda>st. ret (st, None))"
| "file_turn ck argv garbage sock port WAIT_ON_FILE_OK =
     bnd (wait_on_file_ok_state ck argv sock port) (\<lambda>st. ret (st, None))"
| "file_turn ck argv garbage sock port WAIT_ON_DATA = wait_on_data_state ck argv garbage sock"
| "file_turn ck argv garbage sock port PROCESS_TRANSFER = stop_with (Fault Uninitialised)"
| "file_turn ck argv garbage sock port SEND_EOF_ACK = stop_with (Fault Uninitialised)"
| "file_turn ck argv garbage sock port DONE_C = ret (DONE_C, None)"

subsection \<open>Termination of the state loop\<close>

lemma fopen_write_schedule: "fopen_write n w = (Inr r, w') \<Longrightarrow> schedule w' = schedule w"
  by (auto simp: fopen_write_def bnd_eq_Inr split: if_splits dest!: open_fd_schedule)

lemma attempt_schedule:
  "attempt argv port pdu sock w = (Inr r, w') \<Longrightarrow> length (schedule w') \<le> length (schedule w)"
proof -
  assume "attempt argv port pdu sock w = (Inr r, w')"
  then obtain w1 w2 w3 w4 w5 ready s srv where
    "(if sock > 0 then close_fd sock else ret ()) w = (Inr (), w1)"
    "setupUdpClientToServer (argv ! 6) port w1 = (Inr (s, srv), w2)" "setup_poll_set w2 = (Inr (), w3)"
    "add_to_poll_set s w3 = (Inr (), w4)" "sendtoErr s pdu srv w4 = (Inr (), w5)"
    "poll_call TIMEOUT_MS w5 = (Inr ready, w')"
    by (auto simp: attempt_def bnd_eq_Inr)
  moreover have "(0 :: int) \<le> TIMEOUT_MS" by (simp add: TIMEOUT_MS_def)
  ultimately show ?thesis
    by (auto simp: sendtoErr_def split: if_splits dest!: close_fd_schedule setup_client_schedule
        setup_poll_set_schedule add_to_poll_set_schedule poll_call_schedule)
qed

lemma handle_reply_next:
  assumes "handle_reply ck argv sock b a w = (Inr st, w')"
  shows "st = DONE_C \<or> st = WAIT_ON_DATA \<or> st = WAIT_ON_FILE_OK" "schedule w' = schedule w"
  using assms
  by (auto simp: handle_reply_def bnd_eq_Inr sendtoErr_def split: if_splits
      dest!: fopen_write_schedule close_fd_schedule)

text \<open>A turn that asks for the file again has received, and thereby consumed, a reply.\<close>

lemma file_ok_loop_next:
  "file_ok_loop ck argv port pdu count sock w = (Inr st, w') \<Longrightarrow>
   st = DONE_C \<or> st = WAIT_ON_DATA \<or> st = WAIT_ON_FILE_OK \<and> length (schedule w') < length (schedule w)"
proof (induction ck argv port pdu count sock w rule: file_ok_loop.induct)
  case (1 ck argv port pdu count sock w)
  show ?case
  proof (cases "count < MAX_RETRIES")
    case False
    with "1.prems" show ?thesis by (subst (asm) file_ok_loop.simps) simp
  next
    case True
    with "1.prems" obtain s ready w1 where a: "attempt argv port pdu sock w = (Inr (s, ready), w1)"
      and k: "(if ready = -1
               then bnd (close_fd s) (\<lambda>_ w2. file_ok_loop ck argv port pdu (count + 1) s w2) w1
               else bnd (safeRecvfrom s (MAXBUF + 7)) (\<lambda>x w2.
                      case x of (recvBuff, recvBytes, recvAddr) \<Rightarrow>
                        if recvBytes < 0
                        then bnd (close_fd s) (\<lambda>_ w3. file_ok_loop ck argv port pdu (count + 1) s w3) w2
                        else handle_reply ck argv s recvBuff recvAddr w2) w1) = (Inr st, w')"
      by (subst (asm) file_ok_loop.simps) (auto simp: bnd_eq_Inr)
    have le: "length (schedule w1) \<le> length (schedule w)" using attempt_schedule [OF a] .
    show ?thesis
    proof (cases "ready = -1")
      case quiet: True
      with k obtain w2 where c: "close_fd s w1 = (Inr (), w2)"
        and d: "file_ok_loop ck argv port pdu (count + 1) s w2 = (Inr st, w')"
        by (auto simp: bnd_eq_Inr)
      from "1.IH"(1) [OF True a refl quiet c d] le close_fd_schedule [OF c] show ?thesis by auto
    next
      case rdy: False
      with k obtain b m src w2 where rc: "safeRecvfrom s (MAXBUF + 7) w1 = (Inr (b, m, src), w2)"
        and d: "(if m < 0
            then bnd (close_fd s) (\<lambda>_ w3. file_ok_loop ck argv port pdu (count + 1) s w3) w2
            else handle_reply ck argv s b src w2) = (Inr st, w')"
        by (auto simp: bnd_eq_Inr)
      have lt: "length (schedule w2) < length (schedule w1)" using safeRecvfrom_schedule [OF rc] .
      show ?thesis
      proof (cases "m < 0")
        case neg: True
        with d obtain w3 where c: "close_fd s w2 = (Inr (), w3)"
          and e: "file_ok_loop ck argv port pdu (count + 1) s w3 = (Inr st, w')"
          by (auto simp: bnd_eq_Inr)
        from "1.IH"(2) [OF True a refl rdy rc refl refl neg c e] le lt close_fd_schedule [OF c]
        show ?thesis by auto
      next
        case False
        with d have "handle_reply ck argv s b src w2 = (Inr st, w')" by simp
        from handle_reply_next [OF this] le lt show ?thesis by auto
      qed
    qed
  qed
qed

lemma file_turn_next:
  assumes "file_turn ck argv g sock port st w = (Inr (st', r), w')" "st \<noteq> DONE_C"
  shows "st' = DONE_C \<or> st = START_C \<and> st' = WAIT_ON_FILE_OK \<or>
    st = WAIT_ON_FILE_OK \<and>
      (st' = WAIT_ON_DATA \<or> st' = WAIT_ON_FILE_OK \<and> length (schedule w') < length (schedule w))"
proof (cases st)
  case START_C
  with assms show ?thesis by (auto simp: start_state_def bnd_eq_Inr split: if_splits)
next
  case WAIT_ON_FILE_OK
  with assms show ?thesis
    by (auto simp: wait_on_file_ok_state_def bnd_eq_Inr dest!: file_ok_loop_next)
next
  case WAIT_ON_DATA
  with assms show ?thesis
    by (auto simp: wait_on_data_state_def bnd_eq_Inr split: if_splits)
qed (use assms in auto)

fun rcopy_phase :: "rcopy_state \<Rightarrow> nat" where
  "rcopy_phase START_C = 3"
| "rcopy_phase WAIT_ON_FILE_OK = 2"
| "rcopy_phase _ = 1"

function file_loop ::
    "cksum \<Rightarrow> byte list list \<Rightarrow> addr \<Rightarrow> int \<Rightarrow> int \<Rightarrow> rcopy_state \<Rightarrow> ReceiveInfo option \<Rightarrow>
     ReceiveInfo option prog" where
  "file_loop ck argv garbage sock port st result w =
     (if st = DONE_C then ret result w
      else bnd (file_turn ck argv garbage sock port st) (\<lambda>r w1.
             case r of (st1, result1) \<Rightarrow> file_loop ck argv garbage sock port st1 result1 w1) w)"
  by pat_completeness auto
termination
proof (relation "measures [\<lambda>(ck, argv, g, sock, port, st, r, w). if st = DONE_C then 0 else rcopy_phase st,
    \<lambda>(ck, argv, g, sock, port, st, r, w). length (schedule w)]", goal_cases)
  case (2 ck argv garbage sock port st result w r w1 st1 result1)
  then show ?case using file_turn_next [of ck argv garbage sock port st w st1 result1 w1]
    by (cases st) auto
qed simp

declare file_loop.simps [simp del]

text \<open>\<open>processFile\<close>; the argument check and the first socket come first, as in \<open>main\<close>.\<close>

definition processFile ::
    "cksum \<Rightarrow> (byte list \<Rightarrow> c_float) \<Rightarrow> byte list list \<Rightarrow> addr \<Rightarrow> ReceiveInfo option prog" where
  "processFile ck to_float argv garbage =
     bnd (lift (checkArgs to_float argv)) (\<lambda>portNumber.
     bnd (setupUdpClientToServer (argv ! 6) portNumber) (\<lambda>(sock, _).
       file_loop ck argv garbage sock portNumber START_C None))"

definition rcopy_main ::
    "cksum \<Rightarrow> (byte list \<Rightarrow> c_float) \<Rightarrow> byte list list \<Rightarrow> addr \<Rightarrow> ReceiveInfo option prog" where
  "rcopy_main ck to_float argv garbage =
     bnd (lift (checkArgs to_float argv)) (\<lambda>portNumber.
     bnd (setupUdpClientToServer (argv ! 6) portNumber) (\<lambda>_.
       processFile ck to_float argv garbage))"

subsection \<open>Attempts\<close>

text \<open>
  \<open>client_ready\<close>: the process can open sockets and resolve the server, and every descriptor
  below \<open>s\<close> is taken, so that a socket opened after closing \<open>s\<close> is \<open>s\<close> again.
\<close>

definition client_ready :: "byte list \<Rightarrow> int \<Rightarrow> addr \<Rightarrow> int \<Rightarrow> world \<Rightarrow> bool" where
  "client_ready host port a s w \<longleftrightarrow> sockets_ok w \<and> resolve w host port = Some a \<and> heap w = (\<lambda>_. True) \<and>
     0 < s \<and> (\<forall>i < nat s. i \<in> set (open_fds w)) \<and> maxFileDescriptor (pset w) \<le> s + 1"

lemma client_ready_reuse:
  assumes "client_ready host port a s w"
  shows "lowest_free (filter (\<lambda>i. int i \<noteq> s) (open_fds w)) = nat s"
  using assms by (intro lowest_free_unique) (auto simp: client_ready_def)

lemma client_ready_frame [simp]:
  "client_ready host port a s (w\<lparr>schedule := es\<rparr>) = client_ready host port a s w"
  "client_ready host port a s (w\<lparr>sent := l\<rparr>) = client_ready host port a s w"
  by (simp_all add: client_ready_def)

text \<open>Up to its poll an attempt sends the request once, from descriptor \<open>s\<close> opened anew.\<close>

lemma attempt_reuses:
  assumes "client_ready (argv ! 6) port a s w"
  obtains w1 where "attempt argv port pdu s w = bnd (poll_call TIMEOUT_MS) (\<lambda>ready. ret (s, ready)) w1"
    "client_ready (argv ! 6) port a s w1" "schedule w1 = schedule w"
    "sent w1 = sent w @ [(s, pdu, a)]" "single s (pset w1)" "is_open w1 s" "writable w1 = writable w"
    "set (open_fds w1) = insert (nat s) (set (open_fds w))"
proof -
  let ?fds = "filter (\<lambda>i. int i \<noteq> s) (open_fds w)"
  let ?w = "w\<lparr>open_fds := nat s # ?fds\<rparr>"
  have c: "sockets_ok w" "resolve w (argv ! 6) port = Some a" "0 < s" "heap ?w = (\<lambda>_. True)" "0 \<le> s"
    "maxFileDescriptor (pset ?w) \<le> s + 1" "\<forall>i < nat s. i \<in> set (open_fds w)"
    using assms by (simp_all add: client_ready_def)
  have su: "setupUdpClientToServer (argv ! 6) port (w\<lparr>open_fds := ?fds\<rparr>) = (Inr (s, a), ?w)"
    using c client_ready_reuse [OF assms] by (simp add: setupUdpClientToServer_eq)
  let ?k = "\<lambda>_. bnd (sendtoErr s pdu a) (\<lambda>_. bnd (poll_call TIMEOUT_MS) (\<lambda>ready. ret (s, ready)))"
  from setup_poll_ready [OF c(4,5,6), of ?k] obtain ps n where
    k: "bnd setup_poll_set (\<lambda>_. bnd (add_to_poll_set s) ?k) ?w = ?k () (?w\<lparr>allocs := n, pset := ps\<rparr>)"
    "single s ps" "maxFileDescriptor ps = s + 1" .
  let ?w1 = "?w\<lparr>allocs := n, pset := ps, sent := sent w @ [(s, pdu, a)]\<rparr>"
  have "attempt argv port pdu s w = bnd (poll_call TIMEOUT_MS) (\<lambda>ready. ret (s, ready)) ?w1"
    using c(3) su k(1) by (simp add: attempt_def close_fd_def sendtoErr_def bnd_def)
  moreover have "client_ready (argv ! 6) port a s ?w1"
    using assms k(3) by (auto simp: client_ready_def)
  moreover have "is_open ?w1 s" using c(3) by (simp add: is_open_def)
  moreover have "set (open_fds ?w1) = insert (nat s) (set (open_fds w))" using c(3) by auto
  ultimately show thesis using that k(2) by simp
qed

lemma attempt_quiet:
  assumes "client_ready (argv ! 6) port a s w" "schedule w = Quiet # es"
  obtains w1 where "attempt argv port pdu s w = (Inr (s, -1), w1)"
    "client_ready (argv ! 6) port a s w1" "schedule w1 = es" "sent w1 = sent w @ [(s, pdu, a)]"
    "writable w1 = writable w" "set (open_fds w1) = insert (nat s) (set (open_fds w))"
proof -
  obtain w1 where w1: "attempt argv port pdu s w = bnd (poll_call TIMEOUT_MS) (\<lambda>ready. ret (s, ready)) w1"
    "client_ready (argv ! 6) port a s w1" "schedule w1 = schedule w"
    "sent w1 = sent w @ [(s, pdu, a)]" "single s (pset w1)" "writable w1 = writable w"
    "set (open_fds w1) = insert (nat s) (set (open_fds w))"
    by (rule attempt_reuses [OF assms(1), of pdu]) blast
  have "poll_call TIMEOUT_MS w1 = (Inr (-1), w1\<lparr>schedule := es\<rparr>)"
    using w1(3) assms(2) single_sane [OF w1(5)] by (intro poll_call_quiet) (simp_all add: TIMEOUT_MS_def)
  with w1 that [of "w1\<lparr>schedule := es\<rparr>"] show thesis by (simp add: bnd_def)
qed

lemma attempt_arrive:
  assumes "client_ready (argv ! 6) port a s w" "schedule w = Arrive d src # es" "length d \<le> MAXBUF + 7"
  obtains w1 jk where "attempt argv port pdu s w = (Inr (s, s), w1)"
    "safeRecvfrom s (MAXBUF + 7) w1 = (Inr (rbuf_of d jk, int (length d), src), w1\<lparr>schedule := es\<rparr>)"
    "client_ready (argv ! 6) port a s w1" "sent w1 = sent w @ [(s, pdu, a)]" "is_open w1 s"
    "writable w1 = writable w" "set (open_fds w1) = insert (nat s) (set (open_fds w))"
proof -
  obtain w1 where w1: "attempt argv port pdu s w = bnd (poll_call TIMEOUT_MS) (\<lambda>ready. ret (s, ready)) w1"
    "client_ready (argv ! 6) port a s w1" "schedule w1 = schedule w"
    "sent w1 = sent w @ [(s, pdu, a)]" "single s (pset w1)" "is_open w1 s" "writable w1 = writable w"
    "set (open_fds w1) = insert (nat s) (set (open_fds w))"
    by (rule attempt_reuses [OF assms(1), of pdu]) blast
  have sch: "schedule w1 = Arrive d src # es" using w1(3) assms(2) by simp
  from w1 poll_call_arrive [OF w1(5) sch] safeRecvfrom_arrive [OF w1(6) sch assms(3)] that [of w1]
  show thesis by (simp add: bnd_def)
qed

lemma file_ok_loop_quiet:
  assumes "client_ready (argv ! 6) port a s w" "schedule w = replicate (10 - k) Quiet @ es" "k \<le> 10"
  shows "\<exists>w'. file_ok_loop ck argv port pdu k s w = (Inr DONE_C, w') \<and> schedule w' = es \<and>
    sent w' = sent w @ replicate (10 - k) (s, pdu, a)"
  using assms
proof (induction "10 - k" arbitrary: k w)
  case 0
  then show ?case by (subst file_ok_loop.simps) (simp add: MAX_RETRIES_def)
next
  case (Suc j)
  have lt: "k < 10" using Suc.hyps(2) by simp
  have sch: "schedule w = Quiet # replicate (10 - (k + 1)) Quiet @ es"
    using Suc.prems(2) lt by (simp add: Suc_diff_le flip: replicate_Suc)
  obtain w1 where w1: "attempt argv port pdu s w = (Inr (s, -1), w1)"
    "client_ready (argv ! 6) port a s w1" "schedule w1 = replicate (10 - (k + 1)) Quiet @ es"
    "sent w1 = sent w @ [(s, pdu, a)]"
    by (rule attempt_quiet [OF Suc.prems(1) sch, of pdu]) blast
  let ?w2 = "w1\<lparr>open_fds := filter (\<lambda>i. int i \<noteq> s) (open_fds w1)\<rparr>"
  have "client_ready (argv ! 6) port a s ?w2" using w1(2) by (auto simp: client_ready_def)
  moreover have "j = 10 - (k + 1)" "k + 1 \<le> 10" using Suc.hyps(2) by auto
  ultimately obtain w' where "file_ok_loop ck argv port pdu (k + 1) s ?w2 = (Inr DONE_C, w')"
    "schedule w' = es" "sent w' = sent ?w2 @ replicate (10 - (k + 1)) (s, pdu, a)"
    using Suc.hyps(1) [of "k + 1" ?w2] w1(3) by auto
  moreover have "file_ok_loop ck argv port pdu k s w = file_ok_loop ck argv port pdu (k + 1) s ?w2"
    using w1(1) lt by (subst file_ok_loop.simps) (simp add: MAX_RETRIES_def close_fd_def bnd_def)
  moreover have "10 - k = Suc (10 - (k + 1))" using lt by simp
  ultimately show ?case using w1(4) by simp
qed

text \<open>A reply other than OK sends the state loop round once more, with a fresh retry counter.\<close>

lemma error_reply_turn:
  assumes "client_ready (argv ! 6) port a s w" "schedule w = Arrive d src # es"
    and "7 \<le> length d" "length d \<le> MAXBUF + 7" "d ! 6 \<noteq> 9" "request_pdu ck argv = Inr pdu"
  shows "\<exists>w'. file_turn ck argv g s port WAIT_ON_FILE_OK w = (Inr (WAIT_ON_FILE_OK, None), w') \<and>
    client_ready (argv ! 6) port a s w' \<and> schedule w' = es \<and> sent w' = sent w @ [(s, pdu, a)]"
proof -
  obtain w1 jk where w1: "attempt argv port pdu s w = (Inr (s, s), w1)"
    "safeRecvfrom s (MAXBUF + 7) w1 = (Inr (rbuf_of d jk, int (length d), src), w1\<lparr>schedule := es\<rparr>)"
    "client_ready (argv ! 6) port a s w1" "sent w1 = sent w @ [(s, pdu, a)]"
    by (rule attempt_arrive [OF assms(1,2,4), of pdu]) blast
  have "hdr_flag (rbuf_of d jk) \<noteq> 9" using assms(3,5) by (simp add: hdr_flag_def rbuf_of_def)
  moreover have "s \<noteq> -1" using assms(1) by (simp add: client_ready_def)
  ultimately have "file_ok_loop ck argv port pdu 0 s w = (Inr WAIT_ON_FILE_OK,
      w1\<lparr>schedule := es, open_fds := filter (\<lambda>i. int i \<noteq> s) (open_fds w1)\<rparr>)"
    using w1(1,2) by (subst file_ok_loop.simps)
      (simp add: MAX_RETRIES_def handle_reply_def close_fd_def bnd_def)
  then have "file_turn ck argv g s port WAIT_ON_FILE_OK w = (Inr (WAIT_ON_FILE_OK, None),
      w1\<lparr>schedule := es, open_fds := filter (\<lambda>i. int i \<noteq> s) (open_fds w1)\<rparr>)"
    using assms(6) by (simp add: wait_on_file_ok_state_def bnd_def)
  with w1(3,4) show ?thesis by (auto simp: client_ready_def)
qed

lemma error_replies_loop:
  assumes "7 \<le> length d" "length d \<le> MAXBUF + 7" "d ! 6 \<noteq> 9" "request_pdu ck argv = Inr pdu"
    and "client_ready (argv ! 6) port a s w"
    and "schedule w = replicate k (Arrive d src) @ replicate 10 Quiet @ es"
  shows "\<exists>w'. file_loop ck argv g s port WAIT_ON_FILE_OK None w = (Inr None, w') \<and> schedule w' = es \<and>
    sent w' = sent w @ replicate (k + 10) (s, pdu, a)"
  using assms(5,6)
proof (induction k arbitrary: w)
  case 0
  then have sch: "schedule w = replicate (10 - 0) Quiet @ es" by simp
  obtain w' where w': "file_ok_loop ck argv port pdu 0 s w = (Inr DONE_C, w')" "schedule w' = es"
    "sent w' = sent w @ replicate 10 (s, pdu, a)"
    using file_ok_loop_quiet [OF 0(1) sch, of ck pdu] by auto
  have "file_turn ck argv g s port WAIT_ON_FILE_OK w = (Inr (DONE_C, None), w')"
    using w'(1) assms(4) by (simp add: wait_on_file_ok_state_def bnd_def)
  then have "file_loop ck argv g s port WAIT_ON_FILE_OK None w = file_loop ck argv g s port DONE_C None w'"
    by (subst file_loop.simps) (simp add: bnd_def)
  also have "\<dots> = (Inr None, w')" by (subst file_loop.simps) simp
  finally show ?case using w'(2,3) by simp
next
  case (Suc k)
  then have sch: "schedule w = Arrive d src # replicate k (Arrive d src) @ replicate 10 Quiet @ es" by simp
  from error_reply_turn [OF Suc.prems(1) sch assms(1-4)] obtain w1 where w1:
    "file_turn ck argv g s port WAIT_ON_FILE_OK w = (Inr (WAIT_ON_FILE_OK, None), w1)"
    "client_ready (argv ! 6) port a s w1" "schedule w1 = replicate k (Arrive d src) @ replicate 10 Quiet @ es"
    "sent w1 = sent w @ [(s, pdu, a)]" by blast
  have "file_loop ck argv g s port WAIT_ON_FILE_OK None w = file_loop ck argv g s port WAIT_ON_FILE_OK None w1"
    using w1(1) by (subst file_loop.simps) (simp add: bnd_def)
  moreover obtain w' where "file_loop ck argv g s port WAIT_ON_FILE_OK None w1 = (Inr None, w')"
    "schedule w' = es" "sent w' = sent w1 @ replicate (k + 10) (s, pdu, a)"
    using Suc.IH [OF w1(2,3)] by blast
  moreover have "Suc k + 10 = Suc (k + 10)" by simp
  ultimately show ?case using w1(4) by (metis append_Cons append_Nil append_assoc replicate_Suc)
qed

text \<open>Lost requests and then OK: the receiver's descriptor is \<open>s\<close>, and one stream stays open.\<close>

lemma file_ok_loop_ok:
  assumes "7 \<le> length d" "length d \<le> MAXBUF + 7" "d ! 6 = 9"
    and "client_ready (argv ! 6) port a s w" "schedule w = replicate k Quiet @ Arrive d src # es"
    and "count + k < 10" "writable w (argv ! 2)"
  shows "\<exists>w' x. file_ok_loop ck argv port pdu count s w = (Inr WAIT_ON_DATA, w') \<and> schedule w' = es \<and>
    sent w' = sent w @ replicate (k + 1) (s, pdu, a) @ [(s, pdu_of ck 0 34 [], src)] \<and>
    heap w' = heap w \<and> writable w' = writable w \<and>
    x \<notin> insert (nat s) (set (open_fds w)) \<and>
    set (open_fds w') = insert x (insert (nat s) (set (open_fds w)))"
  using assms(4-7)
proof (induction k arbitrary: count w)
  case 0
  then have sch: "schedule w = Arrive d src # es" by simp
  obtain w1 jk where w1: "attempt argv port pdu s w = (Inr (s, s), w1)"
    "safeRecvfrom s (MAXBUF + 7) w1 = (Inr (rbuf_of d jk, int (length d), src), w1\<lparr>schedule := es\<rparr>)"
    "client_ready (argv ! 6) port a s w1" "sent w1 = sent w @ [(s, pdu, a)]" "writable w1 = writable w"
    "set (open_fds w1) = insert (nat s) (set (open_fds w))"
    by (rule attempt_arrive [OF 0(1) sch assms(2), of pdu]) blast
  have "hdr_flag (rbuf_of d jk) = 9" using assms(1,3) by (simp add: hdr_flag_def rbuf_of_def)
  moreover have "s \<noteq> -1" "heap w1 = heap w" using 0(1) w1(3) by (simp_all add: client_ready_def)
  moreover have "lowest_free (open_fds w1) \<notin> set (open_fds w1)" by (rule lowest_free_props)
  ultimately show ?case
    using w1 0 by (subst file_ok_loop.simps)
      (simp add: MAX_RETRIES_def handle_reply_def fopen_write_def open_fd_def sendtoErr_def MAXBUF_def
        bnd_def Let_def, blast)
next
  case (Suc k)
  then have sch: "schedule w = Quiet # replicate k Quiet @ Arrive d src # es" by simp
  obtain w1 where w1: "attempt argv port pdu s w = (Inr (s, -1), w1)" "client_ready (argv ! 6) port a s w1"
    "schedule w1 = replicate k Quiet @ Arrive d src # es" "sent w1 = sent w @ [(s, pdu, a)]"
    "writable w1 = writable w" "set (open_fds w1) = insert (nat s) (set (open_fds w))"
    by (rule attempt_quiet [OF Suc.prems(1) sch, of pdu]) blast
  let ?w2 = "w1\<lparr>open_fds := filter (\<lambda>i. int i \<noteq> s) (open_fds w1)\<rparr>"
  have pos: "0 < s" "heap w1 = heap w" using Suc.prems(1) w1(2) by (simp_all add: client_ready_def)
  then have fds: "insert (nat s) (set (open_fds ?w2)) = insert (nat s) (set (open_fds w))"
    using w1(6) by auto
  have "client_ready (argv ! 6) port a s ?w2" using w1(2) by (auto simp: client_ready_def)
  moreover have "count + 1 + k < 10" "writable ?w2 (argv ! 2)" using Suc.prems(3,4) w1(5) by simp_all
  ultimately obtain w' x where "file_ok_loop ck argv port pdu (count + 1) s ?w2 = (Inr WAIT_ON_DATA, w')"
    "schedule w' = es" "sent w' = sent ?w2 @ replicate (k + 1) (s, pdu, a) @ [(s, pdu_of ck 0 34 [], src)]"
    "heap w' = heap ?w2" "writable w' = writable ?w2" "x \<notin> insert (nat s) (set (open_fds ?w2))"
    "set (open_fds w') = insert x (insert (nat s) (set (open_fds ?w2)))"
    using Suc.IH [of ?w2 "count + 1"] w1(3) by auto
  moreover have "file_ok_loop ck argv port pdu count s w = file_ok_loop ck argv port pdu (count + 1) s ?w2"
    using w1(1) Suc.prems(3) by (subst file_ok_loop.simps) (simp add: MAX_RETRIES_def close_fd_def bnd_def)
  ultimately show ?case using w1(4,5) pos(2) unfolding fds by (simp, blast)
qed

subsection \<open>Properties\<close>

text \<open>
  C32: The retry limit does not bound the requests: every reply other than OK starts the ten
  retries over, so \<open>k\<close> error replies (the server's answer to a missing file) make the client
  send \<open>k + 10\<close> requests before it gives up in silence.
\<close>

theorem error_replies_unbounded:
  assumes "client_ready (argv ! 6) port a s w" "length (argv ! 1) \<le> 100"
    and "7 \<le> length d" "length d \<le> MAXBUF + 7" "d ! 6 = 33"
    and "schedule w = replicate k (Arrive d src) @ replicate 10 Quiet @ es"
  shows "\<exists>pdu w'. request_pdu ck argv = Inr pdu \<and>
    file_loop ck argv g s port WAIT_ON_FILE_OK None w = (Inr None, w') \<and>
    sent w' = sent w @ replicate (k + 10) (s, pdu, a)"
proof -
  obtain pdu where pdu: "request_pdu ck argv = Inr pdu"
    using assms(2) by (simp add: request_pdu_def memcpy_at_def createPDU_eq store16_def MAXBUF_def)
  have "d ! 6 \<noteq> 9" using assms(5) by simp
  from error_replies_loop [OF assms(3,4) this pdu assms(1,6)] pdu show ?thesis by blast
qed

theorem error_replies_unbounded_witness:
  "\<exists>pdu w'. file_loop (\<lambda>_. 0) [[], [97], [98], [52], [50], [48], [104], [57]] 0 2 9 WAIT_ON_FILE_OK None
       (start_world (replicate 25 (Arrive (pdu_of (\<lambda>_. 0) 0 33 [97]) 7) @ replicate 10 Quiet @ [])) = (Inr None, w') \<and>
     sent w' = replicate (25 + 10) (2, pdu, 0)"
proof -
  let ?argv = "[[], [97], [98], [52], [50], [48], [104], [57]] :: byte list list"
  let ?w = "start_world (replicate 25 (Arrive (pdu_of (\<lambda>_. 0) 0 33 [97]) 7) @ replicate 10 Quiet @ [])"
  have "\<exists>pdu w'. request_pdu (\<lambda>_. 0) ?argv = Inr pdu \<and>
    file_loop (\<lambda>_. 0) ?argv 0 2 9 WAIT_ON_FILE_OK None ?w = (Inr None, w') \<and>
    sent w' = sent ?w @ replicate (25 + 10) (2, pdu, 0)"
    by (rule error_replies_unbounded [where d = "pdu_of (\<lambda>_. 0) 0 33 [97]" and src = 7 and es = "[]"])
       (auto simp: client_ready_def start_world_def initial_pollset_def less_Suc_eq numeral_2_eq_2
         MAXBUF_def nth_pdu_of)
  moreover have "sent ?w = []" by (simp add: start_world_def)
  ultimately show ?thesis by auto
qed



text \<open>
  The window size travels in 16 bits although \<open>checkArgs\<close> admits up to \<open>2 ^ 30 - 1\<close>: the
  arguments 65537 and 1 are both accepted and produce the same request.
\<close>

lemma window_truncated:
  "checkArgs (\<lambda>_. Some 0) [[], [97], [98], [54, 53, 53, 51, 55], [50], [48], [104], [57]] = Inr 9 \<and>
   checkArgs (\<lambda>_. Some 0) [[], [97], [98], [49], [50], [48], [104], [57]] = Inr 9 \<and>
   atoi [54, 53, 53, 51, 55] = 65537 \<and>
   request_pdu ck [[], [97], [98], [54, 53, 53, 51, 55], [50], [48], [104], [57]] =
   request_pdu ck [[], [97], [98], [49], [50], [48], [104], [57]]"
proof -
  have "atoi [54, 53, 53, 51, 55] = 65537" "atoi [49] = 1" "atoi [57] = 9" by code_simp+
  moreover have m: "(65537 :: u16) = 1" by simp
  ultimately show ?thesis by (simp add: checkArgs_def request_pdu_def m)
qed

text \<open>The state loop from its first receive on: the OK and the data of an orderly network.\<close>

lemma file_loop_orderly:
  assumes "client_ready (argv ! 6) port a s w" "length (argv ! 1) \<le> 100" "0 < atoi (argv ! 3)" "k < 10"
    and "7 \<le> length d" "length d \<le> MAXBUF + 7" "d ! 6 = 9" "writable w (argv ! 2)"
    and "0 < b" "b \<le> MAXBUF" "length f \<le> n * b" "n + 1 < 2 ^ 32"
    and "schedule w = replicate k Quiet @ Arrive d src #
      map (\<lambda>d. Arrive d src) (data_run ck (file_chunk b f) 1 (n + 1)) @ es"
  shows "\<exists>pdu ri w' x. request_pdu ck argv = Inr pdu \<and>
    file_loop ck argv g s port WAIT_ON_FILE_OK None w = (Inr (Some ri), w') \<and>
    outFile ri = f \<and> schedule w' = es \<and>
    sent w' = sent w @ replicate (k + 1) (s, pdu, a) @
      (s, pdu_of ck 0 34 [], src) # map (\<lambda>d. (s, d, src)) (rr_run ck 1 (n + 1)) \<and>
    x \<notin> insert (nat s) (set (open_fds w)) \<and> set (open_fds w') = insert x (set (open_fds w)) - {nat s}"
proof -
  let ?es = "map (\<lambda>d. Arrive d src) (data_run ck (file_chunk b f) 1 (n + 1)) @ es"
  have pos: "0 < s" "heap w = (\<lambda>_. True)" using assms(1) by (simp_all add: client_ready_def)
  obtain pdu where pdu: "request_pdu ck argv = Inr pdu"
    using assms(2) by (simp add: request_pdu_def memcpy_at_def createPDU_eq store16_def MAXBUF_def)
  obtain w1 x where w1: "file_ok_loop ck argv port pdu 0 s w = (Inr WAIT_ON_DATA, w1)" "schedule w1 = ?es"
    "sent w1 = sent w @ replicate (k + 1) (s, pdu, a) @ [(s, pdu_of ck 0 34 [], src)]"
    "heap w1 = heap w" "writable w1 = writable w" "x \<notin> insert (nat s) (set (open_fds w))"
    "set (open_fds w1) = insert x (insert (nat s) (set (open_fds w)))"
    using file_ok_loop_ok [OF assms(5-7,1,13), of 0 ck pdu] assms(4,8) by auto
  let ?o = "lowest_free (open_fds w1)"
  let ?w2 = "w1\<lparr>allocs := allocs w1 + 1, open_fds := ?o # open_fds w1\<rparr>"
  have fresh: "?o \<notin> set (open_fds w1)" by (rule lowest_free_props)
  have "is_open ?w2 s" "schedule ?w2 = ?es" using pos(1) w1(2,7) by (simp_all add: is_open_def)
  from process_transfer_in_order [OF assms(9-12) this, where wsize = "atoi (argv ! 3)" and peer = g and strm = "int ?o"] obtain ri w' where
    r: "process_transfer_state ck (fresh_receiver (atoi (argv ! 3)) s g\<lparr>outFile_fd := int ?o\<rparr>) ?w2 = (Inr ri, w')"
    "outFile ri = f" "sent w' = sent ?w2 @ map (\<lambda>d. (s, d, src)) (rr_run ck 1 (n + 1))" "schedule w' = es"
    "open_fds w' = filter (\<lambda>i. int i \<noteq> int ?o \<and> int i \<noteq> s) (open_fds ?w2)" by blast
  have "wait_on_data_state ck argv g s w1 = (Inr (DONE_C, Some ri), w')"
    using r(1) assms(3,8) pos(2) w1(4,5)
    by (simp add: wait_on_data_state_def alloc_def fopen_write_def open_fd_def bnd_def Let_def)
  then have "file_loop ck argv g s port WAIT_ON_DATA None w1 = file_loop ck argv g s port DONE_C (Some ri) w'"
    by (subst file_loop.simps) (simp add: bnd_def)
  also have "\<dots> = (Inr (Some ri), w')" by (subst file_loop.simps) simp
  finally have "file_loop ck argv g s port WAIT_ON_FILE_OK None w = (Inr (Some ri), w')"
    using w1(1) pdu by (subst file_loop.simps) (simp add: wait_on_file_ok_state_def bnd_def)
  moreover have "set (open_fds w') = set (open_fds w1) - {nat s}"
    unfolding r(5) using fresh pos(1) by auto
  then have "set (open_fds w') = insert x (set (open_fds w)) - {nat s}"
    unfolding w1(7) using w1(6) by blast
  moreover have "sent w' = sent w @ replicate (k + 1) (s, pdu, a) @
      (s, pdu_of ck 0 34 [], src) # map (\<lambda>d. (s, d, src)) (rr_run ck 1 (n + 1))"
    using r(3) w1(3) by simp
  ultimately show ?thesis using pdu r(2,4) w1(6) by blast
qed

lemma four_opened_one_closed:
  assumes "m \<notin> A" "s \<notin> insert m A" "t \<notin> insert s (insert m A)"
    and "x \<notin> insert t (insert s (insert m A))"
    and "B = insert x (insert t (insert s (insert m A))) - {s}"
  shows "B = A \<union> {x, t, m} \<and> A \<inter> {x, t, m} = {} \<and> card {x, t, m} = 3"
  using assms by auto

text \<open>A whole run of \<open>main\<close>.\<close>

lemma rcopy_session:
  assumes "checkArgs to_float argv = Inr port" "k < 10"
    and "sockets_ok w" "heap w = (\<lambda>_. True)" "resolve w (argv ! 6) port = Some a" "writable w (argv ! 2)"
    and "pset w = initial_pollset"
    and "7 \<le> length d" "length d \<le> MAXBUF + 7" "d ! 6 = 9"
    and "0 < b" "b \<le> MAXBUF" "length f \<le> n * b" "n + 1 < 2 ^ 32"
    and "schedule w = replicate k Quiet @ Arrive d src #
      map (\<lambda>d. Arrive d src) (data_run ck (file_chunk b f) 1 (n + 1)) @ es"
  shows "\<exists>pdu ri w' s leaked. request_pdu ck argv = Inr pdu \<and>
    rcopy_main ck to_float argv g w = (Inr (Some ri), w') \<and> outFile ri = f \<and> schedule w' = es \<and>
    sent w' = sent w @ replicate (k + 1) (s, pdu, a) @
      (s, pdu_of ck 0 34 [], src) # map (\<lambda>d. (s, d, src)) (rr_run ck 1 (n + 1)) \<and>
    set (open_fds w') = set (open_fds w) \<union> leaked \<and> set (open_fds w) \<inter> leaked = {} \<and> card leaked = 3"
proof -
  let ?m = "lowest_free (open_fds w)"
  let ?s = "lowest_free (?m # open_fds w)"
  let ?t = "lowest_free (?s # ?m # open_fds w)"
  let ?w = "w\<lparr>open_fds := ?t # ?s # ?m # open_fds w\<rparr>"
  have args: "length (argv ! 1) \<le> 100" "0 < atoi (argv ! 3)"
    using assms(1) by (auto simp: checkArgs_def split: if_splits)
  note F = lowest_free_props [where fds = "open_fds w"] lowest_free_props [where fds = "?m # open_fds w"]
    lowest_free_props [where fds = "?s # ?m # open_fds w"]
  have "?s \<noteq> 0"
  proof
    assume z: "?s = 0"
    then have "?m \<noteq> 0" using F(3) by auto
    then have "0 \<in> set (open_fds w)" using F(2) [of 0] by simp
    with F(3) z show False by simp
  qed
  then have "client_ready (argv ! 6) port a (int ?s) ?w"
    using assms(3-5,7) F(4) by (auto simp: client_ready_def initial_pollset_def)
  moreover have "schedule ?w = schedule w" "writable ?w (argv ! 2)" using assms(6) by simp_all
  ultimately obtain pdu ri w' x where r: "request_pdu ck argv = Inr pdu"
    "file_loop ck argv g (int ?s) port WAIT_ON_FILE_OK None ?w = (Inr (Some ri), w')"
    "outFile ri = f" "schedule w' = es" "sent w' = sent ?w @ replicate (k + 1) (int ?s, pdu, a) @
      (int ?s, pdu_of ck 0 34 [], src) # map (\<lambda>d. (int ?s, d, src)) (rr_run ck 1 (n + 1))"
    "x \<notin> insert (nat (int ?s)) (set (open_fds ?w))"
    "set (open_fds w') = insert x (set (open_fds ?w)) - {nat (int ?s)}"
    using file_loop_orderly [OF _ args assms(2,8-10) _ assms(11-14), of port a "int ?s" ?w src ck es g]
      assms(15) by metis
  have st: "start_state argv port (w\<lparr>open_fds := ?s # ?m # open_fds w\<rparr>) = (Inr WAIT_ON_FILE_OK, ?w)"
    using assms(3,5) by (simp add: start_state_def setupUdpClientToServer_eq bnd_def)
  have "file_loop ck argv g (int ?s) port START_C None (w\<lparr>open_fds := ?s # ?m # open_fds w\<rparr>) = (Inr (Some ri), w')"
    using r(2) st by (subst file_loop.simps) (simp add: bnd_def)
  then have "rcopy_main ck to_float argv g w = (Inr (Some ri), w')"
    using assms(1,3,5) by (simp add: rcopy_main_def processFile_def setupUdpClientToServer_eq bnd_def)
  moreover have "set (open_fds w') = set (open_fds w) \<union> {x, ?t, ?m} \<and>
      set (open_fds w) \<inter> {x, ?t, ?m} = {} \<and> card {x, ?t, ?m} = 3"
    using r(6,7) F(1,3,5) by (intro four_opened_one_closed [where s = ?s]) simp_all
  moreover have "sent w' = sent w @ replicate (k + 1) (int ?s, pdu, a) @
      (int ?s, pdu_of ck 0 34 [], src) # map (\<lambda>d. (int ?s, d, src)) (rr_run ck 1 (n + 1))"
    using r(5) by simp
  ultimately show ?thesis using r(1,3,4) by blast
qed

text \<open>
  C39: A whole run of \<open>rcopy\<close> on an orderly network, for every accepted command line and every
  file: after up to nine lost requests and an OK, the client writes the file that arrives in
  packets of \<open>b\<close> bytes, acknowledges the OK, every packet and the EOF, all from one
  descriptor, and returns.  That descriptor is closed; three others are left open: the sockets of
  \<open>main\<close> and \<open>start_state\<close> and the first output stream.
\<close>

theorem client_session:
  assumes "checkArgs to_float argv = Inr port" "k < 10"
    and "sockets_ok w" "heap w = (\<lambda>_. True)" "resolve w (argv ! 6) port = Some a" "writable w (argv ! 2)"
    and "pset w = initial_pollset"
    and "7 \<le> length d" "length d \<le> MAXBUF + 7" "d ! 6 = 9"
    and "0 < b" "b \<le> MAXBUF" "length f \<le> n * b" "n + 1 < 2 ^ 32"
    and "schedule w = replicate k Quiet @ Arrive d src #
      map (\<lambda>d. Arrive d src) (data_run ck (file_chunk b f) 1 (n + 1)) @ es"
  shows "\<exists>pdu ri w' s leaked. request_pdu ck argv = Inr pdu \<and>
    rcopy_main ck to_float argv g w = (Inr (Some ri), w') \<and> outFile ri = f \<and> schedule w' = es \<and>
    sent w' = sent w @ replicate (k + 1) (s, pdu, a) @
      (s, pdu_of ck 0 34 [], src) # map (\<lambda>d. (s, d, src)) (rr_run ck 1 (n + 1)) \<and>
    set (open_fds w') = set (open_fds w) \<union> leaked \<and> set (open_fds w) \<inter> leaked = {} \<and> card leaked = 3"
  by (rule rcopy_session [OF assms])

theorem client_session_witness:
  "\<exists>pdu ri w' s. rcopy_main (\<lambda>_. 0) (\<lambda>_. Some 0) [[], [97], [98], [52], [50], [48], [104], [57]] 0
       (start_world (replicate 1 Quiet @ Arrive (pdu_of (\<lambda>_. 0) 0 9 [97]) 7 #
          map (\<lambda>d. Arrive d 7) (data_run (\<lambda>_. 0) (file_chunk 2 [1, 2, 3]) 1 (2 + 1)) @ [])) =
     (Inr (Some ri), w') \<and> outFile ri = [1, 2, 3] \<and>
     sent w' = replicate (1 + 1) (s, pdu, 0) @
       (s, pdu_of (\<lambda>_. 0) 0 34 [], 7) # map (\<lambda>d. (s, d, 7)) (rr_run (\<lambda>_. 0) 1 (2 + 1))"
proof -
  let ?argv = "[[], [97], [98], [52], [50], [48], [104], [57]] :: byte list list"
  let ?w = "start_world (replicate 1 Quiet @ Arrive (pdu_of (\<lambda>_. 0) 0 9 [97]) 7 #
    map (\<lambda>d. Arrive d 7) (data_run (\<lambda>_. 0) (file_chunk 2 [1, 2, 3]) 1 (2 + 1)) @ [])"
  have args: "checkArgs (\<lambda>_. Some 0) ?argv = Inr 9" by code_simp
  have w: "sockets_ok ?w" "heap ?w = (\<lambda>_. True)" "resolve ?w (?argv ! 6) 9 = Some 0" "writable ?w (?argv ! 2)"
    "pset ?w = initial_pollset" "sent ?w = []"
    "schedule ?w = replicate 1 Quiet @ Arrive (pdu_of (\<lambda>_. 0) 0 9 [97]) 7 #
      map (\<lambda>d. Arrive d 7) (data_run (\<lambda>_. 0) (file_chunk 2 [1, 2, 3]) 1 (2 + 1)) @ []"
    unfolding start_world_def by simp_all
  have d: "7 \<le> length (pdu_of (\<lambda>_. 0) 0 9 [97])" "length (pdu_of (\<lambda>_. 0) 0 9 [97]) \<le> MAXBUF + 7"
    "pdu_of (\<lambda>_. 0) 0 9 [97] ! 6 = 9" by (simp_all add: MAXBUF_def nth_pdu_of)
  have "(1 :: nat) < 10" "(0 :: nat) < 2" "(2 :: nat) \<le> MAXBUF" "length [1 :: byte, 2, 3] \<le> 2 * 2"
    "(2 :: nat) + 1 < 2 ^ 32" by (simp_all add: MAXBUF_def)
  from client_session [OF args this(1) w(1-5) d this(2-5) w(7), of 0] show ?thesis
    unfolding w(6) by auto
qed

end
