(* ===== verification/Transitions.thy ===== *)
theory Transitions
  imports Main
begin

text \<open>
  Two contracts of a step relation: an invariant that every step preserves, and progress
  towards a goal along a well-founded rank.  What follows from them over whole runs is proved
  here once; the protocol interprets both.
\<close>

locale invariant_system =
  fixes step :: "'s \<Rightarrow> 's \<Rightarrow> bool" and inv :: "'s \<Rightarrow> bool"
  assumes step_inv: "inv s \<Longrightarrow> step s t \<Longrightarrow> inv t"
begin

lemma run_inv: "step\<^sup>*\<^sup>* s t \<Longrightarrow> inv s \<Longrightarrow> inv t"
  by (induction rule: rtranclp_induct) (auto intro: step_inv)

end

text \<open>
  \<open>active\<close> states still have a run ahead of them; from each there is a run to the goal or to an
  active state of smaller rank.
\<close>

locale progress_system = invariant_system +
  fixes active goal :: "'a \<Rightarrow> bool" and rank :: "('a \<times> 'a) set"
  assumes wf_rank: "wf rank"
    and progress: "inv s \<Longrightarrow> active s \<Longrightarrow> \<exists>t. step\<^sup>*\<^sup>* s t \<and> (goal t \<or> active t \<and> (t, s) \<in> rank)"
begin

lemma reaches_goal: "inv s \<Longrightarrow> active s \<Longrightarrow> \<exists>t. step\<^sup>*\<^sup>* s t \<and> goal t"
proof (induction s rule: wf_induct_rule [OF wf_rank])
  case (1 s)
  from progress [OF "1.prems"] obtain t where
    t: "step\<^sup>*\<^sup>* s t" "goal t \<or> active t \<and> (t, s) \<in> rank" by blast
  show ?case
  proof (cases "goal t")
    case True
    with t(1) show ?thesis by blast
  next
    case False
    with t(2) have a: "active t" "(t, s) \<in> rank" by simp_all
    from "1.IH" [OF a(2) run_inv [OF t(1) "1.prems"(1)] a(1)] obtain u where
      "step\<^sup>*\<^sup>* t u" "goal u" by blast
    with t(1) show ?thesis by (meson rtranclp_trans)
  qed
qed

end

end
