(* ===== verification/Sliding_Window.thy ===== *)
theory Sliding_Window
  imports Sender Transitions
begin

text \<open>
  What the server's data phase promises, as a transition system of its own: a sliding window
  of at most \<open>cap\<close> unacknowledged chunks, of which only the two ends and the datagrams handed
  to the network are left.  The acknowledgements it may react to are a parameter, the receive
  buffers \<open>A\<close>.  \<open>sw_inv\<close> holds along every run (\<open>sw\<close> interprets \<open>invariant_system\<close>); it says
  what is in the log and that the window only moves on acknowledgements heard.
  \<open>Sender_Safety\<close> shows that \<open>send_data_state\<close> implements this system.
\<close>

subsection \<open>The specification\<close>

record swindow =
  sw_low :: nat
  sw_next :: nat
  sw_out :: "byte list list"

definition sw_start :: swindow where
  "sw_start = \<lparr>sw_low = 1, sw_next = 1, sw_out = []\<rparr>"

inductive sw_step :: "cksum \<Rightarrow> nat \<Rightarrow> (nat \<Rightarrow> byte list) \<Rightarrow> rbuf set \<Rightarrow> swindow \<Rightarrow> swindow \<Rightarrow> bool"
  for ck :: cksum and cap :: nat and chunk :: "nat \<Rightarrow> byte list" and A :: "rbuf set" where
  send_new: "chunk (sw_next s) \<noteq> [] \<Longrightarrow> sw_next s < sw_low s + cap \<Longrightarrow>
    sw_step ck cap chunk A s (s\<lparr>sw_next := sw_next s + 1,
      sw_out := sw_out s @ [pdu_of ck (word_of_nat (sw_next s)) 16 (chunk (sw_next s))]\<rparr>)"
| cumulative: "r \<in> A \<Longrightarrow> hdr_flag r = 5 \<Longrightarrow>
    sw_step ck cap chunk A s (s\<lparr>sw_low := max (sw_low s) (min (unat (hdr_seq r)) (sw_next s))\<rparr>)"
| selective: "r \<in> A \<Longrightarrow> hdr_flag r = 6 \<Longrightarrow> sw_low s \<le> m \<Longrightarrow> m < sw_next s \<Longrightarrow>
    m mod cap = unat (hdr_seq r) mod cap \<Longrightarrow>
    sw_step ck cap chunk A s (s\<lparr>sw_out := sw_out s @ [pdu_of ck (hdr_seq r) 17 (chunk m)]\<rparr>)"
| timeout: "sw_next s = sw_low s + cap \<Longrightarrow> sw_low s \<le> unat m \<Longrightarrow> unat m < sw_next s \<Longrightarrow>
    sw_step ck cap chunk A s (s\<lparr>sw_out := sw_out s @ [pdu_of ck m 18 (chunk (unat m))]\<rparr>)"

text \<open>The receive buffers a schedule of events can leave behind, of datagrams cut to a header.\<close>

definition heard :: "event list \<Rightarrow> rbuf set" where
  "heard es = {r. \<exists>d a jk. Arrive d a \<in> set es \<and> r = rbuf_of (take 7 d) jk}"

lemma heardI: "Arrive d a \<in> set es \<Longrightarrow> rbuf_of (take 7 d) jk \<in> heard es"
  unfolding heard_def by blast

lemma heard_mono: "set es \<subseteq> set es' \<Longrightarrow> heard es \<subseteq> heard es'"
  unfolding heard_def by blast

subsection \<open>What may leave the server\<close>

definition resent_ok :: "cksum \<Rightarrow> (nat \<Rightarrow> byte list) \<Rightarrow> nat \<Rightarrow> byte list \<Rightarrow> bool" where
  "resent_ok ck chunk nxt d \<longleftrightarrow>
     (\<exists>m. 1 \<le> unat m \<and> unat m < nxt \<and> d = pdu_of ck m 18 (chunk (unat m))) \<or>
     (\<exists>sq m. 1 \<le> m \<and> m < nxt \<and> d = pdu_of ck sq 17 (chunk m))"

definition log_ok :: "cksum \<Rightarrow> (nat \<Rightarrow> byte list) \<Rightarrow> nat \<Rightarrow> byte list list \<Rightarrow> bool" where
  "log_ok ck chunk nxt ds \<longleftrightarrow>
     filter (\<lambda>d. d ! 6 = 16) ds = map (\<lambda>s. pdu_of ck (word_of_nat s) 16 (chunk s)) [1..<nxt] \<and>
     (\<forall>d \<in> set ds. d ! 6 = 16 \<or> resent_ok ck chunk nxt d)"

lemma resent_timeout:
  "1 \<le> unat m \<Longrightarrow> unat m < nxt \<Longrightarrow> resent_ok ck chunk nxt (pdu_of ck m 18 (chunk (unat m)))"
  unfolding resent_ok_def by blast

lemma resent_selective:
  "1 \<le> m \<Longrightarrow> m < nxt \<Longrightarrow> resent_ok ck chunk nxt (pdu_of ck sq 17 (chunk m))"
  unfolding resent_ok_def by blast

lemma resent_not_first: "resent_ok ck chunk nxt d \<Longrightarrow> d ! 6 \<noteq> 16"
  by (auto simp: resent_ok_def nth_pdu_of)

lemma resent_ok_mono: "resent_ok ck chunk nxt d \<Longrightarrow> nxt \<le> nxt' \<Longrightarrow> resent_ok ck chunk nxt' d"
  unfolding resent_ok_def by (elim disjE exE conjE; blast intro: order_less_le_trans)

lemma log_ok_resend:
  assumes "log_ok ck chunk nxt ds" "\<forall>d \<in> set es. resent_ok ck chunk nxt d"
  shows "log_ok ck chunk nxt (ds @ es)"
  using assms resent_not_first by (auto simp: log_ok_def filter_empty_conv)

lemma log_ok_first:
  assumes "log_ok ck chunk nxt ds" "1 \<le> nxt"
  shows "log_ok ck chunk (nxt + 1) (ds @ [pdu_of ck (word_of_nat nxt) 16 (chunk nxt)])"
  using assms resent_ok_mono [of ck chunk nxt _ "nxt + 1"]
  by (auto simp: log_ok_def nth_pdu_of simp del: of_nat_add of_nat_Suc)

text \<open>What the invariant of the log says of the datagrams themselves.\<close>

lemma log_ok_datagrams:
  assumes "log_ok ck chunk n (map (fst \<circ> snd) sends)"
  shows "map (fst \<circ> snd) (filter (\<lambda>(_, d, _). d ! 6 = 16) sends) =
      map (\<lambda>s. pdu_of ck (word_of_nat s) 16 (chunk s)) [1..<n]"
    "\<forall>(_, d, _) \<in> set sends. d ! 6 = 16 \<or>
       (\<exists>m. 1 \<le> unat m \<and> unat m < n \<and> d = pdu_of ck m 18 (chunk (unat m))) \<or>
       (\<exists>sq m. 1 \<le> m \<and> m < n \<and> d = pdu_of ck sq 17 (chunk m))"
proof -
  show "map (fst \<circ> snd) (filter (\<lambda>(_, d, _). d ! 6 = 16) sends) =
      map (\<lambda>s. pdu_of ck (word_of_nat s) 16 (chunk s)) [1..<n]"
    using assms by (simp add: log_ok_def filter_map comp_def case_prod_unfold)
  show "\<forall>(_, d, _) \<in> set sends. d ! 6 = 16 \<or>
       (\<exists>m. 1 \<le> unat m \<and> unat m < n \<and> d = pdu_of ck m 18 (chunk (unat m))) \<or>
       (\<exists>sq m. 1 \<le> m \<and> m < n \<and> d = pdu_of ck sq 17 (chunk m))"
    using assms unfolding log_ok_def resent_ok_def by fastforce
qed

subsection \<open>The invariant of the specification\<close>

definition sw_inv :: "cksum \<Rightarrow> nat \<Rightarrow> (nat \<Rightarrow> byte list) \<Rightarrow> rbuf set \<Rightarrow> swindow \<Rightarrow> bool" where
  "sw_inv ck cap chunk A s \<longleftrightarrow> 1 \<le> sw_low s \<and> sw_low s \<le> sw_next s \<and> sw_next s \<le> sw_low s + cap \<and>
     log_ok ck chunk (sw_next s) (sw_out s) \<and>
     (1 < sw_low s \<longrightarrow> (\<exists>r \<in> A. hdr_flag r = 5 \<and> sw_low s \<le> unat (hdr_seq r)))"

lemma sw_inv_start: "sw_inv ck cap chunk A sw_start"
  by (simp add: sw_inv_def sw_start_def log_ok_def)

lemma sw_inv_resend:
  assumes "sw_inv ck cap chunk A s" "resent_ok ck chunk (sw_next s) d"
  shows "sw_inv ck cap chunk A (s\<lparr>sw_out := sw_out s @ [d]\<rparr>)"
  using assms log_ok_resend [of ck chunk "sw_next s" "sw_out s" "[d]"] by (simp add: sw_inv_def)

interpretation sw: invariant_system "sw_step ck cap chunk A" "sw_inv ck cap chunk A"
proof unfold_locales
  fix s t
  assume inv: "sw_inv ck cap chunk A s" and st: "sw_step ck cap chunk A s t"
  from st show "sw_inv ck cap chunk A t"
  proof cases
    case send_new
    with inv log_ok_first [of ck chunk "sw_next s" "sw_out s"] show ?thesis
      by (auto simp: sw_inv_def)
  next
    case (cumulative r)
    with inv show ?thesis by (auto simp: sw_inv_def max_def min_def)
  next
    case (selective r m)
    with inv have "resent_ok ck chunk (sw_next s) (pdu_of ck (hdr_seq r) 17 (chunk m))"
      by (intro resent_selective) (auto simp: sw_inv_def)
    with inv selective(1) show ?thesis by (simp add: sw_inv_resend)
  next
    case (timeout m)
    with inv have "resent_ok ck chunk (sw_next s) (pdu_of ck m 18 (chunk (unat m)))"
      by (intro resent_timeout) (auto simp: sw_inv_def)
    with inv timeout(1) show ?thesis by (simp add: sw_inv_resend)
  qed
qed

lemma sw_run_inv: "(sw_step ck cap chunk A)\<^sup>*\<^sup>* sw_start s \<Longrightarrow> sw_inv ck cap chunk A s"
  by (erule sw.run_inv) (rule sw_inv_start)

end
