(* ===== verification/Sender_Safety.thy ===== *)
theory Sender_Safety
  imports Sliding_Window
begin

text \<open>
  The server's data phase against an arbitrary network: whatever datagrams arrive on the child
  socket, from whomever, the window stays a contiguous run of the file's chunks
  (\<open>snd_window\<close>), and every turn of the loops is a run of the specification
  \<open>Sliding_Window\<close> (\<open>sender_inv\<close>).  So \<open>send_data_state\<close> refines the specification, and what
  the specification's invariant says holds of the datagrams it hands to \<open>sendtoErr\<close>: the first
  transmissions are the chunks in order and without gaps, every timeout resends a chunk under
  its own number, the EOF goes out only behind the last chunk, and no more chunks are
  outstanding than the window has slots.
\<close>

subsection \<open>Any acknowledgement\<close>

lemma srej_outcomes:
  assumes win: "snd_window ck chunk lo nxt q" and fl: "hdr_flag b = 6"
  shows "(\<exists>m. lo \<le> m \<and> m < nxt \<and> m mod queue_cap q = unat (hdr_seq b) mod queue_cap q \<and>
      handle_ack ck q b = Inr (q, [pdu_of ck (hdr_seq b) 17 (chunk m)])) \<or>
    handle_ack ck q b = Inr (q, []) \<or>
    handle_ack ck q b = Inl NullPointer \<and> \<not> (lo \<le> unat (hdr_seq b) \<and> unat (hdr_seq b) < nxt)"
proof -
  note W = snd_windowD [OF win]
  from W(1) obtain es where es: "entries q = Some es"
    "\<And>i. i < length es \<Longrightarrow> entry_ok (length es) i (es ! i)" by (elim queue_okE) blast
  let ?sq = "hdr_seq b"
  let ?i = "unat ?sq mod length es"
  note slot = queue_slot [OF W(1) es(1), of ?sq]
  have ok: "entry_ok (length es) ?i (es ! ?i)" using es(2) slot(2) by blast
  have cap: "length es = queue_cap q" using W(1) es(1) by (auto elim!: queue_okE simp: queue_cap_def)
  show ?thesis
  proof (cases "valid (es ! ?i)")
    case True
    let ?m = "sequenceNum (es ! ?i)"
    obtain p where p: "packet (es ! ?i) = Some p" "packetLen (es ! ?i) = int (length p)"
      "unat ?m mod length es = ?i" using ok True by (auto simp: entry_ok_def)
    then have l: "queue_lookup q ?m = Some p" using es(1) True by (simp add: queue_lookup_def slot_lookup_def)
    then have m: "lo \<le> unat ?m" "unat ?m < nxt"
      using window_rangeD(3) [OF W(7), of ?m] by (auto split: if_splits)
    then have "p = pdu_of ck ?m 16 (chunk (unat ?m))" using W(8) l by simp
    then have "handle_ack ck q b = Inr (q, [pdu_of ck ?sq 17 (chunk (unat ?m))])"
      using fl es(1) slot(1,2) True p(1,2) W(5) [of "unat ?m"]
      by (simp add: handle_ack_def Let_def CircularQueue_get_def entries_of_def entry_packet_def createPDU_full)
    with m p(3) cap show ?thesis by (intro disjI1 exI [of _ "unat ?m"]) simp
  next
    case False
    then have none: "packet (es ! ?i) = None" using ok by (simp add: entry_ok_def)
    have out: "\<not> (lo \<le> unat ?sq \<and> unat ?sq < nxt)"
      using W(8) [of ?sq] False es(1) by (auto simp: queue_lookup_def slot_lookup_def)
    show ?thesis
      using fl es(1) slot(1,2) False none out
      by (simp add: handle_ack_def Let_def CircularQueue_get_def entries_of_def entry_packet_def)
  qed
qed

text \<open>An acknowledgement heard moves the window as the specification does, or meets the hole.\<close>

lemma ack_outcomes:
  assumes win: "snd_window ck chunk lo nxt q"
  obtains (moves) lo' q' pdus where "handle_ack ck q b = Inr (q', pdus)" "lo \<le> lo'"
      "snd_window ck chunk lo' nxt q'" "queue_cap q' = queue_cap q"
      "\<forall>p \<in> set pdus. \<exists>m. lo \<le> m \<and> m < nxt \<and>
         m mod queue_cap q = unat (hdr_seq b) mod queue_cap q \<and>
         p = pdu_of ck (hdr_seq b) 17 (chunk m)"
      "\<And>A out. b \<in> A \<Longrightarrow> (sw_step ck (queue_cap q) chunk A)\<^sup>*\<^sup>*
         \<lparr>sw_low = lo, sw_next = nxt, sw_out = out\<rparr> \<lparr>sw_low = lo', sw_next = nxt, sw_out = out @ pdus\<rparr>"
  | (hole) "handle_ack ck q b = Inl NullPointer" "hdr_flag b = 6"
      "\<not> (lo \<le> unat (hdr_seq b) \<and> unat (hdr_seq b) < nxt)"
proof -
  let ?s = "\<lambda>lo out. \<lparr>sw_low = lo, sw_next = nxt, sw_out = out\<rparr>"
  consider "hdr_flag b = 5" | "hdr_flag b = 6" | "hdr_flag b \<noteq> 5" "hdr_flag b \<noteq> 6" by blast
  then show thesis
  proof cases
    case 1
    let ?lo = "max lo (min (unat (hdr_seq b)) nxt)"
    from handle_ack_rr [OF win 1] obtain q' where q': "handle_ack ck q b = Inr (q', [])"
      "queue_cap q' = queue_cap q" "snd_window ck chunk ?lo nxt q'" by blast
    have "(sw_step ck (queue_cap q) chunk A)\<^sup>*\<^sup>* (?s lo out) (?s ?lo (out @ []))" if "b \<in> A" for A out
      using sw_step.cumulative [OF that 1, of ck "queue_cap q" chunk "?s lo out"] by auto
    with q' show thesis by (intro moves [of q' "[]" ?lo]) auto
  next
    case 2
    from srej_outcomes [OF win 2] show thesis
    proof (elim disjE exE conjE)
      fix m
      assume m: "lo \<le> m" "m < nxt" "m mod queue_cap q = unat (hdr_seq b) mod queue_cap q"
        "handle_ack ck q b = Inr (q, [pdu_of ck (hdr_seq b) 17 (chunk m)])"
      have "(sw_step ck (queue_cap q) chunk A)\<^sup>*\<^sup>* (?s lo out)
          (?s lo (out @ [pdu_of ck (hdr_seq b) 17 (chunk m)]))" if "b \<in> A" for A out
        using sw_step.selective [OF that 2, of "?s lo out" m "queue_cap q" ck chunk] m(1-3) by auto
      with m win show thesis by (intro moves [OF m(4) order_refl win refl]) auto
    next
      assume "handle_ack ck q b = Inr (q, [])"
      from moves [OF this order_refl win refl] show thesis by simp
    qed (use 2 hole in blast)
  next
    case 3
    from moves [OF handle_ack_other [OF 3] order_refl win refl] show thesis by simp
  qed
qed

lemma ack_moves:
  assumes "snd_window ck chunk lo nxt q" "handle_ack ck q b = Inr (q', pdus)" "b \<in> A"
  shows "queue_cap q' = queue_cap q \<and> (\<exists>lo'. snd_window ck chunk lo' nxt q' \<and>
    (sw_step ck (queue_cap q) chunk A)\<^sup>*\<^sup>* \<lparr>sw_low = lo, sw_next = nxt, sw_out = out\<rparr>
       \<lparr>sw_low = lo', sw_next = nxt, sw_out = out @ pdus\<rparr>)"
  using assms(1)
proof (cases rule: ack_outcomes [where b = b])
  case (moves lo' q1 pdus1)
  with assms(2) moves(6) [OF assms(3)] show ?thesis by auto
next
  case hole
  with assms(2) show ?thesis by simp
qed

text \<open>
  C14: The server's side is type safe but for one hole: with any bytes in its receive buffer an
  acknowledgement is processed without a fault and leaves a contiguous window of the file's
  chunks, unless it is a SREJ for a packet outside the window whose slot is empty, which reads
  through \<open>NULL\<close>.  What it sends carries the number asked for and the chunk of the packet in
  that slot.
\<close>

theorem server_type_safe:
  assumes "snd_window ck chunk lo nxt q"
  shows "(\<exists>lo' q' pdus. handle_ack ck q b = Inr (q', pdus) \<and> lo \<le> lo' \<and>
      snd_window ck chunk lo' nxt q' \<and>
      (\<forall>p \<in> set pdus. \<exists>m. lo \<le> m \<and> m < nxt \<and>
         m mod queue_cap q = unat (hdr_seq b) mod queue_cap q \<and>
         p = pdu_of ck (hdr_seq b) 17 (chunk m))) \<or>
    handle_ack ck q b = Inl NullPointer \<and> hdr_flag b = 6 \<and>
      \<not> (lo \<le> unat (hdr_seq b) \<and> unat (hdr_seq b) < nxt)"
  by (rule ack_outcomes [OF assms, of b]) blast+

theorem server_type_safe_witness:
  "\<exists>q. (\<exists>q' pdus. handle_ack (\<lambda>_. 0) q (\<lambda>_. 5) = Inr (q', pdus)) \<and>
     snd_window (\<lambda>_. 0) (file_chunk 2 [1, 2]) 1 2 q"
proof -
  obtain q where q: "snd_window (\<lambda>_. 0) (file_chunk 2 [1, 2]) 1 2 q" using one_slot_full by blast
  have "hdr_flag (\<lambda>_. 5) = 5" by (simp add: hdr_flag_def)
  with server_type_safe [OF q, of "\<lambda>_. 5"] q show ?thesis by auto
qed

subsection \<open>The invariant of the data phase\<close>

text \<open>
  \<open>pre\<close> is what had been sent before the data phase, \<open>sq\<close> the number of the next chunk; what has
  been sent since then is the log of a run of the specification.
\<close>

definition sender_inv ::
    "cksum \<Rightarrow> nat \<Rightarrow> nat \<Rightarrow> byte list \<Rightarrow> rbuf set \<Rightarrow> (int \<times> byte list \<times> addr) list \<Rightarrow>
     CircularQueue \<Rightarrow> u32 \<Rightarrow> ServerInfo \<Rightarrow> world \<Rightarrow> bool" where
  "sender_inv ck cap b f A pre q sq info w \<longleftrightarrow>
     heap w = (\<lambda>_. True) \<and> heard (schedule w) \<subseteq> A \<and> queue_cap q = cap \<and>
     unat (bufferSize info) = b \<and> 1 \<le> unat sq \<and> unat sq \<le> length f + 1 \<and>
     in_file info = Some (drop ((unat sq - 1) * b) f) \<and>
     (\<exists>lo log. sent w = pre @ log \<and> snd_window ck (file_chunk b f) lo (unat sq) q \<and>
        (sw_step ck cap (file_chunk b f) A)\<^sup>*\<^sup>* sw_start
          \<lparr>sw_low = lo, sw_next = unat sq, sw_out = map (fst \<circ> snd) log\<rparr>)"

lemma sender_invE:
  assumes "sender_inv ck cap b f A pre q sq info w"
  obtains lo log where "heap w = (\<lambda>_. True)" "heard (schedule w) \<subseteq> A" "queue_cap q = cap"
    "unat (bufferSize info) = b" "1 \<le> unat sq" "unat sq \<le> length f + 1"
    "in_file info = Some (drop ((unat sq - 1) * b) f)" "sent w = pre @ log"
    "snd_window ck (file_chunk b f) lo (unat sq) q"
    "(sw_step ck cap (file_chunk b f) A)\<^sup>*\<^sup>* sw_start
       \<lparr>sw_low = lo, sw_next = unat sq, sw_out = map (fst \<circ> snd) log\<rparr>"
  using assms unfolding sender_inv_def by blast

definition keeps :: "world \<Rightarrow> world \<Rightarrow> bool" where
  "keeps w w' \<longleftrightarrow> sent w' = sent w \<and> heap w' = heap w \<and> set (schedule w') \<subseteq> set (schedule w)"

lemma keeps_refl: "keeps w w" and keeps_trans: "keeps w v \<Longrightarrow> keeps v u \<Longrightarrow> keeps w u"
  by (auto simp: keeps_def)

lemma on_pset_keeps: "on_pset f w = (r, w') \<Longrightarrow> keeps w w'"
  by (auto simp: on_pset_def keeps_def split: sum.splits)

lemma alloc_keeps: "alloc w = (r, w') \<Longrightarrow> keeps w w'"
  by (auto simp: alloc_def keeps_def)

lemma setup_poll_set_keeps: "setup_poll_set w = (r, w') \<Longrightarrow> keeps w w'"
  by (auto simp: setup_poll_set_def bnd_def alloc_def keeps_def dest!: on_pset_keeps)

lemma add_to_poll_set_keeps: "add_to_poll_set s w = (r, w') \<Longrightarrow> keeps w w'"
  by (auto simp: add_to_poll_set_def bnd_def alloc_def keeps_def dest!: on_pset_keeps split: if_splits)

lemma set_schedule_suffix: "dropWhile P xs = y # ys \<Longrightarrow> y \<in> set xs \<and> set ys \<subseteq> set xs"
  by (metis list.simps(15) insert_subset set_dropWhileD subsetI)

lemma poll_call_keeps: "poll_call t w = (r, w') \<Longrightarrow> keeps w w'"
  by (auto simp: poll_call_def keeps_def split: list.splits event.splits if_splits
      dest!: set_schedule_suffix)

lemma recvfrom_keeps: "recvfrom s n w = (r, w') \<Longrightarrow> keeps w w'"
  by (auto simp: recvfrom_def Let_def keeps_def split: if_splits list.splits event.splits
      dest!: set_schedule_suffix)

lemma safeRecvfrom_keeps: "safeRecvfrom s n w = (r, w') \<Longrightarrow> keeps w w'"
  by (auto simp: safeRecvfrom_def bnd_def split: prod.splits sum.splits if_splits dest: recvfrom_keeps)

lemmas plumbing_keeps = alloc_keeps setup_poll_set_keeps add_to_poll_set_keeps poll_call_keeps safeRecvfrom_keeps

lemma recv_heard:
  assumes "safeRecvfrom s 7 w = (Inr (r, n, a), w')"
  shows "r \<in> heard (schedule w)"
proof -
  from assms have "recvfrom s 7 w = (Inr (r, n, a), w')" "\<not> n < 0"
    by (auto simp: safeRecvfrom_def bnd_eq_Inr split: if_splits)
  then obtain d es jk where "dropWhile (\<lambda>e. e = Quiet) (schedule w) = Arrive d a # es"
    "r = rbuf_of (take 7 d) jk"
    by (auto simp: recvfrom_def Let_def split: if_splits list.splits event.splits)
  with set_schedule_suffix show ?thesis by (fastforce intro: heardI)
qed

lemma sender_inv_keeps:
  "sender_inv ck cap b f A pre q sq info w \<Longrightarrow> keeps w w' \<Longrightarrow> sender_inv ck cap b f A pre q sq info w'"
  using heard_mono [of "schedule w'" "schedule w"] by (auto simp: sender_inv_def keeps_def)

lemma sender_inv_addr:
  "sender_inv ck cap b f A pre q sq (info\<lparr>clientAddr := a\<rparr>) w = sender_inv ck cap b f A pre q sq info w"
  by (simp add: sender_inv_def)

text \<open>Sending what the specification sends keeps the invariant, whatever the destination.\<close>

lemma sender_inv_moves:
  assumes "sender_inv ck cap b f A pre q sq info w" "send_all s pdus a w = (r, w')"
    and "queue_cap q' = queue_cap q"
    and "\<And>lo out. snd_window ck (file_chunk b f) lo (unat sq) q \<Longrightarrow> queue_cap q = cap \<Longrightarrow>
      \<exists>lo'. snd_window ck (file_chunk b f) lo' (unat sq) q' \<and>
        (sw_step ck cap (file_chunk b f) A)\<^sup>*\<^sup>* \<lparr>sw_low = lo, sw_next = unat sq, sw_out = out\<rparr>
           \<lparr>sw_low = lo', sw_next = unat sq, sw_out = out @ pdus\<rparr>"
  shows "sender_inv ck cap b f A pre q' sq info w'"
proof -
  from assms(1) obtain lo log where I: "heap w = (\<lambda>_. True)" "heard (schedule w) \<subseteq> A" "queue_cap q = cap"
    "unat (bufferSize info) = b" "1 \<le> unat sq" "unat sq \<le> length f + 1"
    "in_file info = Some (drop ((unat sq - 1) * b) f)" "sent w = pre @ log"
    "snd_window ck (file_chunk b f) lo (unat sq) q"
    "(sw_step ck cap (file_chunk b f) A)\<^sup>*\<^sup>* sw_start
       \<lparr>sw_low = lo, sw_next = unat sq, sw_out = map (fst \<circ> snd) log\<rparr>" by (elim sender_invE)
  let ?new = "map (\<lambda>m. (s, m, a)) pdus"
  from assms(4) [OF I(9,3), of "map (fst \<circ> snd) log"] obtain lo' where
    lo': "snd_window ck (file_chunk b f) lo' (unat sq) q'"
      "(sw_step ck cap (file_chunk b f) A)\<^sup>*\<^sup>* \<lparr>sw_low = lo, sw_next = unat sq, sw_out = map (fst \<circ> snd) log\<rparr>
         \<lparr>sw_low = lo', sw_next = unat sq, sw_out = map (fst \<circ> snd) log @ pdus\<rparr>" by blast
  have "map (fst \<circ> snd) (log @ ?new) = map (fst \<circ> snd) log @ pdus" by (simp add: comp_def)
  with rtranclp_trans [OF I(10) lo'(2)] have "(sw_step ck cap (file_chunk b f) A)\<^sup>*\<^sup>* sw_start
       \<lparr>sw_low = lo', sw_next = unat sq, sw_out = map (fst \<circ> snd) (log @ ?new)\<rparr>" by simp
  moreover have "sent w' = pre @ (log @ ?new)" "heap w' = heap w" "schedule w' = schedule w"
    using assms(2) I(8) by (auto simp: send_all_eq)
  ultimately show ?thesis using I(1-7) lo'(1) assms(3) unfolding sender_inv_def by metis
qed

subsection \<open>The loops\<close>

lemma wait_on_ack_inv:
  assumes "wait_on_ack_state ck q info w = (Inr (st, q', info'), w')" "sender_inv ck cap b f A pre q sq info w"
  shows "sender_inv ck cap b f A pre q' sq info' w'"
proof -
  from assms(1) obtain w1 w2 r w3 where w1: "setup_poll_set w = (Inr (), w1)"
    "add_to_poll_set (childSocket info) w1 = (Inr (), w2)" "poll_call 1000 w2 = (Inr r, w3)"
    and rest: "(if r \<le> 0 then (Inr (SEND_DATA, q, info), w3)
       else bnd (safeRecvfrom (childSocket info) 7) (\<lambda>(recvBuff, bytesRecv, src).
            let info1 = info\<lparr>clientAddr := src\<rparr>
            in if bytesRecv < 0 then ret (DONE, q, info1)
               else bnd (lift (to_stop (handle_ack ck q recvBuff))) (\<lambda>(window1, pdus).
                    bnd (send_all (childSocket info1) pdus (clientAddr info1)) (\<lambda>_.
                      ret (SEND_DATA, window1, info1)))) w3)
       = (Inr (st, q', info'), w')"
    by (auto simp: wait_on_ack_state_def bnd_eq_Inr split: if_splits)
  have "keeps w w3" using w1 by (blast intro: keeps_trans dest: plumbing_keeps)
  then have i3: "sender_inv ck cap b f A pre q sq info w3" using assms(2) sender_inv_keeps by blast
  show ?thesis
  proof (cases "r \<le> 0")
    case True
    with rest i3 show ?thesis by simp
  next
    case False
    with rest obtain rb n src w4 where rc: "safeRecvfrom (childSocket info) 7 w3 = (Inr (rb, n, src), w4)"
      and rest2: "(let info1 = info\<lparr>clientAddr := src\<rparr>
            in if n < 0 then ret (DONE, q, info1)
               else bnd (lift (to_stop (handle_ack ck q rb))) (\<lambda>(window1, pdus).
                    bnd (send_all (childSocket info1) pdus (clientAddr info1)) (\<lambda>_.
                      ret (SEND_DATA, window1, info1)))) w4 = (Inr (st, q', info'), w')"
      by (auto simp: bnd_eq_Inr)
    have i4: "sender_inv ck cap b f A pre q sq info w4"
      using i3 sender_inv_keeps safeRecvfrom_keeps [OF rc] by blast
    show ?thesis
    proof (cases "n < 0")
      case True
      with rest2 i4 show ?thesis by (auto simp: sender_inv_addr)
    next
      case False
      with rest2 obtain pdus where h: "handle_ack ck q rb = Inr (q', pdus)"
        and s: "send_all (childSocket info) pdus src w4 = (Inr (), w')" "info' = info\<lparr>clientAddr := src\<rparr>"
        by (auto simp: Let_def bnd_eq_Inr to_stop_eq_Inr)
      from i3 have "heard (schedule w3) \<subseteq> A" by (rule sender_invE)
      then have A: "rb \<in> A" using recv_heard [OF rc] by blast
      from i4 obtain lo where win: "snd_window ck (file_chunk b f) lo (unat sq) q" by (rule sender_invE)
      have "sender_inv ck cap b f A pre q' sq info w'"
        by (rule sender_inv_moves [OF i4 s(1) conjunct1 [OF ack_moves [OF win h A]]])
          (use ack_moves [OF _ h A] in blast)
      with s(2) show ?thesis by (simp add: sender_inv_addr)
    qed
  qed
qed

lemma drain_acks_inv:
  "drain_acks ck q info w = (Inr (q', info'), w') \<Longrightarrow> sender_inv ck cap b f A pre q sq info w \<Longrightarrow>
   sender_inv ck cap b f A pre q' sq info' w'"
proof (induction ck q info w rule: drain_acks.induct)
  case (1 ck q info w)
  from "1.prems"(1) obtain r w1 where poll: "poll_call 0 w = (Inr r, w1)"
    and rest: "(if r > 0 then bnd (wait_on_ack_state ck q info) (\<lambda>x w2.
        case x of (_, window1, info1) \<Rightarrow> drain_acks ck window1 info1 w2) w1
      else ret (q, info) w1) = (Inr (q', info'), w')"
    by (subst (asm) drain_acks.simps) (auto simp only: bnd_eq_Inr)
  have i1: "sender_inv ck cap b f A pre q sq info w1"
    using "1.prems"(2) sender_inv_keeps poll_call_keeps [OF poll] by blast
  show ?case
  proof (cases "r > 0")
    case False
    with rest i1 show ?thesis by simp
  next
    case True
    with rest obtain st q1 info1 w2 where
      w: "wait_on_ack_state ck q info w1 = (Inr (st, q1, info1), w2)"
      and d: "drain_acks ck q1 info1 w2 = (Inr (q', info'), w')"
      by (auto simp: bnd_eq_Inr)
    show ?thesis by (rule "1.IH" [OF poll True w refl refl d wait_on_ack_inv [OF w i1]])
  qed
qed

lemma resend_oldest_inv:
  assumes inv: "sender_inv ck cap b f A pre q sq info w" and full: "CircularQueue_is_full q"
    and re: "resend_oldest ck q = Inr pdus" "send_all s pdus a w = (r, w')"
  shows "sender_inv ck cap b f A pre q sq info w'"
proof (rule sender_inv_moves [OF inv re(2) refl])
  fix lo out
  assume win: "snd_window ck (file_chunk b f) lo (unat sq) q" and cap: "queue_cap q = cap"
  note W = snd_windowD [OF win]
  have n: "unat sq = lo + cap" using cq.full_range [OF W(1,7)] full cap W(3,4) by simp
  let ?s = "\<lambda>out. \<lparr>sw_low = lo, sw_next = unat sq, sw_out = out\<rparr>"
  have "(sw_step ck cap (file_chunk b f) A)\<^sup>*\<^sup>* (?s out) (?s (out @ pdus))"
  proof (cases "lo < unat sq")
    case True
    then obtain m where "lo \<le> unat m" "unat m < unat sq" "pdus = [pdu_of ck m 18 (file_chunk b f (unat m))]"
      using resend_oldest_window [OF win True] re(1) by auto
    with sw_step.timeout [of "?s out" cap m ck "file_chunk b f" A] n show ?thesis by auto
  next
    case False
    with W(3) win resend_oldest_empty [of ck _ lo q] re(1) show ?thesis by auto
  qed
  with win show "\<exists>lo'. snd_window ck (file_chunk b f) lo' (unat sq) q \<and>
    (sw_step ck cap (file_chunk b f) A)\<^sup>*\<^sup>* (?s out) \<lparr>sw_low = lo', sw_next = unat sq, sw_out = out @ pdus\<rparr>"
    by blast
qed

lemma wait_for_room_inv:
  "wait_for_room ck q info tc w = (Inr (gu, q', info', tc'), w') \<Longrightarrow> sender_inv ck cap b f A pre q sq info w \<Longrightarrow>
   sender_inv ck cap b f A pre q' sq info' w'"
proof (induction ck q info tc w rule: wait_for_room.induct)
  case (1 ck q info tc w)
  show ?case
  proof (cases "CircularQueue_is_full q")
    case False
    with "1.prems" show ?thesis by (subst (asm) wait_for_room.simps) simp
  next
    case True
    with "1.prems"(1) obtain poll w1 where p: "poll_call 1000 w = (Inr poll, w1)"
      and k: "(if poll > 0
             then bnd (wait_on_ack_state ck q info) (\<lambda>x w2.
                    case x of (_, window1, info1) \<Rightarrow> wait_for_room ck window1 info1 0 w2) w1
             else bnd (lift (to_stop (resend_oldest ck q))) (\<lambda>pdus.
                  bnd (send_all (childSocket info) pdus (clientAddr info)) (\<lambda>_ w2.
                    if tc + 1 \<ge> 10 then ret (True, q, info, tc + 1) w2
                    else wait_for_room ck q info (tc + 1) w2)) w1)
        = (Inr (gu, q', info', tc'), w')"
      by (subst (asm) wait_for_room.simps) (auto simp only: bnd_eq_Inr if_True)
    have i1: "sender_inv ck cap b f A pre q sq info w1"
      using "1.prems"(2) sender_inv_keeps poll_call_keeps [OF p] by blast
    show ?thesis
    proof (cases "poll > 0")
      case pos: True
      with k obtain st q1 info1 w2 where w: "wait_on_ack_state ck q info w1 = (Inr (st, q1, info1), w2)"
        and d: "wait_for_room ck q1 info1 0 w2 = (Inr (gu, q', info', tc'), w')"
        by (auto simp: bnd_eq_Inr)
      show ?thesis by (rule "1.IH"(1) [OF True p pos w refl refl d wait_on_ack_inv [OF w i1]])
    next
      case neg: False
      with k obtain pdus w2 where r: "resend_oldest ck q = Inr pdus"
        and s: "send_all (childSocket info) pdus (clientAddr info) w1 = (Inr (), w2)"
        and d: "(if tc + 1 \<ge> 10 then ret (True, q, info, tc + 1) w2
          else wait_for_room ck q info (tc + 1) w2) = (Inr (gu, q', info', tc'), w')"
        by (auto simp: bnd_eq_Inr to_stop_eq_Inr)
      note i2 = resend_oldest_inv [OF i1 True r s]
      show ?thesis
      proof (cases "tc + 1 \<ge> 10")
        case True
        with d i2 show ?thesis by simp
      next
        case lt: False
        with d have d': "wait_for_room ck q info (tc + 1) w2 = (Inr (gu, q', info', tc'), w')" by simp
        show ?thesis by (rule "1.IH"(2) [OF True p neg _ s lt d' i2]) (simp add: r lift_def)
      qed
    qed
  qed
qed

text \<open>One chunk read, stored and sent.\<close>

lemma send_chunk_inv:
  assumes inv: "sender_inv ck cap b f A pre q sq info w" and b: "0 < b" "b \<le> MAXBUF" "length f + 3 < 2 ^ 32"
    and room: "\<not> CircularQueue_is_full q" and rest: "in_file info = Some rest"
    and ch: "send_chunk ck True q sq (bufferSize info) rest = Inr (Some (q1, sq1, rest1, pdu))"
    and snd: "sendtoErr s pdu a w = (Inr (), w')"
  shows "sender_inv ck cap b f A pre q1 sq1 (info\<lparr>in_file := Some rest1\<rparr>) w'"
proof -
  let ?n = "unat sq" and ?ch = "file_chunk b f"
  from inv obtain lo log where I: "snd_window ck ?ch lo ?n q" "1 \<le> ?n" "?n \<le> length f + 1"
    "heap w = (\<lambda>_. True)" "unat (bufferSize info) = b" "in_file info = Some (drop ((?n - 1) * b) f)"
    "sent w = pre @ log" "heard (schedule w) \<subseteq> A" "queue_cap q = cap"
    "(sw_step ck cap ?ch A)\<^sup>*\<^sup>* sw_start \<lparr>sw_low = lo, sw_next = ?n, sw_out = map (fst \<circ> snd) log\<rparr>"
    by (elim sender_invE)
  have w: "(word_of_nat ?n :: u32) = sq" by simp
  have r: "rest = drop ((?n - 1) * b) f" using rest I(6) by simp
  have ne: "rest \<noteq> []" using ch send_chunk_end [of ck True q sq "bufferSize info"] by auto
  have "?n - 1 < length f"
  proof -
    have "(?n - 1) * b < length f" using ne r by (metis drop_all not_le)
    moreover have "?n - 1 \<le> (?n - 1) * b" using b(1) by (cases b) auto
    ultimately show ?thesis by linarith
  qed
  then have n1: "?n + 1 < 2 ^ 32" "?n \<le> length f" using b(3) I(2) by simp_all
  have tk: "take (unat (bufferSize info)) rest = ?ch ?n" by (simp add: r file_chunk_def I(5))
  have bb: "0 < unat (bufferSize info)" "unat (bufferSize info) \<le> MAXBUF" using b I(5) by simp_all
  from send_chunk_window [OF I(1) room n1(1) bb ne tk] ch
  have eqs: "sq1 = word_of_nat (?n + 1)" "rest1 = drop b rest"
    "pdu = pdu_of ck (word_of_nat ?n) 16 (?ch ?n)"
    "snd_window ck ?ch lo (?n + 1) q1" "queue_cap q1 = cap"
    unfolding w by (auto simp: I(5,9))
  have sq1: "unat sq1 = ?n + 1" unfolding eqs(1) using n1(1)
    by (simp add: unat_of_nat take_bit_nat_eq_self del: of_nat_add of_nat_Suc)
  have "rest1 = drop (?n * b) f"
    using I(2) by (simp add: eqs(2) r add.commute flip: mult_Suc)
  moreover have "sent w' = pre @ (log @ [(s, pdu, a)])" "heap w' = heap w" "schedule w' = schedule w"
    using snd I(7) by (auto simp: sendtoErr_def)
  moreover have "(sw_step ck cap ?ch A)\<^sup>*\<^sup>* sw_start
      \<lparr>sw_low = lo, sw_next = ?n + 1, sw_out = map (fst \<circ> snd) (log @ [(s, pdu, a)])\<rparr>"
  proof -
    note W = snd_windowD [OF I(1)]
    have "?n < lo + cap" using cq.full_range [OF W(1,7)] room W(3,4,6) I(9) by simp
    moreover have "?ch ?n \<noteq> []" using ne b(1) I(5) by (auto simp flip: tk)
    ultimately show ?thesis
      using sw_step.send_new [of ?ch "\<lparr>sw_low = lo, sw_next = ?n, sw_out = map (fst \<circ> snd) log\<rparr>" cap ck A] I(10)
      by (auto simp: eqs(3) intro: rtranclp.rtrancl_into_rtrancl)
  qed
  ultimately show ?thesis
    unfolding sender_inv_def sq1 using I(4,5,8) n1(2) eqs(4,5) by auto
qed

lemma fill_window_inv:
  assumes "0 < b" "b \<le> MAXBUF" "length f + 3 < 2 ^ 32"
  shows "fill_window ck q sq info tc w = (Inr (eof, q', sq', info', tc'), w') \<Longrightarrow>
    sender_inv ck cap b f A pre q sq info w \<Longrightarrow>
    sender_inv ck cap b f A pre q' sq' info' w' \<and> (eof \<longrightarrow> in_file info' = Some [])"
proof (induction ck q sq info tc w rule: fill_window.induct)
  case (1 ck q sq info tc w)
  from "1.prems"(1) show ?case
  proof (cases rule: fill_window_cases)
    case full
    with "1.prems"(2) show ?thesis by simp
  next
    case (at_end rest mem w1)
    have "rest = []"
      using at_end(4) "1.prems"(2) assms(1) at_end(2)
      by (auto simp: send_chunk_def Let_def res_eqs sender_inv_def split: if_splits)
    moreover have "sender_inv ck cap b f A pre q sq info w1"
      using "1.prems"(2) sender_inv_keeps alloc_keeps [OF at_end(3)] by blast
    ultimately show ?thesis using at_end by simp
  next
    case (sent rest mem w1 q1 sq1 rest1 pdu w2 q2 info2 w3)
    have i1: "sender_inv ck cap b f A pre q sq info w1"
      using "1.prems"(2) sender_inv_keeps alloc_keeps [OF sent(3)] by blast
    have mem: "mem" using sent(3) "1.prems"(2) by (auto simp: alloc_def sender_inv_def)
    have i3: "sender_inv ck cap b f A pre q2 sq1 info2 w3"
      by (rule drain_acks_inv [OF sent(6) send_chunk_inv [OF i1 assms sent(1,2) _ sent(5)]])
         (use sent(4) mem in simp)
    show ?thesis
      by (rule "1.IH" [OF sent(1,2,3) _ _ refl refl refl sent(5,6) refl sent(7) i3])
         (simp_all add: sent(4) lift_def)
  qed
qed

lemma send_data_loop_inv:
  assumes "0 < b" "b \<le> MAXBUF" "length f + 3 < 2 ^ 32"
  shows "send_data_loop ck q sq info tc w = (Inr (gu, q', sq', info'), w') \<Longrightarrow>
    sender_inv ck cap b f A pre q sq info w \<Longrightarrow>
    sender_inv ck cap b f A pre q' sq' info' w' \<and> (\<not> gu \<longrightarrow> in_file info' = Some [])"
proof (induction ck q sq info tc w rule: send_data_loop.induct)
  case (1 ck q sq info tc w)
  from "1.prems"(1) obtain eof q1 sq1 info1 tc1 w1 where
    fw: "fill_window ck q sq info tc w = (Inr (eof, q1, sq1, info1, tc1), w1)"
    and k: "(if eof then ret (False, q1, sq1, info1) w1
         else bnd (wait_for_room ck q1 info1 tc1) (\<lambda>s w2.
                case s of (gaveUp, window2, info2, timeoutCount2) \<Rightarrow>
                  if gaveUp then ret (True, window2, sq1, info2) w2
                  else send_data_loop ck window2 sq1 info2 timeoutCount2 w2) w1) = (Inr (gu, q', sq', info'), w')"
    by (subst (asm) send_data_loop.simps) (auto simp: bnd_eq_Inr)
  note F = fill_window_inv [OF assms fw "1.prems"(2)]
  show ?case
  proof (cases eof)
    case True
    with k F show ?thesis by auto
  next
    case False
    with k obtain gu2 q2 info2 tc2 w2 where
      wr: "wait_for_room ck q1 info1 tc1 w1 = (Inr (gu2, q2, info2, tc2), w2)"
      and k2: "(if gu2 then ret (True, q2, sq1, info2) w2 else send_data_loop ck q2 sq1 info2 tc2 w2) =
        (Inr (gu, q', sq', info'), w')"
      by (auto simp: bnd_eq_Inr)
    have i2: "sender_inv ck cap b f A pre q2 sq1 info2 w2" using wait_for_room_inv [OF wr] F by blast
    show ?thesis
    proof (cases gu2)
      case True
      with k2 i2 show ?thesis by auto
    next
      case gu2: False
      with k2 have "send_data_loop ck q2 sq1 info2 tc2 w2 = (Inr (gu, q', sq', info'), w')" by simp
      from "1.IH" [OF fw refl refl refl refl False wr refl refl refl gu2 this i2] show ?thesis .
    qed
  qed
qed

lemma concat_chunks_upto:
  assumes "1 \<le> n" shows "concat (map (file_chunk b f) [1..<n]) = take ((n - 1) * b) f"
  using concat_file_chunks [of b f "n - 1"] assms by simp

text \<open>
  The refinement: a run of \<open>send_data_state\<close> is a run of the specification over the
  acknowledgements in the schedule, with the EOF packet behind it.
\<close>

lemma send_data_run:
  assumes "0 < ws" "ws < 2 ^ 31" and "b = unat (bufferSize info)" "0 < b" "b \<le> MAXBUF"
    and "length f + 3 < 2 ^ 32" "in_file info = Some f" "heap w = (\<lambda>_. True)"
    and "send_data_state ck (fresh_queue ws) info w = (Inr (st, q', info'), w')"
  obtains s log eof where "sent w' = sent w @ log @ eof" "map (fst \<circ> snd) log = sw_out s"
    "(sw_step ck (nat ws) (file_chunk b f) (heard (schedule w)))\<^sup>*\<^sup>* sw_start s"
    "snd_window ck (file_chunk b f) (sw_low s) (sw_next s) q'"
    "if st = WAIT_ON_EOF_ACK
     then concat (map (file_chunk b f) [1..<sw_next s]) = f \<and> eofSeq info' = word_of_nat (sw_next s) \<and>
       eof = [(childSocket info', pdu_of ck (word_of_nat (sw_next s)) 10 [], clientAddr info')]
     else st = DONE \<and> eof = []"
proof -
  let ?i = "info\<lparr>eofResendCount := 0\<rparr>" and ?ch = "file_chunk b f" and ?A = "heard (schedule w)"
  have len: "length (?ch s) \<le> MAXBUF" for s using length_file_chunk [of b f s] assms(5) by simp
  have cap: "queue_cap (fresh_queue ws) = nat ws" using fresh_queue_ok [OF assms(1,2)] by simp
  have "snd_window ck ?ch 1 1 (fresh_queue ws)"
    unfolding fresh_queue_def using assms(1,2) len by (intro snd_window_init) auto
  then have start: "sender_inv ck (nat ws) b f ?A (sent w) (fresh_queue ws) 1 ?i w"
    unfolding sender_inv_def using assms(3,7,8) cap
    by (auto simp: sw_start_def intro!: exI [of _ 1] exI [of _ "[]"])
  from assms(9) obtain gu q1 sq info1 w1 where
    l: "send_data_loop ck (fresh_queue ws) 1 ?i 0 w = (Inr (gu, q1, sq, info1), w1)"
    and k: "(if gu then ret (DONE, q1, info1)
       else bnd (lift (to_stop (createPDU ck 7 sq 10 [] 0))) (\<lambda>eofPDU.
            bnd (sendtoErr (childSocket info1) eofPDU (clientAddr info1)) (\<lambda>_.
              ret (WAIT_ON_EOF_ACK, q1, info1\<lparr>eofPacket := eofPDU, eofLen := int (length eofPDU), eofSeq := sq\<rparr>)))) w1
      = (Inr (st, q', info'), w')"
    by (auto simp: send_data_state_def bnd_eq_Inr)
  note E = send_data_loop_inv [OF assms(4-6) l start]
  then obtain lo log where I: "1 \<le> unat sq" "in_file info1 = Some (drop ((unat sq - 1) * b) f)"
    "sent w1 = sent w @ log" "snd_window ck ?ch lo (unat sq) q1"
    "(sw_step ck (nat ws) ?ch ?A)\<^sup>*\<^sup>* sw_start \<lparr>sw_low = lo, sw_next = unat sq, sw_out = map (fst \<circ> snd) log\<rparr>"
    by (elim conjE) (erule sender_invE, blast)
  show thesis
  proof (cases gu)
    case True
    with k have "st = DONE" "w' = w1" "q' = q1" by simp_all
    with I(3-5) show thesis by (intro that [of log "[]" "\<lparr>sw_low = lo, sw_next = unat sq, sw_out = map (fst \<circ> snd) log\<rparr>"]) simp_all
  next
    case False
    with E I(2) have "drop ((unat sq - 1) * b) f = []" by simp
    then have "concat (map ?ch [1..<unat sq]) = f" using concat_chunks_upto [OF I(1), of b f] by simp
    moreover from k False have "st = WAIT_ON_EOF_ACK" "eofSeq info' = sq" "q' = q1"
      "sent w' = sent w1 @ [(childSocket info', pdu_of ck sq 10 [], clientAddr info')]"
      by (auto simp: sendtoErr_def bnd_eq_Inr)
    ultimately show thesis using I(3-5)
      by (intro that [of log "[(childSocket info', pdu_of ck sq 10 [], clientAddr info')]"
            "\<lparr>sw_low = lo, sw_next = unat sq, sw_out = map (fst \<circ> snd) log\<rparr>"]) simp_all
  qed
qed

text \<open>A run with a window of one slot, in which two acknowledgements arrive.\<close>

definition two_acks_world :: world where
  "two_acks_world = snd (bnd setup_poll_set (\<lambda>_. add_to_poll_set 2)
     (start_world [Quiet, Arrive (pdu_of (\<lambda>_. 0) 2 5 []) 7, Quiet, Arrive (pdu_of (\<lambda>_. 0) 3 5 []) 7]))"

definition small_session :: ServerInfo where
  "small_session = initial_info 9\<lparr>childSocket := 2, in_file := Some [1, 2, 3], bufferSize := 2\<rparr>"

lemma two_acks_run:
  obtains q' info' w' where "send_data_state (\<lambda>_. 0) (fresh_queue 1) small_session two_acks_world =
    (Inr (WAIT_ON_EOF_ACK, q', info'), w')" "heap two_acks_world = (\<lambda>_. True)" "sent two_acks_world = []"
proof -
  let ?run = "send_data_state (\<lambda>_. 0) (fresh_queue 1) small_session two_acks_world"
  have "(case ?run of (Inr (st, q', info'), w') \<Rightarrow> st = WAIT_ON_EOF_ACK | _ \<Rightarrow> False)" by code_simp
  then obtain q' info' w' where run: "?run = (Inr (WAIT_ON_EOF_ACK, q', info'), w')"
    by (auto split: prod.splits sum.splits)
  moreover have "heap two_acks_world = (\<lambda>_. True)"
    unfolding two_acks_world_def
    by (rule ext) (simp add: setup_poll_set_def add_to_poll_set_def alloc_def on_pset_def bnd_def start_world_def split: sum.splits)
  moreover have "sent two_acks_world = []" by code_simp
  ultimately show thesis by (rule that)
qed

text \<open>
  C7: Refinement: against an arbitrary network \<open>send_data_state\<close> implements the sliding window
  of \<open>Sliding_Window\<close>: what it sends is the log of a run of the specification over the
  acknowledgements in the schedule, the queue it leaves holds exactly the run's window, and
  when it goes on to \<open>WAIT_ON_EOF_ACK\<close> the EOF packet with the run's next number follows the
  whole file.
\<close>

theorem server_refines_window:
  assumes "0 < ws" "ws < 2 ^ 31" and "b = unat (bufferSize info)" "0 < b" "b \<le> MAXBUF"
    and "length f + 3 < 2 ^ 32" "in_file info = Some f" "heap w = (\<lambda>_. True)"
    and "send_data_state ck (fresh_queue ws) info w = (Inr (st, q', info'), w')"
  shows "\<exists>s log eof. sent w' = sent w @ log @ eof \<and> map (fst \<circ> snd) log = sw_out s \<and>
    (sw_step ck (nat ws) (file_chunk b f) (heard (schedule w)))\<^sup>*\<^sup>* sw_start s \<and>
    snd_window ck (file_chunk b f) (sw_low s) (sw_next s) q' \<and>
    (if st = WAIT_ON_EOF_ACK
     then concat (map (file_chunk b f) [1..<sw_next s]) = f \<and> eofSeq info' = word_of_nat (sw_next s) \<and>
       eof = [(childSocket info', pdu_of ck (word_of_nat (sw_next s)) 10 [], clientAddr info')]
     else st = DONE \<and> eof = [])"
  by (rule send_data_run [OF assms]) blast

theorem server_refines_window_witness:
  "\<exists>q' info' w' s log eof. send_data_state (\<lambda>_. 0) (fresh_queue 1) small_session two_acks_world =
       (Inr (WAIT_ON_EOF_ACK, q', info'), w') \<and> sent w' = log @ eof \<and> map (fst \<circ> snd) log = sw_out s \<and>
     (sw_step (\<lambda>_. 0) 1 (file_chunk 2 [1, 2, 3]) (heard (schedule two_acks_world)))\<^sup>*\<^sup>* sw_start s \<and>
     concat (map (file_chunk 2 [1, 2, 3]) [1..<sw_next s]) = [1, 2, 3]"
proof -
  obtain q' info' w' where run: "send_data_state (\<lambda>_. 0) (fresh_queue 1) small_session two_acks_world =
    (Inr (WAIT_ON_EOF_ACK, q', info'), w')" "heap two_acks_world = (\<lambda>_. True)" "sent two_acks_world = []"
    by (rule two_acks_run)
  have "\<exists>s log eof. sent w' = sent two_acks_world @ log @ eof \<and> map (fst \<circ> snd) log = sw_out s \<and>
    (sw_step (\<lambda>_. 0) (nat 1) (file_chunk 2 [1, 2, 3]) (heard (schedule two_acks_world)))\<^sup>*\<^sup>* sw_start s \<and>
    snd_window (\<lambda>_. 0) (file_chunk 2 [1, 2, 3]) (sw_low s) (sw_next s) q' \<and>
    (if WAIT_ON_EOF_ACK = WAIT_ON_EOF_ACK
     then concat (map (file_chunk 2 [1, 2, 3]) [1..<sw_next s]) = [1, 2, 3] \<and>
       eofSeq info' = word_of_nat (sw_next s) \<and>
       eof = [(childSocket info', pdu_of (\<lambda>_. 0) (word_of_nat (sw_next s)) 10 [], clientAddr info')]
     else WAIT_ON_EOF_ACK = DONE \<and> eof = [])"
    by (intro server_refines_window [OF _ _ _ _ _ _ _ run(2,1)]) (simp_all add: small_session_def MAXBUF_def)
  with run show ?thesis by auto
qed

text \<open>
  C8: Flow control: against an arbitrary network \<open>send_data_state\<close> has at most \<open>ws\<close> chunks
  outstanding.  If it has sent the chunks below \<open>n\<close> and these are more than fit the window, an
  RR with a number of at least \<open>n - ws\<close> has arrived.
\<close>

theorem flow_control:
  assumes "0 < ws" "ws < 2 ^ 31" and "b = unat (bufferSize info)" "0 < b" "b \<le> MAXBUF"
    and "length f + 3 < 2 ^ 32" "in_file info = Some f" "heap w = (\<lambda>_. True)"
    and "send_data_state ck (fresh_queue ws) info w = (Inr (st, q', info'), w')"
  shows "\<exists>n log. sent w' = sent w @ log \<and>
    map (fst \<circ> snd) (filter (\<lambda>(_, d, _). d ! 6 = 16) log) =
      map (\<lambda>s. pdu_of ck (word_of_nat s) 16 (file_chunk b f s)) [1..<n] \<and>
    (n \<le> nat ws + 1 \<or>
     (\<exists>d a jk. Arrive d a \<in> set (schedule w) \<and> hdr_flag (rbuf_of (take 7 d) jk) = 5 \<and>
        n \<le> unat (hdr_seq (rbuf_of (take 7 d) jk)) + nat ws))"
proof (rule send_data_run [OF assms])
  fix s log eof
  assume r: "sent w' = sent w @ log @ eof" "map (fst \<circ> snd) log = sw_out s"
    "(sw_step ck (nat ws) (file_chunk b f) (heard (schedule w)))\<^sup>*\<^sup>* sw_start s"
    "if st = WAIT_ON_EOF_ACK
     then concat (map (file_chunk b f) [1..<sw_next s]) = f \<and> eofSeq info' = word_of_nat (sw_next s) \<and>
       eof = [(childSocket info', pdu_of ck (word_of_nat (sw_next s)) 10 [], clientAddr info')]
     else st = DONE \<and> eof = []"
  note S = sw_run_inv [OF r(3), unfolded sw_inv_def]
  have firsts: "map (fst \<circ> snd) (filter (\<lambda>(_, d, _). d ! 6 = 16) (log @ eof)) =
      map (\<lambda>s. pdu_of ck (word_of_nat s) 16 (file_chunk b f s)) [1..<sw_next s]"
    using log_ok_datagrams(1) [of ck _ "sw_next s" log] S r(2,4)
    by (auto simp: nth_pdu_of split: if_splits)
  have "sw_next s \<le> nat ws + 1 \<or> (\<exists>r \<in> heard (schedule w). hdr_flag r = 5 \<and> sw_next s \<le> unat (hdr_seq r) + nat ws)"
  proof (cases "sw_low s = 1")
    case True
    with S show ?thesis by simp
  next
    case False
    with S obtain r where "r \<in> heard (schedule w)" "hdr_flag r = 5" "sw_low s \<le> unat (hdr_seq r)" by auto
    with S show ?thesis by force
  qed
  with firsts r(1) show ?thesis unfolding heard_def by (intro exI [of _ "sw_next s"] exI [of _ "log @ eof"]) auto
qed

theorem flow_control_witness:
  "\<exists>q' info' w' n log. send_data_state (\<lambda>_. 0) (fresh_queue 1) small_session two_acks_world =
       (Inr (WAIT_ON_EOF_ACK, q', info'), w') \<and> sent w' = log \<and>
     map (fst \<circ> snd) (filter (\<lambda>(_, d, _). d ! 6 = 16) log) =
       map (\<lambda>s. pdu_of (\<lambda>_. 0) (word_of_nat s) 16 (file_chunk 2 [1, 2, 3] s)) [1..<n] \<and>
     (n \<le> Suc (Suc 0) \<or> (\<exists>d a jk. Arrive d a \<in> set (schedule two_acks_world) \<and>
        hdr_flag (rbuf_of (take 7 d) jk) = 5 \<and> n \<le> unat (hdr_seq (rbuf_of (take 7 d) jk)) + 1))"
proof -
  obtain q' info' w' where run: "send_data_state (\<lambda>_. 0) (fresh_queue 1) small_session two_acks_world =
    (Inr (WAIT_ON_EOF_ACK, q', info'), w')" "heap two_acks_world = (\<lambda>_. True)" "sent two_acks_world = []"
    by (rule two_acks_run)
  have "\<exists>n log. sent w' = sent two_acks_world @ log \<and>
    map (fst \<circ> snd) (filter (\<lambda>(_, d, _). d ! 6 = 16) log) =
      map (\<lambda>s. pdu_of (\<lambda>_. 0) (word_of_nat s) 16 (file_chunk 2 [1, 2, 3] s)) [1..<n] \<and>
    (n \<le> nat 1 + 1 \<or>
     (\<exists>d a jk. Arrive d a \<in> set (schedule two_acks_world) \<and> hdr_flag (rbuf_of (take 7 d) jk) = 5 \<and>
        n \<le> unat (hdr_seq (rbuf_of (take 7 d) jk)) + nat 1))"
    by (intro flow_control [OF _ _ _ _ _ _ _ run(2,1)]) (simp_all add: small_session_def MAXBUF_def)
  with run show ?thesis by simp
qed

text \<open>
  C10: Against an arbitrary network, whatever the acknowledgements say, \<open>send_data_state\<close> sends
  every chunk of the file for the first time (flag 16) exactly once, in order and without a gap;
  what it sends again on a timeout (flag 18) is a chunk already sent, under its own number, and
  what it sends on a SREJ (flag 17) has the payload of a chunk already sent.  When it goes on to
  \<open>WAIT_ON_EOF_ACK\<close>, those chunks are the whole file and the last datagram is the EOF packet
  with the next number; otherwise it gave up in \<open>DONE\<close>.
\<close>

theorem server_sends_file:
  assumes "0 < ws" "ws < 2 ^ 31" and "b = unat (bufferSize info)" "0 < b" "b \<le> MAXBUF"
    and "length f + 3 < 2 ^ 32" "in_file info = Some f" "heap w = (\<lambda>_. True)"
    and "send_data_state ck (fresh_queue ws) info w = (Inr (st, q', info'), w')"
  shows "\<exists>n log eof. sent w' = sent w @ log @ eof \<and>
    map (fst \<circ> snd) (filter (\<lambda>(_, d, _). d ! 6 = 16) log) =
      map (\<lambda>s. pdu_of ck (word_of_nat s) 16 (file_chunk b f s)) [1..<n] \<and>
    (\<forall>(_, d, _) \<in> set log. d ! 6 = 16 \<or>
       (\<exists>m. 1 \<le> unat m \<and> unat m < n \<and> d = pdu_of ck m 18 (file_chunk b f (unat m))) \<or>
       (\<exists>sq m. 1 \<le> m \<and> m < n \<and> d = pdu_of ck sq 17 (file_chunk b f m))) \<and>
    (if st = WAIT_ON_EOF_ACK
     then concat (map (file_chunk b f) [1..<n]) = f \<and> eofSeq info' = word_of_nat n \<and>
       eof = [(childSocket info', pdu_of ck (word_of_nat n) 10 [], clientAddr info')]
     else st = DONE \<and> eof = [])"
proof (rule send_data_run [OF assms])
  fix s log eof
  assume r: "sent w' = sent w @ log @ eof" "map (fst \<circ> snd) log = sw_out s"
    "(sw_step ck (nat ws) (file_chunk b f) (heard (schedule w)))\<^sup>*\<^sup>* sw_start s"
    "if st = WAIT_ON_EOF_ACK
     then concat (map (file_chunk b f) [1..<sw_next s]) = f \<and> eofSeq info' = word_of_nat (sw_next s) \<and>
       eof = [(childSocket info', pdu_of ck (word_of_nat (sw_next s)) 10 [], clientAddr info')]
     else st = DONE \<and> eof = []"
  have "log_ok ck (file_chunk b f) (sw_next s) (map (fst \<circ> snd) log)"
    using sw_run_inv [OF r(3)] r(2) by (simp add: sw_inv_def)
  from r(1,4) log_ok_datagrams [OF this] show ?thesis
    by (intro exI [of _ "sw_next s"] exI [of _ log] exI [of _ eof]) simp
qed

theorem server_sends_file_witness:
  "\<exists>q' info' w' log n. send_data_state (\<lambda>_. 0) (fresh_queue 1) small_session two_acks_world =
       (Inr (WAIT_ON_EOF_ACK, q', info'), w') \<and>
     sent w' = log @ [(childSocket info', pdu_of (\<lambda>_. 0) (eofSeq info') 10 [], clientAddr info')] \<and>
     map (fst \<circ> snd) (filter (\<lambda>(_, d, _). d ! 6 = 16) log) =
       map (\<lambda>s. pdu_of (\<lambda>_. 0) (word_of_nat s) 16 (file_chunk 2 [1, 2, 3] s)) [1..<n] \<and>
     concat (map (file_chunk 2 [1, 2, 3]) [1..<n]) = [1, 2, 3]"
proof -
  obtain q' info' w' where run: "send_data_state (\<lambda>_. 0) (fresh_queue 1) small_session two_acks_world =
    (Inr (WAIT_ON_EOF_ACK, q', info'), w')" "heap two_acks_world = (\<lambda>_. True)" "sent two_acks_world = []"
    by (rule two_acks_run)
  have "\<exists>n log eof. sent w' = sent two_acks_world @ log @ eof \<and>
    map (fst \<circ> snd) (filter (\<lambda>(_, d, _). d ! 6 = 16) log) =
      map (\<lambda>s. pdu_of (\<lambda>_. 0) (word_of_nat s) 16 (file_chunk 2 [1, 2, 3] s)) [1..<n] \<and>
    (\<forall>(_, d, _) \<in> set log. d ! 6 = 16 \<or>
       (\<exists>m. 1 \<le> unat m \<and> unat m < n \<and> d = pdu_of (\<lambda>_. 0) m 18 (file_chunk 2 [1, 2, 3] (unat m))) \<or>
       (\<exists>sq m. 1 \<le> m \<and> m < n \<and> d = pdu_of (\<lambda>_. 0) sq 17 (file_chunk 2 [1, 2, 3] m))) \<and>
    (if WAIT_ON_EOF_ACK = WAIT_ON_EOF_ACK
     then concat (map (file_chunk 2 [1, 2, 3]) [1..<n]) = [1, 2, 3] \<and> eofSeq info' = word_of_nat n \<and>
       eof = [(childSocket info', pdu_of (\<lambda>_. 0) (word_of_nat n) 10 [], clientAddr info')]
     else WAIT_ON_EOF_ACK = DONE \<and> eof = [])"
    by (intro server_sends_file [OF _ _ _ _ _ _ _ run(2,1)]) (simp_all add: small_session_def MAXBUF_def)
  with run show ?thesis by auto
qed

text \<open>
  One datagram on the child socket, for the loops of \<open>send_data_state\<close>: its first seven
  bytes decide, the answers go out, and its sender becomes the peer of the whole session,
  whoever it is and whatever it sent: the address of the client is overwritten unchecked.
\<close>

lemma ack_turn:
  assumes "heap w = (\<lambda>_. True)" "0 < childSocket info" "maxFileDescriptor (pset w) \<le> childSocket info + 1"
    and "is_open w (childSocket info)" "schedule w = Arrive d a # es" "length d \<le> 7"
    and "handle_ack ck q (rbuf_of d (junk w (Suc (length es)))) = Inr (q', pdus)"
  shows "\<exists>w'. wait_on_ack_state ck q info w = (Inr (SEND_DATA, q', info\<lparr>clientAddr := a\<rparr>), w') \<and>
    sent w' = sent w @ map (\<lambda>p. (childSocket info, p, a)) pdus \<and> schedule w' = es"
proof -
  let ?k = "\<lambda>_. bnd (poll_call 1000) (\<lambda>packetAckPoll.
       if packetAckPoll \<le> 0 then ret (SEND_DATA, q, info)
       else bnd (safeRecvfrom (childSocket info) 7) (\<lambda>(recvBuff, bytesRecv, src).
            let info1 = info\<lparr>clientAddr := src\<rparr>
            in if bytesRecv < 0 then ret (DONE, q, info1)
               else bnd (lift (to_stop (handle_ack ck q recvBuff))) (\<lambda>(window1, pdus).
                    bnd (send_all (childSocket info1) pdus (clientAddr info1)) (\<lambda>_.
                      ret (SEND_DATA, window1, info1)))))"
  from assms(2) have pos: "0 \<le> childSocket info" by simp
  have "wait_on_ack_state ck q info w = bnd setup_poll_set (\<lambda>_. bnd (add_to_poll_set (childSocket info)) ?k) w"
    by (simp only: wait_on_ack_state_def)
  moreover obtain ps n where
    "bnd setup_poll_set (\<lambda>_. bnd (add_to_poll_set (childSocket info)) ?k) w = ?k () (w\<lparr>allocs := n, pset := ps\<rparr>)"
    "single (childSocket info) ps" by (rule setup_poll_ready [OF assms(1) pos assms(3)])
  ultimately have s: "wait_on_ack_state ck q info w = ?k () (w\<lparr>allocs := n, pset := ps\<rparr>)"
    "single (childSocket info) ps" by (simp_all only:)
  let ?w = "w\<lparr>allocs := n, pset := ps\<rparr>"
  have "poll_call 1000 ?w = (Inr (childSocket info), ?w)"
    by (rule poll_call_arrive [where d = d and a = a and es = es]) (use s(2) assms(5) in simp_all)
  moreover have "safeRecvfrom (childSocket info) 7 ?w =
      (Inr (rbuf_of d (junk w (Suc (length es))), int (length d), a), ?w\<lparr>schedule := es\<rparr>)"
    using safeRecvfrom_arrive [of ?w "childSocket info" d a es 7] assms(4-6) by (simp add: is_open_def)
  ultimately show ?thesis unfolding s(1)
    using assms(2,7) by (simp add: Let_def send_all_eq)
qed

end
