(* ===== verification/Any_Windows.thy ===== *)
theory Any_Windows
  imports Protocol Receiver_Safety
begin

text \<open>
  What holds of both ends for every pair of window sizes, also for a server window larger than
  the client's, where the packet buffer of the client may hold the wrong chunks.  Only the
  sequence numbers and the types are left of the receiver's invariant: \<open>expected\<close> never runs
  ahead of what was sent, and no datagram in flight makes the client fault.  That is enough
  for the server's half, the window and the datagrams it sends, to stay exact.
\<close>

subsection \<open>The numbers of the receiver\<close>

definition rcv_nums :: "nat \<Rightarrow> ReceiveInfo \<Rightarrow> bool" where
  "rcv_nums nxt info \<longleftrightarrow> 1 \<le> unat (expected info) \<and> unat (expected info) \<le> nxt \<and> unat (highest info) < nxt"

lemma rcv_nums_frame [simp]:
  "rcv_nums nxt (info\<lparr>outFile := f\<rparr>) = rcv_nums nxt info" "rcv_nums nxt (info\<lparr>buffer := bs\<rparr>) = rcv_nums nxt info"
  "rcv_nums nxt (info\<lparr>rcv_eofSeq := x\<rparr>) = rcv_nums nxt info"
  "rcv_nums nxt (info\<lparr>outFile_open := v\<rparr>) = rcv_nums nxt info"
  by (simp_all add: rcv_nums_def)

lemma rcv_nums_mono: "rcv_nums nxt info \<Longrightarrow> nxt \<le> nxt' \<Longrightarrow> rcv_nums nxt' info"
  by (simp add: rcv_nums_def)

text \<open>The next number, when it was sent: no wrap-around.\<close>

lemma expected_next:
  assumes "unat (expected info) < nxt" "nxt < 2 ^ 32"
  shows "unat (expected info + 1) = unat (expected info) + 1"
  using assms unat_Suc_u32 [of "expected info"] by simp

lemma flush_loop_nums:
  assumes "flush_loop info = Inr info'" "rcv_nums nxt info" "nxt < 2 ^ 32"
  shows "rcv_nums nxt info' \<and> unat (expected info) \<le> unat (expected info')"
  using assms
proof (induction info rule: flush_loop.induct)
  case (1 info)
  show ?case
  proof (cases "info' = info")
    case False
    with "1.prems"(1) obtain i e p where more: "expected info \<le> highest info"
      "umod (expected info) (rcv_windowSize info) = Inr i" "arr_get (buffer info) i = Inr e" "e_valid e"
      "read_bytes (e_packet e) (e_packetLen e) = Inr p"
      "flush_loop (info\<lparr>outFile := outFile info @ p, buffer := (buffer info)[i := e\<lparr>e_valid := False\<rparr>],
         expected := expected info + 1\<rparr>) = Inr info'"
      by (subst (asm) flush_loop.simps) (auto simp: rbind_eq_Inr split: if_splits)
    have lt: "unat (expected info) < nxt"
      using more(1) "1.prems"(2) by (auto simp: rcv_nums_def word_le_nat_alt)
    note next_number = expected_next [OF lt "1.prems"(3)]
    have "rcv_nums nxt (info\<lparr>outFile := outFile info @ p, buffer := (buffer info)[i := e\<lparr>e_valid := False\<rparr>],
        expected := expected info + 1\<rparr>)"
      using "1.prems"(2) lt next_number by (simp add: rcv_nums_def)
    from "1.IH" [OF more this "1.prems"(3)] next_number show ?thesis by simp
  qed (use "1.prems"(2) in simp)
qed

lemma buffer_packet_numbers:
  "buffer_packet info sq p n = Inr info' \<Longrightarrow>
   expected info' = expected info \<and> highest info' = highest info \<and> outFile info' = outFile info"
  by (auto simp: buffer_packet_def res_eqs split: if_splits)

text \<open>One data packet: the numbers stay in range, and only sent packets are asked for.\<close>

lemma data_packet_nums:
  assumes "data_packet ck st info sq p n = Inr (st', info', pdus)"
    and "rcv_nums nxt info" "nxt < 2 ^ 32" "unat sq < nxt"
  shows "rcv_nums nxt info'" "unat (expected info) \<le> unat (expected info')"
    "\<forall>q \<in> set pdus. ack_pdu ck (unat (expected info')) nxt q"
proof -
  note nums = assms(2) [unfolded rcv_nums_def]
  have "rcv_nums nxt info' \<and> unat (expected info) \<le> unat (expected info') \<and>
    (\<forall>q \<in> set pdus. ack_pdu ck (unat (expected info')) nxt q)"
  proof (cases "st = FLUSH")
    case True
    with assms(1) obtain fi where fi: "flush_loop info = Inr fi" "info' = fi"
      "pdus = [] \<or> pdus = [pdu_of ck (expected fi) 5 []] \<or>
         pdus = [pdu_of ck (expected fi) 6 []] \<and> expected fi \<le> highest fi"
      by (auto simp: data_packet_def rbind_eq_Inr Let_def split: if_splits)
    from flush_loop_nums [OF fi(1) assms(2,3)] fi(2,3) show ?thesis
      by (auto simp: rcv_nums_def word_le_nat_alt intro!: ack_pduI)
  next
    case run: False
    consider (now) "sq = expected info" | (later) "expected info < sq" | (old) "sq < expected info" by fastforce
    then show ?thesis
    proof cases
      case now
      note next_number = expected_next [OF assms(4) [unfolded now] assms(3)]
      then show ?thesis using assms(1,4) nums run now
        by (cases st) (auto simp: data_packet_def rbind_eq_Inr Let_def rcv_nums_def intro!: ack_pduI)
    next
      case later
      then obtain bi where bi: "buffer_packet info sq p n = Inr bi" "info' = bi\<lparr>highest := max sq (highest bi)\<rparr>"
        "pdus = [] \<or> pdus = [pdu_of ck (expected bi) 6 []]"
        using assms(1) run by (cases st) (auto simp: data_packet_def rbind_eq_Inr Let_def raise_highest split: if_splits)
      with buffer_packet_numbers [OF bi(1)] nums assms(4) later show ?thesis
        by (auto simp: rcv_nums_def max_def word_less_nat_alt intro!: ack_pduI)
    next
      case old
      then have "\<not> expected info < sq" "sq \<noteq> expected info" by auto
      then show ?thesis using assms(1,2) run by (cases st) (auto simp: data_packet_def)
    qed
  qed
  then show "rcv_nums nxt info'" "unat (expected info) \<le> unat (expected info')"
    "\<forall>q \<in> set pdus. ack_pdu ck (unat (expected info')) nxt q" by blast+
qed

text \<open>The expected packet itself: it is written, in either of the states that read packets.\<close>

lemma deliver_expected:
  assumes "st \<noteq> FLUSH" "fl = 16 \<or> fl = 17 \<or> fl = 18"
  shows "\<exists>st' info' pdus. transfer_packet ck st info (rbuf_of (pdu_of ck (expected info) fl p) jk)
      (int (length (pdu_of ck (expected info) fl p))) = Inr (More st' info' pdus) \<and>
    expected info' = expected info + 1 \<and> outFile info' = outFile info @ p"
proof -
  from assms(2) have "fl \<noteq> 10" by auto
  with assms show ?thesis by (cases st) (auto simp: transfer_packet_def data_packet_def Let_def)
qed

subsection \<open>The invariant\<close>

definition num_inv :: "cksum \<Rightarrow> u16 \<Rightarrow> byte list \<Rightarrow> nat \<Rightarrow> nat \<Rightarrow> proto \<Rightarrow> bool" where
  "num_inv ck b f cap lo s \<longleftrightarrow> srv_side ck b f lo s \<and> queue_cap (win s) = cap \<and>
     rcv_wf (rinfo s) \<and> rcv_nums (unat (next_seq s)) (rinfo s)"

lemma num_invD:
  assumes "num_inv ck b f cap lo s"
  shows "srv_side ck b f lo s" "queue_cap (win s) = cap" "rcv_wf (rinfo s)"
    "rcv_nums (unat (next_seq s)) (rinfo s)"
    "snd_window ck (file_chunk (unat b) f) lo (unat (next_seq s)) (win s)"
    "unat (next_seq s) < 2 ^ 32" "lo \<le> unat (expected (rinfo s))"
  using assms snd_windowD(4) [of ck "file_chunk (unat b) f" lo "unat (next_seq s)" "win s"]
  by (auto simp: num_inv_def srv_side_def)

lemma num_inv_start:
  assumes "0 < ws" "ws < 2 ^ 31" "0 < wc" "wc < 2 ^ 31" "unat b \<le> MAXBUF"
  shows "num_inv ck b f (nat ws) 1 (proto_start ws wc f)"
  using srv_side_start [OF assms(1,2,5)] fresh_receiver_wf [OF assms(3,4)]
  by (simp add: num_inv_def rcv_nums_def, simp add: fresh_receiver_def)

text \<open>Everything in flight has at least a header and fits the receive buffer.\<close>

lemma in_flight_lengths:
  assumes "num_inv ck b f cap lo s"
  shows "p \<in> set (to_client s) \<Longrightarrow> 7 \<le> length p \<and> length p \<le> MAXBUF + 7"
    "a \<in> set (to_server s) \<Longrightarrow> 7 \<le> length a"
proof -
  note side = num_invD(1) [OF assms]
  show "7 \<le> length p \<and> length p \<le> MAXBUF + 7" if "p \<in> set (to_client s)"
    using srv_sideD(6) [OF side that] by (auto simp: data_pdu_def eof_pdu_def)
  show "7 \<le> length a" if "a \<in> set (to_server s)"
    using srv_sideD(7) [OF side that] by (auto simp: ack_pdu_def eof_ack_pdu_def)
qed

lemma num_inv_receive:
  assumes inv: "num_inv ck b f cap lo s" and p: "p \<in> set (to_client s)"
  shows "(\<exists>st info pdus. transfer_packet ck (rstate s) (rinfo s) (rbuf_of p jk) (int (length p))
        = Inr (More st info pdus) \<and>
      num_inv ck b f cap lo (s\<lparr>rstate := st, rinfo := info, to_server := pdus @ to_server s\<rparr>)) \<or>
    (\<exists>info pdus. transfer_packet ck (rstate s) (rinfo s) (rbuf_of p jk) (int (length p))
        = Inr (Finished info pdus) \<and>
      num_inv ck b f cap lo (s\<lparr>finished := True, rinfo := info, to_server := pdus @ to_server s\<rparr>))"
proof -
  note N = num_invD [OF inv]
  have "7 \<le> int (length p)" "int (length p) \<le> int MAXBUF + 7" using in_flight_lengths(1) [OF inv p] by auto
  from transfer_packet_wf [OF N(3) this, of ck "rstate s" "rbuf_of p jk"] obtain t where
    t: "transfer_packet ck (rstate s) (rinfo s) (rbuf_of p jk) (int (length p)) = Inr t"
    "rcv_wf (turn_info t)" by blast
  let ?nxt = "unat (next_seq s)" and ?ex = "unat (expected (rinfo s))"
  have "rcv_nums ?nxt (turn_info t) \<and> ?ex \<le> unat (expected (turn_info t)) \<and>
    (\<forall>q \<in> set (case t of More _ _ pdus \<Rightarrow> pdus | Finished _ pdus \<Rightarrow> pdus).
       ack_pdu ck (unat (expected (turn_info t))) ?nxt q \<or> eof_ack_pdu ck q)"
    using srv_sideD(6) [OF N(1) p]
  proof
    assume "eof_pdu ck s p"
    then have pe: "p = pdu_of ck (next_seq s) 10 []" by (simp add: eof_pdu_def)
    with t(1) obtain fi where fi: "flush_loop (rinfo s\<lparr>rcv_eofSeq := next_seq s\<rparr>) = Inr fi"
      "t = Finished (fi\<lparr>outFile_open := False\<rparr>) [pdu_of ck (next_seq s) 35 []]"
      by (auto simp: transfer_packet_def send_eof_ack_def Let_def rbind_eq_Inr)
    from flush_loop_nums [OF fi(1) _ N(6)] N(4) fi(2) show ?thesis by (auto simp: eof_ack_pdu_def)
  next
    assume "data_pdu ck (file_chunk (unat b) f) ?ex ?nxt p"
    then obtain m fl pl where m: "unat m < ?nxt" "fl = 16 \<or> fl = 17 \<or> fl = 18" "p = pdu_of ck m fl pl"
      unfolding data_pdu_def by blast
    from m(2) have "fl \<noteq> 10" by auto
    with t(1) m obtain st info pdus where d: "t = More st info pdus"
      "data_packet ck (rstate s) (rinfo s) m pl (int (length pl)) = Inr (st, info, pdus)"
      by (auto simp: transfer_packet_def Let_def rbind_eq_Inr)
    from data_packet_nums [OF d(2) N(4,6) m(1)] d(1) show ?thesis by simp
  qed
  with t N srv_side_client [OF N(1)] show ?thesis by (cases t) (auto simp: num_inv_def)
qed

lemma num_inv_step:
  assumes "proto_step ck b s t" and inv: "num_inv ck b f cap lo s" and len: "length f + 3 < 2 ^ 32"
    and b: "0 < unat b" "unat b \<le> MAXBUF"
  shows "\<exists>lo'. num_inv ck b f cap lo' t"
  using assms(1)
proof cases
  case (fill q sq rest pdu)
  note F = fill_result [OF num_invD(1) [OF inv] len b fill(3,4)]
  from fill srv_side_fill [OF num_invD(1) [OF inv] len b fill(2-4)] F(1,6) num_invD [OF inv] show ?thesis
    by (auto simp: num_inv_def intro: rcv_nums_mono)
next
  case (eof pdu)
  then show ?thesis using inv srv_side_eof [OF num_invD(1) [OF inv] b(1)] by (auto simp: num_inv_def)
next
  case (ack a jk q pdus)
  then show ?thesis using inv srv_side_ack [OF num_invD(1) [OF inv] ack(3,4)] by (auto simp: num_inv_def)
next
  case (timeout pdus)
  then show ?thesis using inv srv_side_timeout [OF num_invD(1) [OF inv]] by (auto simp: num_inv_def)
next
  case (deliver p jk st info pdus)
  then show ?thesis using num_inv_receive [OF inv deliver(3), of jk] by auto
next
  case (finish p jk info pdus)
  then show ?thesis using num_inv_receive [OF inv finish(3), of jk] by auto
qed

lemma num_inv_run:
  assumes "proto_reach ck b s0 s" "num_inv ck b f cap lo s0" "length f + 3 < 2 ^ 32"
    and "0 < unat b" "unat b \<le> MAXBUF"
  shows "\<exists>lo'. num_inv ck b f cap lo' s"
  using assms(1)
proof (induction rule: proto_reach.induct)
  case (step s t)
  then show ?case using num_inv_step [OF step(2) _ assms(3-5)] by blast
qed (use assms(2) in blast)

lemma reach_nums:
  assumes "proto_reach ck b (proto_start ws wc f) s" "0 < ws" "ws < 2 ^ 31" "0 < wc" "wc < 2 ^ 31"
    "0 < unat b" "unat b \<le> MAXBUF" "length f + 3 < 2 ^ 32"
  obtains lo where "num_inv ck b f (nat ws) lo s"
  using num_inv_run [OF assms(1) num_inv_start [OF assms(2-5,7)] assms(8,6,7)] by blast

end
