(* ===== verification/Refinement.thy ===== *)
theory Refinement
  imports Any_Windows
begin

text \<open>
  The receive loop of the client, as it runs in its process, refines the client's side of the
  step relation of \<open>Protocol\<close>.  \<open>served\<close> says of a schedule of network events that every
  datagram in it was sent by a server that moves, in between, on the acknowledgements the
  client has sent so far; datagrams may be lost, duplicated and reordered.  Over such a
  schedule \<open>process_transfer_state\<close> is a run of the relation, so what the relation's
  invariant says holds of the file the real loop writes.
\<close>

subsection \<open>Receivers up to their descriptors and peer\<close>

definition abs_rcv :: "ReceiveInfo \<Rightarrow> ReceiveInfo" where
  "abs_rcv info = info\<lparr>serverAddr := 0, socketNum := 0, outFile_fd := -1\<rparr>"

fun abs_turn :: "turn \<Rightarrow> turn" where
  "abs_turn (More st info pdus) = More st (abs_rcv info) pdus"
| "abs_turn (Finished info pdus) = Finished (abs_rcv info) pdus"

lemma abs_rcv_simps [simp]:
  "buffer (abs_rcv info) = buffer info" "rcv_windowSize (abs_rcv info) = rcv_windowSize info"
  "expected (abs_rcv info) = expected info" "highest (abs_rcv info) = highest info"
  "outFile (abs_rcv info) = outFile info" "rcv_eofSeq (abs_rcv info) = rcv_eofSeq info"
  "outFile_open (abs_rcv info) = outFile_open info"
  by (simp_all add: abs_rcv_def)

lemma abs_rcv_update:
  "abs_rcv (info\<lparr>serverAddr := a\<rparr>) = abs_rcv info" "abs_rcv (info\<lparr>socketNum := s\<rparr>) = abs_rcv info"
  "abs_rcv (info\<lparr>outFile_fd := s\<rparr>) = abs_rcv info"
  "abs_rcv (info\<lparr>outFile := f\<rparr>) = abs_rcv info\<lparr>outFile := f\<rparr>"
  "abs_rcv (info\<lparr>expected := x\<rparr>) = abs_rcv info\<lparr>expected := x\<rparr>"
  "abs_rcv (info\<lparr>highest := x\<rparr>) = abs_rcv info\<lparr>highest := x\<rparr>"
  "abs_rcv (info\<lparr>rcv_eofSeq := x\<rparr>) = abs_rcv info\<lparr>rcv_eofSeq := x\<rparr>"
  "abs_rcv (info\<lparr>outFile_open := v\<rparr>) = abs_rcv info\<lparr>outFile_open := v\<rparr>"
  "abs_rcv (info\<lparr>buffer := bs\<rparr>) = abs_rcv info\<lparr>buffer := bs\<rparr>"
  by (simp_all add: abs_rcv_def)

lemma abs_fresh: "abs_rcv (fresh_receiver n s a) = fresh_receiver n 0 0"
  by (simp add: abs_rcv_def fresh_receiver_def)

lemma map_rbind: "map_sum id g (rbind m k) = rbind m (\<lambda>x. map_sum id g (k x))"
  by (cases m) simp_all

lemma rbind_map: "rbind (map_sum id g m) k = rbind m (\<lambda>x. k (g x))"
  by (cases m) simp_all

lemma flush_loop_abs: "flush_loop (abs_rcv info) = map_sum id abs_rcv (flush_loop info)"
proof (induction info rule: flush_loop.induct)
  case (1 info)
  show ?case
    by (subst (1 2) flush_loop.simps)
       (auto simp: map_rbind "1.IH" [symmetric] abs_rcv_update intro!: rbind_cong)
qed

lemma buffer_packet_abs:
  "buffer_packet (abs_rcv info) sq p n = map_sum id abs_rcv (buffer_packet info sq p n)"
  by (auto simp: buffer_packet_def map_rbind abs_rcv_update intro!: rbind_cong)

lemma data_packet_abs:
  "data_packet ck st (abs_rcv info) sq p n =
     map_sum id (\<lambda>(st', info', pdus). (st', abs_rcv info', pdus)) (data_packet ck st info sq p n)"
  by (cases st)
     (auto simp: data_packet_def Let_def map_rbind rbind_map flush_loop_abs buffer_packet_abs abs_rcv_update
       intro!: rbind_cong)

lemma transfer_packet_abs:
  "transfer_packet ck st (abs_rcv info) b n = map_sum id abs_turn (transfer_packet ck st info b n)"
  using flush_loop_abs [of "info\<lparr>rcv_eofSeq := hdr_seq b\<rparr>"]
  by (auto simp: transfer_packet_def send_eof_ack_def Let_def map_rbind rbind_map data_packet_abs abs_rcv_update
      split: prod.splits intro!: rbind_cong)

subsection \<open>Schedules a server explains\<close>

text \<open>A move of the server's side leaves the client's side of the state alone.\<close>

definition server_move :: "cksum \<Rightarrow> u16 \<Rightarrow> proto \<Rightarrow> proto \<Rightarrow> bool" where
  "server_move ck b s t \<longleftrightarrow> proto_step ck b s t \<and> rinfo t = rinfo s \<and> rstate t = rstate s \<and>
     finished t = finished s \<and> to_server t = to_server s"

definition client_move :: "cksum \<Rightarrow> byte list \<Rightarrow> proto \<Rightarrow> proto \<Rightarrow> bool" where
  "client_move ck p s t \<longleftrightarrow> (\<exists>jk st info pdus.
     transfer_packet ck (rstate s) (rinfo s) (rbuf_of p jk) (int (length p)) = Inr (More st info pdus) \<and>
     t = s\<lparr>rstate := st, rinfo := info, to_server := pdus @ to_server s\<rparr>)"

inductive served :: "cksum \<Rightarrow> u16 \<Rightarrow> proto \<Rightarrow> event list \<Rightarrow> bool" for ck :: cksum and b :: u16 where
  served_end: "served ck b s []"
| served_quiet: "served ck b s es \<Longrightarrow> served ck b s (Quiet # es)"
| served_server: "server_move ck b s t \<Longrightarrow> served ck b t es \<Longrightarrow> served ck b s es"
| served_arrive: "p \<in> set (to_client s) \<Longrightarrow> length p \<le> MAXBUF + 7 \<Longrightarrow>
    (\<And>t. client_move ck p s t \<Longrightarrow> served ck b t es) \<Longrightarrow> served ck b s (Arrive p a # es)"

text \<open>Up to the next arrival only the server moves.\<close>

lemma served_next:
  assumes "served ck b s es" "proto_reach ck b s0 s"
  shows "(dropWhile (\<lambda>e. e = Quiet) es = []) \<or>
    (\<exists>p a es' u. dropWhile (\<lambda>e. e = Quiet) es = Arrive p a # es' \<and> proto_reach ck b s0 u \<and>
       rinfo u = rinfo s \<and> rstate u = rstate s \<and> finished u = finished s \<and>
       p \<in> set (to_client u) \<and> length p \<le> MAXBUF + 7 \<and> (\<forall>t. client_move ck p u t \<longrightarrow> served ck b t es'))"
  using assms
proof (induction rule: served.induct)
  case (served_server s t es)
  have "proto_reach ck b s0 t"
    using served_server.prems served_server.hyps(1) by (auto simp: server_move_def intro: proto_reach.step)
  with served_server.IH served_server.hyps(1) show ?case unfolding server_move_def by metis
next
  case (served_arrive p s es a)
  then show ?case by (intro disjI2 exI [of _ p] exI [of _ a] exI [of _ es] exI [of _ s]) auto
qed auto

lemma recv_first:
  assumes "safeRecvfrom s len w = (Inr (b, n, src), w')"
    "dropWhile (\<lambda>e. e = Quiet) (schedule w) = Arrive p a # es" "length p \<le> len"
  shows "n = int (length p)" "src = a" "schedule w' = es" "\<exists>jk. b = rbuf_of p jk"
  using assms by (auto simp: safeRecvfrom_def recvfrom_def bnd_def Let_def split: if_splits)

lemma recv_nothing:
  "dropWhile (\<lambda>e. e = Quiet) (schedule w) = [] \<Longrightarrow> safeRecvfrom s len w \<noteq> (Inr r, w')"
  by (simp add: safeRecvfrom_def recvfrom_def bnd_def Let_def del: dropWhile_eq_Nil_conv)

text \<open>
  A datagram the loop receives is one the relation delivers after zero or more steps of its own,
  and the receiver's turn on it is the turn of the relation.
\<close>

lemma client_loop_receives:
  assumes "safeRecvfrom (socketNum info) (MAXBUF + 7) w = (Inr (bu, n, src), w1)"
    and "served ck b s (schedule w)" "proto_reach ck b s0 s" "rinfo s = abs_rcv info" "rstate s = st"
      "\<not> finished s"
  obtains u p jk where "proto_reach ck b s0 u" "\<not> finished u" "p \<in> set (to_client u)"
    "\<forall>t. client_move ck p u t \<longrightarrow> served ck b t (schedule w1)"
    "transfer_packet ck (rstate u) (rinfo u) (rbuf_of p jk) (int (length p)) =
       map_sum id abs_turn (transfer_packet ck st (info\<lparr>serverAddr := src\<rparr>) bu n)"
proof -
  have "dropWhile (\<lambda>e. e = Quiet) (schedule w) \<noteq> []" using assms(1) recv_nothing by blast
  with served_next [OF assms(2,3)] obtain p a es u where
    d: "dropWhile (\<lambda>e. e = Quiet) (schedule w) = Arrive p a # es" and
    u: "proto_reach ck b s0 u" "rinfo u = abs_rcv info" "rstate u = st" "\<not> finished u"
      "p \<in> set (to_client u)" "length p \<le> MAXBUF + 7" "\<forall>t. client_move ck p u t \<longrightarrow> served ck b t es"
    using assms(4-6) by auto
  obtain jk where got: "bu = rbuf_of p jk" "n = int (length p)" "src = a" "schedule w1 = es"
    using recv_first [OF assms(1) d u(6)] by blast
  have "transfer_packet ck (rstate u) (rinfo u) (rbuf_of p jk) (int (length p)) =
      map_sum id abs_turn (transfer_packet ck st (info\<lparr>serverAddr := src\<rparr>) bu n)"
    using transfer_packet_abs [of ck st "info\<lparr>serverAddr := src\<rparr>" bu n] u(2,3) got by (simp add: abs_rcv_update)
  with that [of u p jk] u got(4) show thesis by simp
qed

text \<open>
  The simulation: a loop that returns has taken the relation to a finished state that holds its
  receiver; and if no datagram in flight can make the receiver fault, the loop does not fault.
\<close>

lemma client_loop_simulates:
  assumes "process_transfer_loop ck st info w = (r, w')" "served ck b s (schedule w)"
    "proto_reach ck b s0 s" "rinfo s = abs_rcv info" "rstate s = st" "\<not> finished s"
  shows "(case r of
      Inr info' \<Rightarrow> \<exists>t. proto_reach ck b s0 t \<and> finished t \<and> rinfo t = abs_rcv info'
    | Inl (Fault f) \<Rightarrow> \<exists>t p jk. proto_reach ck b s0 t \<and> \<not> finished t \<and> p \<in> set (to_client t) \<and>
        transfer_packet ck (rstate t) (rinfo t) (rbuf_of p jk) (int (length p)) = Inl f
    | Inl _ \<Rightarrow> True)"
  using assms
proof (induction "length (schedule w)" arbitrary: st info w s rule: less_induct)
  case less
  obtain r1 w1 where rc: "safeRecvfrom (socketNum info) (MAXBUF + 7) w = (r1, w1)" by fastforce
  show ?case
  proof (cases r1)
    case (Inl x)
    with rc have "r = Inl x" using less.prems(1) loop_stop by fastforce
    moreover have "\<forall>f. x \<noteq> Fault f" using recv_events(3) [OF rc] Inl by auto
    ultimately show ?thesis by (cases x) auto
  next
    case (Inr x)
    obtain bu n src where x: "x = (bu, n, src)" by (cases x)
    note rc' = rc [unfolded Inr x]
    obtain u p jk where u: "proto_reach ck b s0 u" "\<not> finished u" "p \<in> set (to_client u)"
      "\<forall>t. client_move ck p u t \<longrightarrow> served ck b t (schedule w1)" and
      abs: "transfer_packet ck (rstate u) (rinfo u) (rbuf_of p jk) (int (length p)) =
        map_sum id abs_turn (transfer_packet ck st (info\<lparr>serverAddr := src\<rparr>) bu n)"
      by (rule client_loop_receives [OF rc' less.prems(2-6)])
    show ?thesis
    proof (cases "transfer_packet ck st (info\<lparr>serverAddr := src\<rparr>) bu n")
      case (Inl f)
      then have "r = Inl (Fault f)" using less.prems(1) rc'
        by (subst (asm) process_transfer_loop.simps) (simp add: bnd_def)
      with u(1-3) abs Inl show ?thesis by auto
    next
      case t: (Inr t)
      show ?thesis
      proof (cases t)
        case (Finished info1 pdus)
        then have "r = Inr info1" using loop_finished [OF rc', of ck st] t less.prems(1) by simp
        moreover from proto_step.finish [OF u(2,3), of ck jk "abs_rcv info1" pdus b] abs t Finished u(1) have
          "proto_reach ck b s0 (u\<lparr>finished := True, rinfo := abs_rcv info1, to_server := pdus @ to_server u\<rparr>)"
          by (auto intro: proto_reach.step)
        ultimately show ?thesis by (auto intro!: exI)
      next
        case (More st1 info1 pdus)
        let ?u1 = "u\<lparr>rstate := st1, rinfo := abs_rcv info1, to_server := pdus @ to_server u\<rparr>"
        let ?w1 = "w1\<lparr>sent := sent w1 @ map (\<lambda>m. (socketNum info1, m, serverAddr info1)) pdus\<rparr>"
        have tp: "transfer_packet ck (rstate u) (rinfo u) (rbuf_of p jk) (int (length p)) =
          Inr (More st1 (abs_rcv info1) pdus)" using abs t More by simp
        have "proto_reach ck b s0 ?u1"
          using proto_step.deliver [OF u(2,3) tp, of b] u(1) by (blast intro: proto_reach.step)
        moreover have "client_move ck p u ?u1" unfolding client_move_def using tp by blast
        then have "served ck b ?u1 (schedule ?w1)" using u(4) by simp
        moreover have "process_transfer_loop ck st1 info1 ?w1 = (r, w')"
          using loop_more [OF rc'] t More less.prems(1) by simp
        moreover have "length (schedule ?w1) < length (schedule w)"
          using safeRecvfrom_schedule [OF rc'] by simp
        ultimately show ?thesis using less.hyps [of ?w1 st1 info1 ?u1] u(2) by simp
      qed
    qed
  qed
qed

subsection \<open>Executable explanations\<close>

text \<open>The bytes of the stack behind a datagram of at least a header play no role.\<close>

lemma transfer_packet_junk:
  assumes "7 \<le> length p"
  shows "transfer_packet ck st info (rbuf_of p jk) (int (length p)) =
    transfer_packet ck st info (rbuf_of p jk') (int (length p))"
proof -
  have "hdr_seq (rbuf_of p jk) = hdr_seq (rbuf_of p jk')" "hdr_flag (rbuf_of p jk) = hdr_flag (rbuf_of p jk')"
    "payload_of (rbuf_of p jk) (int (length p) - 7) = payload_of (rbuf_of p jk') (int (length p) - 7)"
    using assms by (auto simp: hdr_seq_def hdr_flag_def rbuf_of_def payload_of_def)
  then show ?thesis by (simp add: transfer_packet_def Let_def)
qed

text \<open>What the server does before each event, as data; \<open>serves\<close> checks the explanation.\<close>

fun is_server_action :: "action \<Rightarrow> bool" where
  "is_server_action (Deliver _) = False"
| "is_server_action _ = True"

fun serves :: "cksum \<Rightarrow> u16 \<Rightarrow> (action list \<times> event) list \<Rightarrow> proto \<Rightarrow> bool" where
  "serves ck b [] s = True"
| "serves ck b ((as, e) # xs) s =
     (list_all is_server_action as \<and>
      (case run_actions ck b as s of
         None \<Rightarrow> False
       | Some t \<Rightarrow>
           (case e of
              Quiet \<Rightarrow> serves ck b xs t
            | RecvError \<Rightarrow> False
            | Arrive p a \<Rightarrow>
                p \<in> set (to_client t) \<and> 7 \<le> length p \<and> length p \<le> MAXBUF + 7 \<and>
                (case transfer_packet ck (rstate t) (rinfo t) (rbuf_of p (\<lambda>_. 0)) (int (length p)) of
                   Inr (More st info pdus) \<Rightarrow>
                     serves ck b xs (t\<lparr>rstate := st, rinfo := info, to_server := pdus @ to_server t\<rparr>)
                 | _ \<Rightarrow> True))))"

lemma act_server_move:
  "is_server_action a \<Longrightarrow> act ck b a s = Some t \<Longrightarrow> server_move ck b s t"
proof -
  assume a: "is_server_action a" "act ck b a s = Some t"
  then have "rinfo t = rinfo s \<and> rstate t = rstate s \<and> finished t = finished s \<and> to_server t = to_server s"
    by (cases a) (auto simp: act_def Let_def split: if_splits sum.splits option.splits prod.splits)
  with act_step [OF a(2)] show ?thesis by (simp add: server_move_def)
qed

lemma run_actions_served:
  "list_all is_server_action as \<Longrightarrow> run_actions ck b as s = Some t \<Longrightarrow> served ck b t es \<Longrightarrow> served ck b s es"
proof (induction as arbitrary: s)
  case (Cons a as)
  then obtain u where "act ck b a s = Some u" "run_actions ck b as u = Some t"
    by (auto simp: Option.bind_eq_Some_conv)
  with Cons show ?case by (auto intro: served_server act_server_move)
qed simp

lemma serves_served: "serves ck b xs s \<Longrightarrow> served ck b s (map snd xs)"
proof (induction xs arbitrary: s)
  case (Cons x xs)
  obtain as e where x: "x = (as, e)" by (cases x)
  with Cons.prems obtain t where t: "list_all is_server_action as" "run_actions ck b as s = Some t"
    by (auto split: option.splits)
  have "served ck b t (e # map snd xs)"
  proof (cases e)
    case (Arrive p a)
    have p: "p \<in> set (to_client t)" "7 \<le> length p" "length p \<le> MAXBUF + 7"
      using Cons.prems x t Arrive by auto
    have "served ck b u (map snd xs)" if "client_move ck p t u" for u
    proof -
      from that obtain jk st info pdus where
        "transfer_packet ck (rstate t) (rinfo t) (rbuf_of p jk) (int (length p)) = Inr (More st info pdus)"
        "u = t\<lparr>rstate := st, rinfo := info, to_server := pdus @ to_server t\<rparr>"
        unfolding client_move_def by blast
      then have "serves ck b xs u"
        using Cons.prems x t Arrive p transfer_packet_junk [OF p(2), of ck "rstate t" "rinfo t" jk "\<lambda>_. 0"]
        by simp
      then show ?thesis by (rule Cons.IH)
    qed
    then show ?thesis using p by (simp add: Arrive served_arrive)
  qed (use Cons x t in \<open>auto intro: served_quiet\<close>)
  then show ?case using run_actions_served t x by simp
qed (simp add: served_end)

text \<open>
  A network that reorders, delays and duplicates: packet 2 arrives before packet 1, packet 1
  as the answer to the SREJ, packet 2 once more.
\<close>

definition bad_network :: "(action list \<times> event) list" where
  "bad_network =
     [([Fill, Fill], Arrive (pdu_of (\<lambda>_. 0) 2 16 [9]) 5), ([], Quiet),
      ([Ack 0], Arrive (pdu_of (\<lambda>_. 0) 1 17 [7, 8]) 5), ([], Arrive (pdu_of (\<lambda>_. 0) 2 16 [9]) 5),
      ([Ack 0, Eof], Arrive (pdu_of (\<lambda>_. 0) 3 10 []) 5)]"

lemma bad_network_served: "served (\<lambda>_. 0) 2 (proto_start 2 3 [7, 8, 9]) (schedule (start_world (map snd bad_network)))"
proof -
  have "serves (\<lambda>_. 0) 2 bad_network (proto_start 2 3 [7, 8, 9])" by code_simp
  then show ?thesis using serves_served by (simp add: start_world_def)
qed

lemma bad_network_run:
  obtains ri w' where "process_transfer_state (\<lambda>_. 0) (fresh_receiver 3 0 0\<lparr>outFile_fd := 4\<rparr>)
     (start_world (map snd bad_network)) = (Inr ri, w')" "expected ri = 3" "rcv_eofSeq ri = 3"
proof -
  let ?run = "process_transfer_state (\<lambda>_. 0) (fresh_receiver 3 0 0\<lparr>outFile_fd := 4\<rparr>)
     (start_world (map snd bad_network))"
  have "(case fst ?run of Inr ri \<Rightarrow> (expected ri, rcv_eofSeq ri) = (3, 3) | _ \<Rightarrow> False)" by code_simp
  with that show thesis by (cases ?run) (auto split: sum.splits)
qed

subsection \<open>The client over any network\<close>

text \<open>
  C6: Refinement: over any schedule a server explains, \<open>process_transfer_state\<close>, started as
  \<open>wait_on_data_state\<close> starts it, never faults, and when it returns, the relation has a run
  to a finished state whose receiver is the one the loop returns.  This holds for every pair of
  window sizes, also where the server's window is the larger one, and for chunks of 1 to
  \<open>MAXBUF\<close> bytes of a file whose chunk numbers do not wrap.
\<close>

theorem client_loop_refines:
  assumes "served ck b (proto_start ws wc f) (schedule w)"
    and "0 < ws" "ws < 2 ^ 31" "0 < wc" "wc < 2 ^ 31" "0 < unat b" "unat b \<le> MAXBUF" "length f + 3 < 2 ^ 32"
    and "process_transfer_state ck (fresh_receiver wc sock peer\<lparr>outFile_fd := n\<rparr>) w = (r, w')"
  shows "case r of
      Inr info' \<Rightarrow> \<exists>t. proto_reach ck b (proto_start ws wc f) t \<and> finished t \<and> rinfo t = abs_rcv info'
    | Inl (Fault _) \<Rightarrow> False
    | Inl _ \<Rightarrow> True"
proof -
  have no: False if h: "proto_reach ck b (proto_start ws wc f) t" "\<not> finished t" "p \<in> set (to_client t)"
    "transfer_packet ck (rstate t) (rinfo t) (rbuf_of p jk) (int (length p)) = Inl x" for t p jk x
  proof -
    obtain lo where "num_inv ck b f (nat ws) lo t" using reach_nums [OF h(1) assms(2-8)] .
    from num_inv_receive [OF this h(3), of jk] h(4) show False by auto
  qed
  from client_loop_simulates [OF assms(9) [unfolded process_transfer_state_def] assms(1) proto_reach.start]
  show ?thesis
    by (auto simp: abs_rcv_update abs_fresh split: sum.splits stop.splits dest: no)
qed

theorem client_loop_refines_witness:
  "\<exists>ri t. fst (process_transfer_state (\<lambda>_. 0) (fresh_receiver 3 0 0\<lparr>outFile_fd := 4\<rparr>)
       (start_world (map snd bad_network))) = Inr ri \<and>
     proto_reach (\<lambda>_. 0) 2 (proto_start 2 3 [7, 8, 9]) t \<and> finished t \<and> rinfo t = abs_rcv ri"
proof -
  obtain ri w' where run: "process_transfer_state (\<lambda>_. 0) (fresh_receiver 3 0 0\<lparr>outFile_fd := 4\<rparr>)
     (start_world (map snd bad_network)) = (Inr ri, w')" by (rule bad_network_run)
  have "case Inr ri :: stop + ReceiveInfo of
      Inr info' \<Rightarrow> \<exists>t. proto_reach (\<lambda>_. 0) 2 (proto_start 2 3 [7, 8, 9]) t \<and> finished t \<and> rinfo t = abs_rcv info'
    | Inl (Fault _) \<Rightarrow> False | Inl _ \<Rightarrow> True"
    by (rule client_loop_refines [OF bad_network_served _ _ _ _ _ _ _ run]) (simp_all add: MAXBUF_def)
  with run show ?thesis by simp
qed

text \<open>
  So the real receive loop is safe over any such network: the file it leaves is the first
  \<open>expected - 1\<close> chunks of the server's file, and the whole of it when it stopped with
  \<open>expected\<close> at the number of the EOF packet.
\<close>

lemma client_file_over_any_network:
  assumes "served ck b (proto_start ws wc f) (schedule w)"
    and "0 < ws" "ws \<le> wc" "wc < 2 ^ 31" "0 < unat b" "unat b \<le> MAXBUF" "length f + 3 < 2 ^ 32"
    and "process_transfer_state ck (fresh_receiver wc sock peer\<lparr>outFile_fd := n\<rparr>) w = (Inr info', w')"
  shows "outFile info' = take ((unat (expected info') - 1) * unat b) f \<and>
    (expected info' = rcv_eofSeq info' \<longrightarrow> outFile info' = f)"
proof -
  from client_loop_simulates [OF assms(8) [unfolded process_transfer_state_def] assms(1) proto_reach.start]
  obtain t where t: "proto_reach ck b (proto_start ws wc f) t" "finished t" "rinfo t = abs_rcv info'"
    by (auto simp: abs_rcv_update abs_fresh)
  obtain lo where inv: "proto_inv ck b f lo t" using reach_inv [OF t(1) assms(2-7)] .
  show ?thesis using inv_prefix [OF inv] inv_complete [OF inv t(2)] t(3) by simp
qed

end
