(* ===== verification/Machines.thy ===== *)
theory Machines
  imports Sender_Safety Refinement
begin

text \<open>
  The two data loops as event machines.  Between two waits \<open>send_data_state\<close> and
  \<open>process_transfer_state\<close> are in one of a few control points; \<open>srv_react\<close> and \<open>cli_react\<close> say
  what one network event does there.  The theorems show that the nested loops and the
  machines are the same programs: over any schedule of datagrams of at least a header they
  end alike and hand the same datagrams to \<open>sendtoErr\<close>.  A machine can be stopped after any
  event and resumed, which the loops of the source cannot; that is what \<open>Composition\<close> needs.
\<close>

subsection \<open>Machines over a schedule\<close>

type_synonym datagrams = "(int \<times> byte list \<times> addr) list"

fun drive :: "('c \<Rightarrow> event \<Rightarrow> 'c \<times> datagrams) \<Rightarrow> 'c \<Rightarrow> event list \<Rightarrow> 'c \<times> datagrams" where
  "drive react c [] = (c, [])"
| "drive react c (e # es) =
     (case react c e of (c1, out1) \<Rightarrow> (case drive react c1 es of (c2, out2) \<Rightarrow> (c2, out1 @ out2)))"

lemma drive_append:
  "drive react c (es @ es') =
     (case drive react c es of (c1, out1) \<Rightarrow>
        (case drive react c1 es' of (c2, out2) \<Rightarrow> (c2, out1 @ out2)))"
  by (induction es arbitrary: c) (auto split: prod.splits)

lemma drive_stuck: "(\<And>e. react c e = (c, [])) \<Longrightarrow> drive react c es = (c, [])"
  by (induction es) simp_all

text \<open>Every datagram of the schedule has at least the seven bytes of a header.\<close>

definition headers :: "event list \<Rightarrow> bool" where
  "headers es \<longleftrightarrow> (\<forall>d a. Arrive d a \<in> set es \<longrightarrow> 7 \<le> length d)"

lemma headers_simps [simp]:
  "headers []" "headers (Quiet # es) = headers es" "headers (RecvError # es) = headers es"
  "headers (Arrive d a # es) \<longleftrightarrow> 7 \<le> length d \<and> headers es"
  "headers (es @ es') \<longleftrightarrow> headers es \<and> headers es'"
  by (auto simp: headers_def)

subsection \<open>The machine of the server's data phase\<close>

text \<open>
  The control points: \<open>Drain\<close> polls for acknowledgements after a chunk was sent, \<open>Room n\<close> waits
  for room in a full window after \<open>n\<close> timeouts in a row.
\<close>

datatype wait = Drain | Room nat

datatype srv =
    Polls wait CircularQueue u32 ServerInfo
  | Over bool CircularQueue u32 ServerInfo
  | SrvStop stop

definition to_peer :: "ServerInfo \<Rightarrow> byte list list \<Rightarrow> datagrams" where
  "to_peer info pdus = map (\<lambda>p. (childSocket info, p, clientAddr info)) pdus"

text \<open>From the head of the outer loop to the next poll.\<close>

definition to_poll :: "cksum \<Rightarrow> CircularQueue \<Rightarrow> u32 \<Rightarrow> ServerInfo \<Rightarrow> nat \<Rightarrow> srv \<times> datagrams" where
  "to_poll ck q sq info tc =
     (if CircularQueue_is_full q then (Polls (Room tc) q sq info, [])
      else case in_file info of
        None \<Rightarrow> (SrvStop (Fault NullPointer), [])
      | Some rest \<Rightarrow>
          (case send_chunk ck True q sq (bufferSize info) rest of
             Inl f \<Rightarrow> (SrvStop (Fault f), [])
           | Inr None \<Rightarrow> (Over False q sq info, [])
           | Inr (Some (q1, sq1, rest1, pdu)) \<Rightarrow>
               (Polls Drain q1 sq1 (info\<lparr>in_file := Some rest1\<rparr>), to_peer info [pdu])))"

definition srv_react :: "cksum \<Rightarrow> srv \<Rightarrow> event \<Rightarrow> srv \<times> datagrams" where
  "srv_react ck c e =
     (case c of
        Polls wt q sq info \<Rightarrow>
          (case e of
             Quiet \<Rightarrow>
               (case wt of
                  Drain \<Rightarrow> to_poll ck q sq info 0
                | Room tc \<Rightarrow>
                    (case resend_oldest ck q of
                       Inl f \<Rightarrow> (SrvStop (Fault f), [])
                     | Inr pdus \<Rightarrow>
                         (if tc + 1 \<ge> 10 then Over True q sq info else Polls (Room (tc + 1)) q sq info,
                          to_peer info pdus)))
           | RecvError \<Rightarrow> (SrvStop (Exited (-1)), [])
           | Arrive d a \<Rightarrow>
               (case handle_ack ck q (rbuf_of (take 7 d) (\<lambda>_. 0)) of
                  Inl f \<Rightarrow> (SrvStop (Fault f), [])
                | Inr (q1, pdus) \<Rightarrow>
                    let info1 = info\<lparr>clientAddr := a\<rparr>
                    in (case wt of
                          Drain \<Rightarrow> (Polls Drain q1 sq info1, to_peer info1 pdus)
                        | Room _ \<Rightarrow> (case to_poll ck q1 sq info1 0 of
                            (c', out) \<Rightarrow> (c', to_peer info1 pdus @ out)))))
      | _ \<Rightarrow> (c, []))"

lemma srv_react_stuck [simp]: "srv_react ck (Over g q sq info) e = (Over g q sq info, [])"
  "srv_react ck (SrvStop s) e = (SrvStop s, [])"
  by (simp_all add: srv_react_def)

lemma srv_drive_stuck [simp]:
  "drive (srv_react ck) (Over g q sq info) es = (Over g q sq info, [])"
  "drive (srv_react ck) (SrvStop s) es = (SrvStop s, [])"
  by (rule drive_stuck, simp)+

text \<open>How the loop ends whose machine is left in a configuration at the end of the schedule.\<close>

fun srv_result :: "srv \<Rightarrow> stop + (bool \<times> CircularQueue \<times> u32 \<times> ServerInfo)" where
  "srv_result (Polls _ _ _ _) = Inl Blocked"
| "srv_result (Over g q sq info) = Inr (g, q, sq, info)"
| "srv_result (SrvStop s) = Inl s"

text \<open>What the loop needs of its process: memory, and its socket as the one polled.\<close>

definition waits_on :: "int \<Rightarrow> world \<Rightarrow> bool" where
  "waits_on s w \<longleftrightarrow> heap w = (\<lambda>_. True) \<and> 0 < s \<and> single s (pset w) \<and> maxFileDescriptor (pset w) \<le> s + 1 \<and>
     is_open w s"

lemma waits_on_update [simp]:
  "waits_on s (w\<lparr>schedule := es\<rparr>) = waits_on s w" "waits_on s (w\<lparr>sent := m\<rparr>) = waits_on s w"
  "waits_on s (w\<lparr>allocs := n\<rparr>) = waits_on s w"
  by (simp_all add: waits_on_def is_open_def)

text \<open>A loop over \<open>w\<close> and a machine about to go on with \<open>c\<close> after sending \<open>out\<close> agree.\<close>

definition srv_agrees ::
    "cksum \<Rightarrow> (stop + (bool \<times> CircularQueue \<times> u32 \<times> ServerInfo)) \<times> world \<Rightarrow> world \<Rightarrow> srv \<times> datagrams \<Rightarrow> bool" where
  "srv_agrees ck res w c \<longleftrightarrow>
     (let d = drive (srv_react ck) (fst c) (schedule w)
      in fst res = srv_result (fst d) \<and> sent (snd res) = sent w @ snd c @ snd d)"

lemma srv_agrees_stop [simp]:
  "srv_agrees ck (r, w') w (SrvStop s, out) \<longleftrightarrow> r = Inl s \<and> sent w' = sent w @ out"
  "srv_agrees ck (r, w') w (Over g q sq info, out) \<longleftrightarrow> r = Inr (g, q, sq, info) \<and> sent w' = sent w @ out"
  by (auto simp: srv_agrees_def)

text \<open>\<open>handle_ack\<close> reads a header only, so what the stack held does not matter.\<close>

lemma handle_ack_junk:
  assumes "7 \<le> length d"
  shows "handle_ack ck q (rbuf_of (take 7 d) jk) = handle_ack ck q (rbuf_of (take 7 d) jk')"
proof -
  have "hdr_flag (rbuf_of (take 7 d) jk) = hdr_flag (rbuf_of (take 7 d) jk')"
    "hdr_seq (rbuf_of (take 7 d) jk) = hdr_seq (rbuf_of (take 7 d) jk')"
    using assms by (simp_all add: hdr_flag_def hdr_seq_def rbuf_of_def)
  then show ?thesis by (simp add: handle_ack_def)
qed

lemma poll_waiting:
  assumes "waits_on s w" "schedule w = e # es" "e \<noteq> Quiet" "0 \<le> t"
  shows "poll_call t w = (Inr s, w)"
  using assms poll_result_ready [of s "pset w"]
  by (cases e) (auto simp: poll_call_def waits_on_def)

lemma poll_timeout:
  assumes "waits_on s w" "schedule w = Quiet # es" "0 \<le> t"
  shows "poll_call t w = (Inr (-1), w\<lparr>schedule := es\<rparr>)"
  using assms by (intro poll_call_quiet) (auto simp: waits_on_def dest: single_sane)

lemma poll_blocked: "schedule w = [] \<Longrightarrow> poll_call t w = (Inl Blocked, w\<lparr>schedule := []\<rparr>)"
  by (simp add: poll_call_def)

text \<open>One call of \<open>wait_on_ack_state\<close> while something waits on the socket.\<close>

lemma wait_on_ack_poll:
  assumes "waits_on (childSocket info) w" "schedule w = e # es" "e \<noteq> Quiet"
  obtains v where "schedule v = e # es" "sent v = sent w" "waits_on (childSocket info) v"
    "wait_on_ack_state ck q info w =
       bnd (safeRecvfrom (childSocket info) 7) (\<lambda>(recvBuff, bytesRecv, src).
         let info1 = info\<lparr>clientAddr := src\<rparr>
         in if bytesRecv < 0 then ret (DONE, q, info1)
            else bnd (lift (to_stop (handle_ack ck q recvBuff))) (\<lambda>(window1, pdus).
                 bnd (send_all (childSocket info1) pdus (clientAddr info1)) (\<lambda>_.
                   ret (SEND_DATA, window1, info1)))) v"
proof -
  let ?s = "childSocket info"
  let ?k = "\<lambda>_. bnd (poll_call 1000) (\<lambda>packetAckPoll.
       if packetAckPoll \<le> 0 then ret (SEND_DATA, q, info)
       else bnd (safeRecvfrom ?s 7) (\<lambda>(recvBuff, bytesRecv, src).
            let info1 = info\<lparr>clientAddr := src\<rparr>
            in if bytesRecv < 0 then ret (DONE, q, info1)
               else bnd (lift (to_stop (handle_ack ck q recvBuff))) (\<lambda>(window1, pdus).
                    bnd (send_all (childSocket info1) pdus (clientAddr info1)) (\<lambda>_.
                      ret (SEND_DATA, window1, info1)))))"
  from assms(1) have pre: "heap w = (\<lambda>_. True)" "0 \<le> ?s" "maxFileDescriptor (pset w) \<le> ?s + 1" "0 < ?s"
    by (auto simp: waits_on_def)
  have "wait_on_ack_state ck q info w = bnd setup_poll_set (\<lambda>_. bnd (add_to_poll_set ?s) ?k) w"
    by (simp only: wait_on_ack_state_def)
  moreover obtain ps n where k: "bnd setup_poll_set (\<lambda>_. bnd (add_to_poll_set ?s) ?k) w =
      ?k () (w\<lparr>allocs := n, pset := ps\<rparr>)" "single ?s ps" "maxFileDescriptor ps = ?s + 1"
    by (rule setup_poll_ready [OF pre(1-3)])
  let ?w = "w\<lparr>allocs := n, pset := ps\<rparr>"
  have w: "waits_on ?s ?w" using assms(1) k(2,3) by (simp add: waits_on_def is_open_def)
  moreover have "schedule ?w = e # es" using assms(2) by simp
  ultimately have "wait_on_ack_state ck q info w = ?k () ?w" "poll_call 1000 ?w = (Inr ?s, ?w)"
    using k(1) poll_waiting [OF w _ assms(3)] by (simp_all only: zero_le_numeral)
  with that [of ?w] w assms(2) pre(4) show thesis by simp
qed

lemma wait_on_ack_arrive:
  assumes w: "waits_on (childSocket info) w" "schedule w = Arrive d a # es" and d: "7 \<le> length d"
  obtains v where "schedule v = es" "sent v = sent w" "waits_on (childSocket info) v"
    "wait_on_ack_state ck q info w = (case handle_ack ck q (rbuf_of (take 7 d) (\<lambda>_. 0)) of
       Inl f \<Rightarrow> (Inl (Fault f), v)
     | Inr (q1, pdus) \<Rightarrow> (Inr (SEND_DATA, q1, info\<lparr>clientAddr := a\<rparr>),
         v\<lparr>sent := sent v @ to_peer (info\<lparr>clientAddr := a\<rparr>) pdus\<rparr>))"
proof -
  obtain v where v: "schedule v = Arrive d a # es" "sent v = sent w" "waits_on (childSocket info) v"
    "wait_on_ack_state ck q info w =
       bnd (safeRecvfrom (childSocket info) 7) (\<lambda>(recvBuff, bytesRecv, src).
         let info1 = info\<lparr>clientAddr := src\<rparr>
         in if bytesRecv < 0 then ret (DONE, q, info1)
            else bnd (lift (to_stop (handle_ack ck q recvBuff))) (\<lambda>(window1, pdus).
                 bnd (send_all (childSocket info1) pdus (clientAddr info1)) (\<lambda>_.
                   ret (SEND_DATA, window1, info1)))) v"
    by (rule wait_on_ack_poll [OF w, of ck q]) simp_all
  let ?jk = "junk v (Suc (length es))"
  have r: "safeRecvfrom (childSocket info) 7 v = (Inr (rbuf_of (take 7 d) ?jk, 7, a), v\<lparr>schedule := es\<rparr>)"
    using v(1,3) d by (simp add: safeRecvfrom_def recvfrom_def bnd_def Let_def waits_on_def)
  show thesis
    by (rule that [of "v\<lparr>schedule := es\<rparr>"])
       (use v r in \<open>simp_all add: Let_def handle_ack_junk [OF d, of ck q ?jk "\<lambda>_. 0"] to_peer_def send_all_eq
         split: sum.splits prod.splits\<close>)
qed

lemma wait_on_ack_error:
  assumes "waits_on (childSocket info) w" "schedule w = RecvError # es"
  obtains v where "sent v = sent w" "wait_on_ack_state ck q info w = (Inl (Exited (-1)), v)"
proof -
  obtain v where v: "schedule v = RecvError # es" "sent v = sent w" "waits_on (childSocket info) v"
    "wait_on_ack_state ck q info w =
       bnd (safeRecvfrom (childSocket info) 7) (\<lambda>(recvBuff, bytesRecv, src).
         let info1 = info\<lparr>clientAddr := src\<rparr>
         in if bytesRecv < 0 then ret (DONE, q, info1)
            else bnd (lift (to_stop (handle_ack ck q recvBuff))) (\<lambda>(window1, pdus).
                 bnd (send_all (childSocket info1) pdus (clientAddr info1)) (\<lambda>_.
                   ret (SEND_DATA, window1, info1)))) v"
    by (rule wait_on_ack_poll [OF assms, of ck q]) simp_all
  moreover have "safeRecvfrom (childSocket info) 7 v = (Inl (Exited (-1)), v\<lparr>schedule := es\<rparr>)"
    using v(1,3) by (simp add: safeRecvfrom_def recvfrom_def bnd_def Let_def waits_on_def)
  ultimately show thesis using that [of "v\<lparr>schedule := es\<rparr>"] by simp
qed

subsection \<open>The loops between two polls\<close>

text \<open>\<open>send_data_loop\<close> cut at its two polls.\<close>

definition room_phase ::
    "cksum \<Rightarrow> CircularQueue \<Rightarrow> u32 \<Rightarrow> ServerInfo \<Rightarrow> nat \<Rightarrow> (bool \<times> CircularQueue \<times> u32 \<times> ServerInfo) prog" where
  "room_phase ck q sq info tc =
     bnd (wait_for_room ck q info tc) (\<lambda>s w2.
       case s of (gaveUp, window2, info2, timeoutCount2) \<Rightarrow>
         if gaveUp then ret (True, window2, sq, info2) w2
         else send_data_loop ck window2 sq info2 timeoutCount2 w2)"

definition fill_phase ::
    "cksum \<Rightarrow> CircularQueue \<Rightarrow> u32 \<Rightarrow> ServerInfo \<Rightarrow> nat \<Rightarrow> (bool \<times> CircularQueue \<times> u32 \<times> ServerInfo) prog" where
  "fill_phase ck q sq info tc =
     bnd (fill_window ck q sq info tc) (\<lambda>r w1.
       case r of (eofReached, window1, seqNum1, info1, timeoutCount1) \<Rightarrow>
         if eofReached then ret (False, window1, seqNum1, info1) w1
         else room_phase ck window1 seqNum1 info1 timeoutCount1 w1)"

definition drain_phase ::
    "cksum \<Rightarrow> CircularQueue \<Rightarrow> u32 \<Rightarrow> ServerInfo \<Rightarrow> (bool \<times> CircularQueue \<times> u32 \<times> ServerInfo) prog" where
  "drain_phase ck q sq info =
     bnd (drain_acks ck q info) (\<lambda>x w4. case x of (q2, info2) \<Rightarrow> fill_phase ck q2 sq info2 0 w4)"

lemma send_data_loop_phase: "send_data_loop ck q sq info tc w = fill_phase ck q sq info tc w"
  unfolding fill_phase_def room_phase_def by (subst send_data_loop.simps) (rule refl)

lemma bnd_via: "m w = m' w' \<Longrightarrow> bnd m k w = bnd m' k w'"
  by (simp add: bnd_def)

lemma room_phase_open:
  assumes "\<not> CircularQueue_is_full q"
  shows "room_phase ck q sq info tc w = fill_phase ck q sq info tc w"
proof -
  have "wait_for_room ck q info tc w = (Inr (False, q, info, tc), w)"
    using assms by (subst wait_for_room.simps) simp
  then show ?thesis by (simp add: room_phase_def send_data_loop_phase)
qed

lemma fill_phase_full:
  assumes "CircularQueue_is_full q"
  shows "fill_phase ck q sq info tc w = room_phase ck q sq info tc w"
proof -
  have "fill_window ck q sq info tc w = (Inr (False, q, sq, info, tc), w)"
    using assms by (subst fill_window.simps) simp
  then show ?thesis by (simp add: fill_phase_def)
qed

lemma fill_phase_step:
  assumes "\<not> CircularQueue_is_full q" "heap w = (\<lambda>_. True)"
  shows "fill_phase ck q sq info tc w = (case in_file info of
      None \<Rightarrow> (Inl (Fault NullPointer), w)
    | Some rest \<Rightarrow>
        (let w1 = w\<lparr>allocs := allocs w + 1\<rparr>
         in case send_chunk ck True q sq (bufferSize info) rest of
              Inl f \<Rightarrow> (Inl (Fault f), w1)
            | Inr None \<Rightarrow> (Inr (False, q, sq, info), w1)
            | Inr (Some (q1, sq1, rest1, pdu)) \<Rightarrow>
                drain_phase ck q1 sq1 (info\<lparr>in_file := Some rest1\<rparr>)
                  (w1\<lparr>sent := sent w1 @ to_peer info [pdu]\<rparr>)))"
proof -
  have a: "alloc w = (Inr True, w\<lparr>allocs := allocs w + 1\<rparr>)" using assms(2) by (simp add: alloc_def)
  note fw = fill_window.simps [of ck q sq info tc w]
  show ?thesis
  proof (cases "in_file info")
    case None
    with assms(1) fw show ?thesis by (simp add: fill_phase_def)
  next
    case rest: (Some rest)
    let ?w1 = "w\<lparr>allocs := allocs w + 1\<rparr>"
    note fw1 = fw [unfolded rest option.simps]
    show ?thesis
    proof (cases "send_chunk ck True q sq (bufferSize info) rest")
      case (Inl f)
      with assms(1) a fw1 rest show ?thesis by (simp add: fill_phase_def)
    next
      case (Inr r)
      show ?thesis
      proof (cases r)
        case None
        with Inr assms(1) a fw1 rest show ?thesis by (simp add: fill_phase_def)
      next
        case (Some x)
        obtain q1 sq1 rest1 pdu where x: "x = (q1, sq1, rest1, pdu)" by (cases x)
        let ?d = "bnd (drain_acks ck q1 (info\<lparr>in_file := Some rest1\<rparr>))
            (\<lambda>x w4. case x of (window2, info2) \<Rightarrow> fill_window ck window2 sq1 info2 0 w4)"
        let ?w2 = "?w1\<lparr>sent := sent ?w1 @ to_peer info [pdu]\<rparr>"
        have "fill_window ck q sq info tc w = ?d ?w2"
          using assms(1) a fw1 rest Inr Some x by (simp add: sendtoErr_def to_peer_def)
        note v = bnd_via [where m = "fill_window ck q sq info tc" and w = w and m' = ?d and w' = ?w2, OF this]
        show ?thesis
          by (subst fill_phase_def, subst v)
             (simp add: fill_phase_def drain_phase_def bnd_assoc case_prod_unfold Let_def Some Inr rest x)
      qed
    qed
  qed
qed

subsection \<open>The loops at their polls\<close>

lemma drain_acks_waiting:
  assumes "waits_on (childSocket info) w" "schedule w = e # es" "e \<noteq> Quiet"
  shows "drain_acks ck q info w = bnd (wait_on_ack_state ck q info) (\<lambda>x w2.
    case x of (_, window1, info1) \<Rightarrow> drain_acks ck window1 info1 w2) w"
  using poll_waiting [OF assms, of 0] assms(1) by (subst drain_acks.simps) (simp add: waits_on_def)

lemma wait_for_room_waiting:
  assumes "waits_on (childSocket info) w" "schedule w = e # es" "e \<noteq> Quiet" "CircularQueue_is_full q"
  shows "wait_for_room ck q info tc w = bnd (wait_on_ack_state ck q info) (\<lambda>x w2.
    case x of (_, window1, info1) \<Rightarrow> wait_for_room ck window1 info1 0 w2) w"
  using poll_waiting [OF assms(1-3), of 1000] assms(1,4)
  by (subst wait_for_room.simps) (simp add: waits_on_def)

lemma phase_arrive:
  assumes "waits_on (childSocket info) w" "schedule w = Arrive d a # es" "7 \<le> length d"
  obtains v where "schedule v = es" "sent v = sent w" "waits_on (childSocket info) v"
    "drain_phase ck q sq info w = (case handle_ack ck q (rbuf_of (take 7 d) (\<lambda>_. 0)) of
       Inl f \<Rightarrow> (Inl (Fault f), v)
     | Inr (q1, pdus) \<Rightarrow> drain_phase ck q1 sq (info\<lparr>clientAddr := a\<rparr>)
         (v\<lparr>sent := sent v @ to_peer (info\<lparr>clientAddr := a\<rparr>) pdus\<rparr>))"
    "CircularQueue_is_full q \<longrightarrow>
      room_phase ck q sq info tc w = (case handle_ack ck q (rbuf_of (take 7 d) (\<lambda>_. 0)) of
       Inl f \<Rightarrow> (Inl (Fault f), v)
     | Inr (q1, pdus) \<Rightarrow> room_phase ck q1 sq (info\<lparr>clientAddr := a\<rparr>) 0
         (v\<lparr>sent := sent v @ to_peer (info\<lparr>clientAddr := a\<rparr>) pdus\<rparr>))"
proof -
  obtain v where v: "schedule v = es" "sent v = sent w" "waits_on (childSocket info) v"
    "wait_on_ack_state ck q info w = (case handle_ack ck q (rbuf_of (take 7 d) (\<lambda>_. 0)) of
       Inl f \<Rightarrow> (Inl (Fault f), v)
     | Inr (q1, pdus) \<Rightarrow> (Inr (SEND_DATA, q1, info\<lparr>clientAddr := a\<rparr>),
         v\<lparr>sent := sent v @ to_peer (info\<lparr>clientAddr := a\<rparr>) pdus\<rparr>))"
    by (rule wait_on_ack_arrive [OF assms])
  show thesis
  proof (rule that [OF v(1-3)])
    note D = drain_acks_waiting [OF assms(1,2) event.distinct(3), of ck q]
    show "drain_phase ck q sq info w = (case handle_ack ck q (rbuf_of (take 7 d) (\<lambda>_. 0)) of
       Inl f \<Rightarrow> (Inl (Fault f), v)
     | Inr (q1, pdus) \<Rightarrow> drain_phase ck q1 sq (info\<lparr>clientAddr := a\<rparr>)
         (v\<lparr>sent := sent v @ to_peer (info\<lparr>clientAddr := a\<rparr>) pdus\<rparr>))"
      using v(4) D by (simp add: drain_phase_def bnd_def split: sum.splits prod.splits)
  next
    note R = wait_for_room_waiting [OF assms(1,2) event.distinct(3), of q ck tc]
    show "CircularQueue_is_full q \<longrightarrow> room_phase ck q sq info tc w = (case handle_ack ck q (rbuf_of (take 7 d) (\<lambda>_. 0)) of
       Inl f \<Rightarrow> (Inl (Fault f), v)
     | Inr (q1, pdus) \<Rightarrow> room_phase ck q1 sq (info\<lparr>clientAddr := a\<rparr>) 0
         (v\<lparr>sent := sent v @ to_peer (info\<lparr>clientAddr := a\<rparr>) pdus\<rparr>))"
      using v(4) R by (simp add: room_phase_def bnd_def split: sum.splits prod.splits)
  qed
qed

lemma phase_error:
  assumes "waits_on (childSocket info) w" "schedule w = RecvError # es"
  obtains v where "sent v = sent w" "drain_phase ck q sq info w = (Inl (Exited (-1)), v)"
    "CircularQueue_is_full q \<longrightarrow> room_phase ck q sq info tc w = (Inl (Exited (-1)), v)"
proof -
  obtain v where v: "sent v = sent w" "wait_on_ack_state ck q info w = (Inl (Exited (-1)), v)"
    by (rule wait_on_ack_error [OF assms])
  then show thesis
    using drain_acks_waiting [OF assms event.distinct(5), of ck q]
      wait_for_room_waiting [OF assms event.distinct(5), of q ck tc]
    by (intro that [of v]) (auto simp: drain_phase_def room_phase_def)
qed

lemma drain_phase_quiet:
  assumes "waits_on (childSocket info) w" "schedule w = Quiet # es"
  shows "drain_phase ck q sq info w = fill_phase ck q sq info 0 (w\<lparr>schedule := es\<rparr>)"
proof -
  have "drain_acks ck q info w = (Inr (q, info), w\<lparr>schedule := es\<rparr>)"
    using poll_timeout [OF assms, of 0] by (subst drain_acks.simps) simp
  then show ?thesis by (simp add: drain_phase_def)
qed

lemma room_phase_quiet:
  assumes "waits_on (childSocket info) w" "schedule w = Quiet # es" "CircularQueue_is_full q"
  shows "room_phase ck q sq info tc w = (case resend_oldest ck q of
      Inl f \<Rightarrow> (Inl (Fault f), w\<lparr>schedule := es\<rparr>)
    | Inr pdus \<Rightarrow>
        (let w1 = w\<lparr>schedule := es, sent := sent w @ to_peer info pdus\<rparr>
         in if tc + 1 \<ge> 10 then (Inr (True, q, sq, info), w1) else room_phase ck q sq info (tc + 1) w1))"
  using poll_timeout [OF assms(1,2), of 1000] assms(3)
  unfolding room_phase_def
  by (subst bnd_def, subst wait_for_room.simps)
     (auto simp: send_all_eq to_peer_def Let_def bnd_def split: sum.splits)

lemma phase_blocked:
  assumes "schedule w = []"
  shows "drain_phase ck q sq info w = (Inl Blocked, w\<lparr>schedule := []\<rparr>)"
    "CircularQueue_is_full q \<Longrightarrow> room_phase ck q sq info tc w = (Inl Blocked, w\<lparr>schedule := []\<rparr>)"
proof -
  have "drain_acks ck q info w = (Inl Blocked, w\<lparr>schedule := []\<rparr>)"
    using poll_blocked [OF assms, of 0] by (subst drain_acks.simps) simp
  then show "drain_phase ck q sq info w = (Inl Blocked, w\<lparr>schedule := []\<rparr>)" by (simp add: drain_phase_def)
  assume "CircularQueue_is_full q"
  then have "wait_for_room ck q info tc w = (Inl Blocked, w\<lparr>schedule := []\<rparr>)"
    using poll_blocked [OF assms, of 1000] by (subst wait_for_room.simps) simp
  then show "room_phase ck q sq info tc w = (Inl Blocked, w\<lparr>schedule := []\<rparr>)" by (simp add: room_phase_def)
qed

lemma room_is_fill: "room_phase ck q sq info tc w = fill_phase ck q sq info tc w"
  using room_phase_open fill_phase_full by (metis (no_types))

subsection \<open>The loops are the machine\<close>

lemma fill_agrees:
  assumes w: "waits_on (childSocket info) w"
    and drain: "\<And>q sq i v. childSocket i = childSocket info \<Longrightarrow> schedule v = schedule w \<Longrightarrow>
      waits_on (childSocket info) v \<Longrightarrow> srv_agrees ck (drain_phase ck q sq i v) v (Polls Drain q sq i, [])"
    and room: "CircularQueue_is_full q \<Longrightarrow>
      srv_agrees ck (room_phase ck q sq info tc w) w (Polls (Room tc) q sq info, [])"
  shows "srv_agrees ck (fill_phase ck q sq info tc w) w (to_poll ck q sq info tc)"
proof (cases "CircularQueue_is_full q")
  case True
  with room fill_phase_full show ?thesis by (simp add: to_poll_def)
next
  case False
  have h: "heap w = (\<lambda>_. True)" using w by (simp add: waits_on_def)
  show ?thesis
  proof (cases "\<exists>rest q1 sq1 rest1 pdu. in_file info = Some rest \<and>
      send_chunk ck True q sq (bufferSize info) rest = Inr (Some (q1, sq1, rest1, pdu))")
    case True
    then obtain rest q1 sq1 rest1 pdu where c: "in_file info = Some rest"
      "send_chunk ck True q sq (bufferSize info) rest = Inr (Some (q1, sq1, rest1, pdu))" by blast
    let ?i = "info\<lparr>in_file := Some rest1\<rparr>"
    let ?v = "w\<lparr>allocs := allocs w + 1, sent := sent w @ to_peer info [pdu]\<rparr>"
    have "srv_agrees ck (drain_phase ck q1 sq1 ?i ?v) ?v (Polls Drain q1 sq1 ?i, [])"
      by (rule drain) (use w in simp_all)
    then show ?thesis using False c
      by (simp add: fill_phase_step [OF False h] to_poll_def srv_agrees_def Let_def)
  next
    case none: False
    then show ?thesis using False
      by (auto simp: fill_phase_step [OF False h] to_poll_def Let_def
          split: option.splits sum.splits prod.splits)
  qed
qed

lemma drain_quiet_agrees:
  assumes "waits_on (childSocket info) w" "schedule w = Quiet # es"
    and fill: "srv_agrees ck (fill_phase ck q sq info 0 (w\<lparr>schedule := es\<rparr>)) (w\<lparr>schedule := es\<rparr>)
      (to_poll ck q sq info 0)"
  shows "srv_agrees ck (drain_phase ck q sq info w) w (Polls Drain q sq info, [])"
  using fill
  by (simp add: drain_phase_quiet [OF assms(1,2)] srv_agrees_def assms(2) srv_react_def Let_def
      split: prod.splits)

lemma room_quiet_agrees:
  assumes "waits_on (childSocket info) w" "schedule w = Quiet # es" "CircularQueue_is_full q"
    and again: "\<And>v. schedule v = es \<Longrightarrow> waits_on (childSocket info) v \<Longrightarrow>
      srv_agrees ck (room_phase ck q sq info (tc + 1) v) v (Polls (Room (tc + 1)) q sq info, [])"
  shows "srv_agrees ck (room_phase ck q sq info tc w) w (Polls (Room tc) q sq info, [])"
proof (cases "resend_oldest ck q")
  case (Inl f)
  then show ?thesis unfolding room_phase_quiet [OF assms(1-3)]
    by (simp add: srv_agrees_def assms(2) srv_react_def)
next
  case (Inr pdus)
  let ?v = "w\<lparr>schedule := es, sent := sent w @ to_peer info pdus\<rparr>"
  have "srv_agrees ck (room_phase ck q sq info (tc + 1) ?v) ?v (Polls (Room (tc + 1)) q sq info, [])"
    by (rule again) (use assms(1) in simp_all)
  then show ?thesis unfolding room_phase_quiet [OF assms(1-3)]
    by (simp add: srv_agrees_def assms(2) srv_react_def Inr Let_def split: prod.splits)
qed

lemma arrive_agrees:
  assumes "waits_on (childSocket info) w" "schedule w = Arrive d a # es" "7 \<le> length d"
    and drain: "\<And>q1 v. schedule v = es \<Longrightarrow> waits_on (childSocket info) v \<Longrightarrow>
      srv_agrees ck (drain_phase ck q1 sq (info\<lparr>clientAddr := a\<rparr>) v) v
        (Polls Drain q1 sq (info\<lparr>clientAddr := a\<rparr>), [])"
    and fill: "\<And>q1 v. schedule v = es \<Longrightarrow> waits_on (childSocket info) v \<Longrightarrow>
      srv_agrees ck (fill_phase ck q1 sq (info\<lparr>clientAddr := a\<rparr>) 0 v) v
        (to_poll ck q1 sq (info\<lparr>clientAddr := a\<rparr>) 0)"
  shows "srv_agrees ck (drain_phase ck q sq info w) w (Polls Drain q sq info, [])"
    "CircularQueue_is_full q \<Longrightarrow>
      srv_agrees ck (room_phase ck q sq info tc w) w (Polls (Room tc) q sq info, [])"
proof -
  let ?i = "info\<lparr>clientAddr := a\<rparr>" and ?r = "rbuf_of (take 7 d) (\<lambda>_. 0)"
  obtain v where v: "schedule v = es" "sent v = sent w" "waits_on (childSocket info) v" and
    D: "drain_phase ck q sq info w = (case handle_ack ck q ?r of
       Inl f \<Rightarrow> (Inl (Fault f), v)
     | Inr (q1, pdus) \<Rightarrow> drain_phase ck q1 sq ?i (v\<lparr>sent := sent v @ to_peer ?i pdus\<rparr>))" and
    R: "CircularQueue_is_full q \<longrightarrow> room_phase ck q sq info tc w = (case handle_ack ck q ?r of
       Inl f \<Rightarrow> (Inl (Fault f), v)
     | Inr (q1, pdus) \<Rightarrow> room_phase ck q1 sq ?i 0 (v\<lparr>sent := sent v @ to_peer ?i pdus\<rparr>))"
    by (rule phase_arrive [OF assms(1-3), of ck q sq tc])
  have next_world: "schedule (v\<lparr>sent := m\<rparr>) = es" "waits_on (childSocket info) (v\<lparr>sent := m\<rparr>)" for m
    using v by simp_all
  show "srv_agrees ck (drain_phase ck q sq info w) w (Polls Drain q sq info, [])"
    using D v(1,2) drain [OF next_world]
    by (auto simp: assms(2) srv_agrees_def srv_react_def Let_def split: sum.splits prod.splits)
  show "srv_agrees ck (room_phase ck q sq info tc w) w (Polls (Room tc) q sq info, [])"
    if "CircularQueue_is_full q"
    using R that v(1,2) fill [OF next_world]
    by (auto simp: assms(2) room_is_fill srv_agrees_def srv_react_def Let_def split: sum.splits prod.splits)
qed

lemma phases_agree:
  assumes "waits_on (childSocket info) w" "headers (schedule w)"
  shows "srv_agrees ck (drain_phase ck q sq info w) w (Polls Drain q sq info, []) \<and>
    (CircularQueue_is_full q \<longrightarrow>
      srv_agrees ck (room_phase ck q sq info tc w) w (Polls (Room tc) q sq info, []))"
  using assms
proof (induction "length (schedule w)" arbitrary: q sq info tc w rule: less_induct)
  case less
  note w = less.prems(1)
  have fill: "srv_agrees ck (fill_phase ck q sq i tc v) v (to_poll ck q sq i tc)"
    if "length (schedule v) < length (schedule w)" "waits_on (childSocket i) v" "headers (schedule v)"
    for q sq i tc v
    by (rule fill_agrees) (use that less.hyps in simp_all)
  show ?case
  proof (cases "schedule w")
    case Nil
    then show ?thesis by (auto simp: phase_blocked srv_agrees_def)
  next
    case (Cons e es)
    note sch = Cons
    show ?thesis
    proof (cases e)
      case Quiet
      have "srv_agrees ck (drain_phase ck q sq info w) w (Polls Drain q sq info, [])"
        by (rule drain_quiet_agrees [OF w sch [unfolded Quiet]], rule fill) (use less.prems sch Quiet in auto)
      moreover have "srv_agrees ck (room_phase ck q sq info tc w) w (Polls (Room tc) q sq info, [])"
        if full: "CircularQueue_is_full q"
        by (rule room_quiet_agrees [OF w sch [unfolded Quiet] full])
          (use less.hyps less.prems(2) sch Quiet full in simp)
      ultimately show ?thesis by blast
    next
      case RecvError
      obtain v where v: "sent v = sent w" "drain_phase ck q sq info w = (Inl (Exited (-1)), v)"
        "CircularQueue_is_full q \<longrightarrow> room_phase ck q sq info tc w = (Inl (Exited (-1)), v)"
        by (rule phase_error [OF w sch [unfolded RecvError], of ck q sq tc])
      then show ?thesis using sch RecvError by (auto simp: srv_agrees_def srv_react_def)
    next
      case (Arrive d a)
      have d: "7 \<le> length d" "headers es" using less.prems(2) sch Arrive by simp_all
      note agrees = arrive_agrees [OF w sch [unfolded Arrive] d(1), where ck = ck and q = q and sq = sq]
      show ?thesis
        by (intro conjI impI agrees) (use less.hyps fill d(2) sch in simp_all)
    qed
  qed
qed

lemma send_data_loop_machine:
  assumes "waits_on (childSocket info) w" "headers (schedule w)"
  shows "srv_agrees ck (send_data_loop ck q sq info tc w) w (to_poll ck q sq info tc)"
  unfolding send_data_loop_phase
  by (rule fill_agrees [OF assms(1)]) (use assms phases_agree in simp_all)

text \<open>The whole of \<open>send_data_state\<close>: the machine from its first poll, then the EOF packet.\<close>

definition srv_run :: "cksum \<Rightarrow> CircularQueue \<Rightarrow> ServerInfo \<Rightarrow> event list \<Rightarrow> srv \<times> datagrams" where
  "srv_run ck q info es =
     (case to_poll ck q 1 (info\<lparr>eofResendCount := 0\<rparr>) 0 of (c, out) \<Rightarrow>
        (case drive (srv_react ck) c es of (c', out') \<Rightarrow> (c', out @ out')))"

fun srv_end :: "cksum \<Rightarrow> srv \<Rightarrow> (stop + (server_state \<times> CircularQueue \<times> ServerInfo)) \<times> datagrams" where
  "srv_end ck (Polls _ _ _ _) = (Inl Blocked, [])"
| "srv_end ck (SrvStop s) = (Inl s, [])"
| "srv_end ck (Over gaveUp q sq info) =
     (if gaveUp then (Inr (DONE, q, info), [])
      else let eofPDU = pdu_of ck sq 10 []
           in (Inr (WAIT_ON_EOF_ACK, q, info\<lparr>eofPacket := eofPDU, eofLen := 7, eofSeq := sq\<rparr>),
               to_peer info [eofPDU]))"

lemma send_data_state_machine:
  assumes "waits_on (childSocket info) w" "headers (schedule w)" "srv_run ck q info (schedule w) = (c, out)"
  shows "fst (send_data_state ck q info w) = fst (srv_end ck c)"
    "sent (snd (send_data_state ck q info w)) = sent w @ out @ snd (srv_end ck c)"
proof -
  let ?i = "info\<lparr>eofResendCount := 0\<rparr>"
  obtain r w1 where l: "send_data_loop ck q 1 ?i 0 w = (r, w1)" by fastforce
  have "srv_agrees ck (r, w1) w (to_poll ck q 1 ?i 0)"
    using send_data_loop_machine [of ?i w ck q 1 0] assms(1,2) l by simp
  then have m: "r = srv_result c" "sent w1 = sent w @ out"
    using assms(3) by (auto simp: srv_agrees_def srv_run_def Let_def split: prod.splits)
  have "fst (send_data_state ck q info w) = fst (srv_end ck c) \<and>
    sent (snd (send_data_state ck q info w)) = sent w @ out @ snd (srv_end ck c)"
    using l m by (cases c) (auto simp: send_data_state_def sendtoErr_def to_peer_def Let_def)
  then show "fst (send_data_state ck q info w) = fst (srv_end ck c)"
    "sent (snd (send_data_state ck q info w)) = sent w @ out @ snd (srv_end ck c)" by simp_all
qed

text \<open>
  C9: \<open>send_data_state\<close>, with its three nested loops around \<open>poll\<close>, is equivalent to the event
  machine \<open>srv_react\<close>: over any schedule of timeouts, receive errors and datagrams of at least a
  header it ends as the machine does and hands the same datagrams to \<open>sendtoErr\<close>, in the same
  order and to the same addresses.
\<close>

theorem server_event_machine:
  assumes "waits_on (childSocket info) w" "headers (schedule w)"
  shows "case srv_run ck q info (schedule w) of (c, out) \<Rightarrow>
    fst (send_data_state ck q info w) = fst (srv_end ck c) \<and>
    sent (snd (send_data_state ck q info w)) = sent w @ out @ snd (srv_end ck c)"
  using send_data_state_machine [OF assms] by (auto split: prod.splits)

text \<open>A process whose socket 2 is the one polled.\<close>

definition polled_world :: world where
  "polled_world = snd (bnd setup_poll_set (\<lambda>_. add_to_poll_set 2) (start_world []))"

lemma polled_world_ok: "waits_on (childSocket small_session) polled_world"
proof -
  obtain ps n where r: "bnd setup_poll_set (\<lambda>_. bnd (add_to_poll_set 2) ret) (start_world []) =
      ret () ((start_world [])\<lparr>allocs := n, pset := ps\<rparr>)" "single 2 ps" "maxFileDescriptor ps = 2 + 1"
    by (rule setup_poll_ready [of "start_world []" 2 ret]) (simp_all add: start_world_def initial_pollset_def)
  have "bnd (add_to_poll_set 2) ret = add_to_poll_set 2"
    by (rule ext) (simp add: bnd_def ret_def split: prod.splits sum.splits)
  with r(1) have pw: "polled_world = (start_world [])\<lparr>allocs := n, pset := ps\<rparr>"
    by (simp add: polled_world_def)
  show ?thesis unfolding pw using r(2,3)
    by (simp add: waits_on_def small_session_def start_world_def is_open_def)
qed

theorem server_event_machine_witness:
  "\<exists>q' info'. fst (send_data_state (\<lambda>_. 0) (fresh_queue 1) small_session
     (polled_world\<lparr>schedule := [Quiet, Arrive (pdu_of (\<lambda>_. 0) 2 5 []) 9, Quiet, Quiet,
        Arrive (pdu_of (\<lambda>_. 0) 3 5 []) 9]\<rparr>)) = Inr (WAIT_ON_EOF_ACK, q', info')"
proof -
  let ?es = "[Quiet, Arrive (pdu_of (\<lambda>_. 0) 2 5 []) 9, Quiet, Quiet, Arrive (pdu_of (\<lambda>_. 0) 3 5 []) 9]"
  have "(case srv_run (\<lambda>_. 0) (fresh_queue 1) small_session ?es of (Over False _ _ _, _) \<Rightarrow> True | _ \<Rightarrow> False)"
    by code_simp
  moreover have "case srv_run (\<lambda>_. 0) (fresh_queue 1) small_session (schedule (polled_world\<lparr>schedule := ?es\<rparr>)) of (c, out) \<Rightarrow>
    fst (send_data_state (\<lambda>_. 0) (fresh_queue 1) small_session (polled_world\<lparr>schedule := ?es\<rparr>)) = fst (srv_end (\<lambda>_. 0) c) \<and>
    sent (snd (send_data_state (\<lambda>_. 0) (fresh_queue 1) small_session (polled_world\<lparr>schedule := ?es\<rparr>))) =
      sent (polled_world\<lparr>schedule := ?es\<rparr>) @ out @ snd (srv_end (\<lambda>_. 0) c)"
    by (rule server_event_machine) (simp_all add: polled_world_ok)
  ultimately show ?thesis by (auto simp: Let_def split: prod.splits srv.splits bool.splits)
qed

subsection \<open>The machine of the client's receive loop\<close>

datatype cli =
    Receives TRANSFER_STATE ReceiveInfo
  | Returned ReceiveInfo
  | CliStop stop

definition to_server_of :: "ReceiveInfo \<Rightarrow> byte list list \<Rightarrow> datagrams" where
  "to_server_of info pdus = map (\<lambda>p. (socketNum info, p, serverAddr info)) pdus"

definition cli_react :: "cksum \<Rightarrow> cli \<Rightarrow> event \<Rightarrow> cli \<times> datagrams" where
  "cli_react ck c e =
     (case c of
        Receives st info \<Rightarrow>
          (case e of
             Quiet \<Rightarrow> (c, [])
           | RecvError \<Rightarrow> (CliStop (Exited (-1)), [])
           | Arrive d a \<Rightarrow>
               (let p = take (MAXBUF + 7) d
                in case transfer_packet ck st (info\<lparr>serverAddr := a\<rparr>) (rbuf_of p (\<lambda>_. 0)) (int (length p)) of
                     Inl f \<Rightarrow> (CliStop (Fault f), [])
                   | Inr (More st1 info1 pdus) \<Rightarrow> (Receives st1 info1, to_server_of info1 pdus)
                   | Inr (Finished info1 pdus) \<Rightarrow> (Returned info1, to_server_of info1 pdus)))
      | _ \<Rightarrow> (c, []))"

lemma cli_drive_stuck [simp]:
  "drive (cli_react ck) (Returned info) es = (Returned info, [])"
  "drive (cli_react ck) (CliStop s) es = (CliStop s, [])"
  by (rule drive_stuck, simp add: cli_react_def)+

fun cli_result :: "cli \<Rightarrow> stop + ReceiveInfo" where
  "cli_result (Receives _ _) = Inl Blocked"
| "cli_result (Returned info) = Inr info"
| "cli_result (CliStop s) = Inl s"

definition cli_agrees :: "cksum \<Rightarrow> (stop + ReceiveInfo) \<times> world \<Rightarrow> world \<Rightarrow> cli \<Rightarrow> bool" where
  "cli_agrees ck res w c \<longleftrightarrow>
     (let d = drive (cli_react ck) c (schedule w)
      in fst res = cli_result (fst d) \<and> sent (snd res) = sent w @ snd d)"

lemma cli_skip_quiet:
  "drive (cli_react ck) (Receives st info) es =
   drive (cli_react ck) (Receives st info) (dropWhile (\<lambda>e. e = Quiet) es)"
  by (induction es) (auto simp: cli_react_def split: prod.splits)

lemma cli_arrive_agrees:
  assumes "is_open w (socketNum info)" "dropWhile (\<lambda>e. e = Quiet) (schedule w) = Arrive d a # es" "7 \<le> length d"
    and more: "\<And>st1 info1 v. schedule v = es \<Longrightarrow> is_open v (socketNum info1) \<Longrightarrow>
      cli_agrees ck (process_transfer_loop ck st1 info1 v) v (Receives st1 info1)"
  shows "cli_agrees ck (process_transfer_loop ck st info w) w (Receives st info)"
proof -
  let ?v = "w\<lparr>schedule := es\<rparr>" and ?p = "take (MAXBUF + 7) d" and ?i = "info\<lparr>serverAddr := a\<rparr>"
  let ?jk = "junk w (length (schedule w))"
  have rc: "safeRecvfrom (socketNum info) (MAXBUF + 7) w = (Inr (rbuf_of ?p ?jk, int (length ?p), a), ?v)"
    using assms(1,2) by (simp add: safeRecvfrom_def recvfrom_def bnd_def Let_def)
  have tp: "transfer_packet ck st ?i (rbuf_of ?p ?jk) (int (length ?p)) =
    transfer_packet ck st ?i (rbuf_of ?p (\<lambda>_. 0)) (int (length ?p))"
    by (rule transfer_packet_junk) (use assms(3) in \<open>simp add: MAXBUF_def\<close>)
  note skip = cli_skip_quiet [of ck st info "schedule w", unfolded assms(2)]
  show ?thesis
  proof (cases "transfer_packet ck st ?i (rbuf_of ?p ?jk) (int (length ?p))")
    case (Inl f)
    then show ?thesis using loop_fault [OF rc Inl] Inl [unfolded tp]
      by (simp add: cli_agrees_def skip cli_react_def Let_def)
  next
    case t: (Inr t)
    show ?thesis
    proof (cases t)
      case (Finished info1 pdus)
      note tj = t [unfolded Finished]
      show ?thesis using loop_finished [OF rc tj] loop_sends [OF rc tj] tj [unfolded tp]
        by (simp add: cli_agrees_def skip cli_react_def to_server_of_def Let_def)
    next
      case (More st1 info1 pdus)
      note tj = t [unfolded More]
      let ?v1 = "?v\<lparr>sent := sent w @ to_server_of info1 pdus\<rparr>"
      have "cli_agrees ck (process_transfer_loop ck st1 info1 ?v1) ?v1 (Receives st1 info1)"
        by (rule more) (use transfer_packet_more [OF tj] assms(1) in \<open>simp_all add: is_open_def\<close>)
      moreover have "process_transfer_loop ck st info w = process_transfer_loop ck st1 info1 ?v1"
        using loop_more [OF rc tj] by (simp add: to_server_of_def)
      ultimately show ?thesis using tj [unfolded tp]
        by (simp add: cli_agrees_def skip cli_react_def Let_def split: prod.splits)
    qed
  qed
qed

lemma process_transfer_loop_machine:
  assumes "is_open w (socketNum info)" "headers (schedule w)"
  shows "cli_agrees ck (process_transfer_loop ck st info w) w (Receives st info)"
  using assms
proof (induction "length (schedule w)" arbitrary: st info w rule: less_induct)
  case less
  let ?sch = "dropWhile (\<lambda>e. e = Quiet) (schedule w)"
  note loop = process_transfer_loop.simps [of ck st info w]
  have head: "?sch = e # es \<Longrightarrow> e \<noteq> Quiet" for e es using hd_dropWhile [of "\<lambda>e. e = Quiet" "schedule w"] by auto
  have hdr: "headers ?sch" using less.prems(2) by (auto simp: headers_def dest: set_dropWhileD)
  show ?case
  proof (cases ?sch)
    case Nil
    then have "safeRecvfrom (socketNum info) (MAXBUF + 7) w = (Inl Blocked, w\<lparr>schedule := []\<rparr>)"
      using less.prems(1) by (simp add: safeRecvfrom_def recvfrom_def bnd_def Let_def del: dropWhile_eq_Nil_conv)
    then show ?thesis
      by (simp add: cli_agrees_def cli_skip_quiet [of ck st info "schedule w", unfolded Nil] loop)
  next
    case (Cons e es)
    let ?v = "w\<lparr>schedule := es\<rparr>"
    show ?thesis
    proof (cases e)
      case Quiet
      with head Cons show ?thesis by simp
    next
      case RecvError
      then have "safeRecvfrom (socketNum info) (MAXBUF + 7) w = (Inl (Exited (-1)), ?v)"
        using less.prems(1) Cons by (simp add: safeRecvfrom_def recvfrom_def bnd_def Let_def)
      with Cons RecvError show ?thesis
        by (simp add: cli_agrees_def cli_skip_quiet [of ck st info "schedule w"] cli_react_def loop)
    next
      case (Arrive d a)
      have d: "7 \<le> length d" "headers es" using hdr Cons Arrive by simp_all
      have "length es < length (schedule w)"
        using Cons length_dropWhile_le [of "\<lambda>e. e = Quiet" "schedule w"] by simp
      then show ?thesis
        by (intro cli_arrive_agrees [OF less.prems(1) Cons [unfolded Arrive] d(1)] less.hyps) (use d(2) in simp_all)
    qed
  qed
qed

end
