(* ===== verification/Composition.thy ===== *)
theory Composition
  imports Machines
begin

text \<open>
  The two real loops against each other.  A network is an interleaving of what arrives at the
  server's child and at the client; it is causal when every datagram it delivers was sent
  before by the program on the other side, over what that program had seen until then.  It
  may lose, duplicate, delay and reorder.  Over any causal network \<open>send_data_state\<close> and
  \<open>process_transfer_state\<close> move together as a run of \<open>proto_step\<close>, so what \<open>Protocol\<close> says
  of its runs holds of the two programs.
\<close>

subsection \<open>Networks\<close>

datatype delivery = ToServer event | ToClient event

fun srv_events :: "delivery list \<Rightarrow> event list" where
  "srv_events [] = []"
| "srv_events (ToServer e # ds) = e # srv_events ds"
| "srv_events (ToClient e # ds) = srv_events ds"

fun cli_events :: "delivery list \<Rightarrow> event list" where
  "cli_events [] = []"
| "cli_events (ToServer e # ds) = cli_events ds"
| "cli_events (ToClient e # ds) = e # cli_events ds"

lemma events_append [simp]:
  "srv_events (ds @ ds') = srv_events ds @ srv_events ds'"
  "cli_events (ds @ ds') = cli_events ds @ cli_events ds'"
  by (induction ds rule: srv_events.induct) simp_all

text \<open>The datagrams a program hands to \<open>sendtoErr\<close> in a world with the given schedule.\<close>

definition sends :: "'a prog \<Rightarrow> world \<Rightarrow> event list \<Rightarrow> byte list set" where
  "sends P w es = (fst \<circ> snd) ` set (drop (length (sent w)) (sent (snd (P (w\<lparr>schedule := es\<rparr>)))))"

definition delivers :: "(event list \<Rightarrow> byte list set) \<Rightarrow> (event list \<Rightarrow> byte list set) \<Rightarrow> delivery list \<Rightarrow> delivery \<Rightarrow> bool" where
  "delivers server client ds d \<longleftrightarrow> (case d of
     ToServer (Arrive p _) \<Rightarrow> p \<in> client (cli_events ds)
   | ToClient (Arrive p _) \<Rightarrow> p \<in> server (srv_events ds)
   | _ \<Rightarrow> True)"

definition causal :: "(event list \<Rightarrow> byte list set) \<Rightarrow> (event list \<Rightarrow> byte list set) \<Rightarrow> delivery list \<Rightarrow> bool" where
  "causal server client ds \<longleftrightarrow> (\<forall>i < length ds. delivers server client (take i ds) (ds ! i))"

lemma causal_Nil [simp]: "causal server client []"
  by (simp add: causal_def)

lemma causal_snoc:
  "causal server client (ds @ [d]) \<longleftrightarrow> causal server client ds \<and> delivers server client ds d"
  by (auto simp: causal_def nth_append less_Suc_eq)

subsection \<open>The server's machine and the step relation\<close>

definition datas :: "datagrams \<Rightarrow> byte list list" where
  "datas out = map (fst \<circ> snd) out"

lemma datas_simps [simp]:
  "datas [] = []" "datas (out @ out') = datas out @ datas out'" "datas (to_peer info pdus) = pdus"
  "datas (to_server_of ri pdus) = pdus"
  by (simp_all add: datas_def to_peer_def to_server_of_def comp_def)

text \<open>The server's side of a state is the configuration of its machine.\<close>

definition filling :: "u16 \<Rightarrow> CircularQueue \<Rightarrow> u32 \<Rightarrow> ServerInfo \<Rightarrow> proto \<Rightarrow> bool" where
  "filling b q sq info s \<longleftrightarrow> \<not> ended s \<and> win s = q \<and> next_seq s = sq \<and> in_file info = Some (unread s) \<and>
     bufferSize info = b"

fun srv_matches :: "cksum \<Rightarrow> u16 \<Rightarrow> srv \<Rightarrow> proto \<Rightarrow> bool" where
  "srv_matches ck b (Polls wt q sq info) s \<longleftrightarrow>
     filling b q sq info s \<and> (wt \<noteq> Drain \<longrightarrow> CircularQueue_is_full q)"
| "srv_matches ck b (Over gaveUp q sq info) s \<longleftrightarrow> (gaveUp \<or> pdu_of ck sq 10 [] \<in> set (to_client s))"
| "srv_matches ck b (SrvStop x) s \<longleftrightarrow> (\<forall>f. x = Fault f \<longrightarrow> f = NullPointer)"

text \<open>A run of the relation by server moves only, that sends at least the given datagrams.\<close>

definition srv_path :: "cksum \<Rightarrow> u16 \<Rightarrow> proto \<Rightarrow> byte list list \<Rightarrow> proto \<Rightarrow> bool" where
  "srv_path ck b s ps t \<longleftrightarrow> (\<forall>s0. proto_reach ck b s0 s \<longrightarrow> proto_reach ck b s0 t) \<and>
     rinfo t = rinfo s \<and> rstate t = rstate s \<and> finished t = finished s \<and> to_server t = to_server s \<and>
     set (to_client t) = set ps \<union> set (to_client s)"

lemma srv_path_refl: "srv_path ck b s [] s"
  by (simp add: srv_path_def)

lemma srv_path_trans: "srv_path ck b s ps t \<Longrightarrow> srv_path ck b t ps' u \<Longrightarrow> srv_path ck b s (ps @ ps') u"
  by (auto simp: srv_path_def)

lemma srv_path_step:
  "proto_step ck b s t \<Longrightarrow> rinfo t = rinfo s \<Longrightarrow> rstate t = rstate s \<Longrightarrow> finished t = finished s \<Longrightarrow>
   to_server t = to_server s \<Longrightarrow> set (to_client t) = set ps \<union> set (to_client s) \<Longrightarrow> srv_path ck b s ps t"
  by (auto simp: srv_path_def intro: proto_reach.step)

text \<open>The datagrams of a machine that has ended include its EOF packet.\<close>

abbreviation final :: "cksum \<Rightarrow> srv \<Rightarrow> byte list list" where
  "final ck c \<equiv> datas (snd (srv_end ck c))"

text \<open>Under the invariant of the relation the server's turns cannot fault, but for one read.\<close>

lemma turns_safe:
  assumes inv: "num_inv ck b f cap lo s" and b: "0 < unat b" "unat b \<le> MAXBUF" "length f + 3 < 2 ^ 32"
  shows "\<not> CircularQueue_is_full (win s) \<Longrightarrow>
      send_chunk ck True (win s) (next_seq s) b (unread s) \<noteq> Inl x"
    "resend_oldest ck (win s) \<noteq> Inl x"
    "handle_ack ck (win s) r = Inl x \<Longrightarrow> x = NullPointer"
proof -
  note D = srv_sideD [OF num_invD(1) [OF inv]]
  let ?n = "unat (next_seq s)"
  show "send_chunk ck True (win s) (next_seq s) b (unread s) \<noteq> Inl x" if room: "\<not> CircularQueue_is_full (win s)"
  proof (cases "unread s = []")
    case True
    then show ?thesis by (simp add: send_chunk_end)
  next
    case False
    have w: "(word_of_nat ?n :: u32) = next_seq s" by simp
    have n: "?n + 1 < 2 ^ 32" using D(3) b(3) by linarith
    have ch: "take (unat b) (unread s) = file_chunk (unat b) f ?n" by (simp add: D(2) file_chunk_def)
    from send_chunk_window [OF D(1) room n b(1,2) False ch] show ?thesis unfolding w by auto
  qed
  show "resend_oldest ck (win s) \<noteq> Inl x"
  proof (cases "lo < ?n")
    case True
    with resend_oldest_window [OF D(1)] show ?thesis by auto
  next
    case False
    then have "lo = ?n" using snd_windowD(3) [OF D(1)] by simp
    with D(1) resend_oldest_empty [of ck _ lo "win s"] show ?thesis by auto
  qed
  show "x = NullPointer" if "handle_ack ck (win s) r = Inl x"
    by (rule ack_outcomes [OF D(1), of r]) (use that in auto)
qed

lemma to_poll_path:
  assumes "filling b q sq info s" "to_poll ck q sq info tc = (c, out)"
    and inv: "num_inv ck b f cap lo s" and b: "0 < unat b" "unat b \<le> MAXBUF" "length f + 3 < 2 ^ 32"
  shows "\<exists>t. srv_path ck b s (datas out @ final ck c) t \<and> srv_matches ck b c t"
proof (cases "CircularQueue_is_full q")
  case True
  with assms srv_path_refl [of ck b s] show ?thesis by (intro exI [of _ s]) (auto simp: to_poll_def)
next
  case room: False
  from assms(1) have s: "\<not> ended s" "win s = q" "next_seq s = sq" "in_file info = Some (unread s)"
    "bufferSize info = b" by (auto simp: filling_def)
  show ?thesis
  proof (cases "send_chunk ck True q sq b (unread s)")
    case (Inl f')
    with turns_safe(1) [OF inv b, of f'] room s show ?thesis by simp
  next
    case (Inr r)
    show ?thesis
    proof (cases r)
      case None
      let ?pdu = "pdu_of ck sq 10 []"
      let ?t = "s\<lparr>ended := True, to_client := ?pdu # to_client s\<rparr>"
      have "proto_step ck b s ?t"
        by (rule proto_step.eof) (use s room Inr None in simp_all)
      then have "srv_path ck b s [?pdu] ?t" by (rule srv_path_step) simp_all
      moreover have "c = Over False q sq info" "out = []"
        using assms(2) room s Inr None by (auto simp: to_poll_def)
      ultimately show ?thesis by (intro exI [of _ ?t]) (simp add: Let_def)
    next
      case (Some x)
      obtain q1 sq1 rest1 pdu where x: "x = (q1, sq1, rest1, pdu)" by (cases x)
      let ?t = "s\<lparr>win := q1, next_seq := sq1, unread := rest1, to_client := pdu # to_client s\<rparr>"
      have "proto_step ck b s ?t"
        by (rule proto_step.fill) (use s room Inr Some x in simp_all)
      then have "srv_path ck b s [pdu] ?t" by (rule srv_path_step) simp_all
      moreover have "c = Polls Drain q1 sq1 (info\<lparr>in_file := Some rest1\<rparr>)" "out = to_peer info [pdu]"
        using assms(2) room s Inr Some x by (auto simp: to_poll_def)
      ultimately show ?thesis using s by (intro exI [of _ ?t]) (simp add: filling_def)
    qed
  qed
qed

lemma handle_ack_header:
  assumes "7 \<le> length d"
  shows "handle_ack ck q (rbuf_of (take 7 d) jk) = handle_ack ck q (rbuf_of d jk)"
proof -
  have "hdr_flag (rbuf_of (take 7 d) jk) = hdr_flag (rbuf_of d jk)"
    "hdr_seq (rbuf_of (take 7 d) jk) = hdr_seq (rbuf_of d jk)"
    using assms by (auto simp: hdr_flag_def hdr_seq_def rbuf_of_def)
  then show ?thesis by (simp add: handle_ack_def)
qed

lemma srv_timeout_path:
  assumes fill: "filling b q sq info s" and full: "CircularQueue_is_full q"
    and r: "srv_react ck (Polls (Room tc) q sq info) Quiet = (c', out)"
    and inv: "num_inv ck b f cap lo s" and b: "0 < unat b" "unat b \<le> MAXBUF" "length f + 3 < 2 ^ 32"
  shows "\<exists>t. srv_path ck b s (datas out @ final ck c') t \<and> srv_matches ck b c' t"
proof (cases "resend_oldest ck q")
  case (Inl f')
  with turns_safe(2) [OF inv b, of f'] fill show ?thesis by (simp add: filling_def)
next
  case (Inr pdus)
  let ?t = "s\<lparr>to_client := pdus @ to_client s\<rparr>"
  have "proto_step ck b s ?t"
    by (rule proto_step.timeout) (use fill full Inr in \<open>simp_all add: filling_def\<close>)
  then have "srv_path ck b s pdus ?t" by (rule srv_path_step) simp_all
  with r Inr fill full show ?thesis
    by (intro exI [of _ ?t]) (auto simp: srv_react_def filling_def split: if_splits)
qed

lemma srv_arrive_path:
  assumes fill: "filling b q sq info s" and r: "srv_react ck (Polls wt q sq info) (Arrive d a) = (c', out)"
    and inv: "num_inv ck b f cap lo s" and b: "0 < unat b" "unat b \<le> MAXBUF" "length f + 3 < 2 ^ 32"
    and d: "d \<in> set (to_server s)" "7 \<le> length d"
  shows "\<exists>t. srv_path ck b s (datas out @ final ck c') t \<and> srv_matches ck b c' t"
proof (cases "handle_ack ck q (rbuf_of d (\<lambda>_. 0))")
  case (Inl f')
  moreover have "f' = NullPointer"
    using turns_safe(3) [OF inv b, of "rbuf_of d (\<lambda>_. 0)"] fill Inl by (simp add: filling_def)
  ultimately show ?thesis using r d
    by (auto simp: srv_react_def handle_ack_header intro!: exI [of _ s] srv_path_refl)
next
  case (Inr x)
  obtain q1 pdus where x: "x = (q1, pdus)" by (cases x)
  let ?t = "s\<lparr>win := q1, to_client := pdus @ to_client s\<rparr>" and ?i = "info\<lparr>clientAddr := a\<rparr>"
  have step: "proto_step ck b s ?t"
    by (rule proto_step.ack) (use fill d Inr x in \<open>simp_all add: filling_def\<close>)
  then have p: "srv_path ck b s pdus ?t" by (rule srv_path_step) simp_all
  have fill1: "filling b q1 sq ?i ?t" using fill by (simp add: filling_def)
  show ?thesis
  proof (cases wt)
    case Drain
    with r d Inr x p fill1 show ?thesis
      by (intro exI [of _ ?t]) (auto simp: srv_react_def handle_ack_header Let_def)
  next
    case (Room tc)
    obtain c1 out1 where c1: "to_poll ck q1 sq ?i 0 = (c1, out1)" by fastforce
    with r d Inr x Room have "c' = c1" "out = to_peer ?i pdus @ out1"
      by (auto simp: srv_react_def handle_ack_header Let_def)
    moreover obtain lo' where inv1: "num_inv ck b f cap lo' ?t"
      using num_inv_step [OF step inv b(3,1,2)] by blast
    moreover obtain t where "srv_path ck b ?t (datas out1 @ final ck c1) t" "srv_matches ck b c1 t"
      using to_poll_path [OF fill1 c1 inv1 b] by blast
    ultimately show ?thesis using srv_path_trans [OF p] by auto
  qed
qed

lemma srv_react_path:
  assumes m: "srv_matches ck b c s" and r: "srv_react ck c e = (c', out)"
    and inv: "num_inv ck b f cap lo s" and b: "0 < unat b" "unat b \<le> MAXBUF" "length f + 3 < 2 ^ 32"
    and e: "\<forall>d a. e = Arrive d a \<longrightarrow> d \<in> set (to_server s) \<and> 7 \<le> length d"
  shows "\<exists>t. srv_path ck b s (datas out @ final ck c') t \<and> srv_matches ck b c' t"
proof (cases c)
  case (Over g q sq info)
  with m r show ?thesis
    by (cases g) (auto intro!: exI [of _ s] simp: srv_path_def Let_def)
next
  case (SrvStop x)
  with m r show ?thesis by (auto intro!: exI [of _ s] srv_path_refl)
next
  case (Polls wt q sq info)
  with m have fill: "filling b q sq info s" and full: "wt \<noteq> Drain \<Longrightarrow> CircularQueue_is_full q" by simp_all
  show ?thesis
  proof (cases e)
    case RecvError
    with r Polls show ?thesis by (auto simp: srv_react_def intro!: exI [of _ s] srv_path_refl)
  next
    case Quiet
    show ?thesis
    proof (cases wt)
      case Drain
      with r Polls Quiet to_poll_path [OF fill _ inv b] show ?thesis by (simp add: srv_react_def)
    next
      case (Room tc)
      with r Polls Quiet full show ?thesis
        by (intro srv_timeout_path [OF fill _ _ inv b, where tc = tc]) simp_all
    qed
  next
    case (Arrive d a)
    with r Polls e show ?thesis
      by (intro srv_arrive_path [OF fill _ inv b, where wt = wt and d = d and a = a]) simp_all
  qed
qed

subsection \<open>The client's machine and the step relation\<close>

fun cli_matches :: "cli \<Rightarrow> proto \<Rightarrow> bool" where
  "cli_matches (Receives st info) s \<longleftrightarrow> \<not> finished s \<and> rinfo s = abs_rcv info \<and> rstate s = st"
| "cli_matches (Returned info) s \<longleftrightarrow> finished s \<and> rinfo s = abs_rcv info"
| "cli_matches (CliStop x) s \<longleftrightarrow> (\<forall>f. x \<noteq> Fault f)"

lemma cli_react_step:
  assumes inv: "num_inv ck b f cap lo s" and m: "cli_matches c s" and r: "cli_react ck c e = (c', out)"
    and e: "\<forall>p a. e = Arrive p a \<longrightarrow> p \<in> set (to_client s) \<and> length p \<le> MAXBUF + 7"
  shows "\<exists>t. (s = t \<or> proto_step ck b s t) \<and> cli_matches c' t \<and> to_client t = to_client s \<and>
    win t = win s \<and> next_seq t = next_seq s \<and> unread t = unread s \<and> ended t = ended s \<and>
    set (to_server t) = set (datas out) \<union> set (to_server s)"
proof (cases c)
  case (Receives st info)
  with m have s: "\<not> finished s" "rinfo s = abs_rcv info" "rstate s = st" by simp_all
  show ?thesis
  proof (cases e)
    case (Arrive p a)
    with e have p: "p \<in> set (to_client s)" "length p \<le> MAXBUF + 7" by blast+
    let ?i = "info\<lparr>serverAddr := a\<rparr>"
    have abs: "transfer_packet ck (rstate s) (rinfo s) (rbuf_of p (\<lambda>_. 0)) (int (length p)) =
      map_sum id abs_turn (transfer_packet ck st ?i (rbuf_of p (\<lambda>_. 0)) (int (length p)))"
      using transfer_packet_abs [of ck st ?i] s(2,3) by (simp add: abs_rcv_update)
    from num_inv_receive [OF inv p(1), of "\<lambda>_. 0"] obtain t where
      t: "transfer_packet ck st ?i (rbuf_of p (\<lambda>_. 0)) (int (length p)) = Inr t"
      unfolding abs by (cases "transfer_packet ck st ?i (rbuf_of p (\<lambda>_. 0)) (int (length p))") auto
    show ?thesis
    proof (cases t)
      case (More st1 info1 pdus)
      let ?t = "s\<lparr>rstate := st1, rinfo := abs_rcv info1, to_server := pdus @ to_server s\<rparr>"
      have "proto_step ck b s ?t"
        by (rule proto_step.deliver [of s p ck "\<lambda>_. 0"]) (use s(1) p abs t More in simp_all)
      with r Receives Arrive p t More s(1) show ?thesis
        by (intro exI [of _ ?t]) (auto simp: cli_react_def Let_def)
    next
      case (Finished info1 pdus)
      let ?t = "s\<lparr>finished := True, rinfo := abs_rcv info1, to_server := pdus @ to_server s\<rparr>"
      have "proto_step ck b s ?t"
        by (rule proto_step.finish [of s p ck "\<lambda>_. 0"]) (use s(1) p abs t Finished in simp_all)
      with r Receives Arrive p t Finished show ?thesis
        by (intro exI [of _ ?t]) (auto simp: cli_react_def Let_def)
    qed
  qed (use m r Receives in \<open>auto simp: cli_react_def\<close>)
qed (use m r in \<open>auto simp: cli_react_def\<close>)

subsection \<open>Both together\<close>

text \<open>
  \<open>joint ds s\<close>: after the deliveries \<open>ds\<close> the two machines are in the configurations that \<open>s\<close>
  describes, and \<open>s\<close> has everything they have sent.
\<close>

definition joint ::
    "cksum \<Rightarrow> u16 \<Rightarrow> int \<Rightarrow> int \<Rightarrow> byte list \<Rightarrow> ServerInfo \<Rightarrow> ReceiveInfo \<Rightarrow> delivery list \<Rightarrow> proto \<Rightarrow> bool" where
  "joint ck b ws wc f sinfo cinfo ds s \<longleftrightarrow> proto_reach ck b (proto_start ws wc f) s \<and>
     headers (srv_events ds) \<and> headers (cli_events ds) \<and>
     (\<exists>c out. srv_run ck (fresh_queue ws) sinfo (srv_events ds) = (c, out) \<and> srv_matches ck b c s \<and>
        set (datas out @ final ck c) \<subseteq> set (to_client s)) \<and>
     (\<exists>c out. drive (cli_react ck) (Receives IN_ORDER cinfo) (cli_events ds) = (c, out) \<and> cli_matches c s \<and>
        set (datas out) \<subseteq> set (to_server s))"

lemma srv_run_snoc:
  "srv_run ck q info es = (c, out) \<Longrightarrow> srv_react ck c e = (c', out') \<Longrightarrow>
   srv_run ck q info (es @ [e]) = (c', out @ out')"
  by (auto simp: srv_run_def drive_append split: prod.splits)

lemma drive_snoc:
  "drive react c0 es = (c, out) \<Longrightarrow> react c e = (c', out') \<Longrightarrow>
   drive react c0 (es @ [e]) = (c', out @ out')"
  by (simp add: drive_append)

lemma joint_start:
  assumes "in_file sinfo = Some f" "bufferSize sinfo = b" "abs_rcv cinfo = fresh_receiver wc 0 0"
    and inv: "num_inv ck b f cap lo (proto_start ws wc f)"
    and b: "0 < unat b" "unat b \<le> MAXBUF" "length f + 3 < 2 ^ 32"
  shows "\<exists>s. joint ck b ws wc f sinfo cinfo [] s"
proof -
  let ?s = "proto_start ws wc f" and ?i = "sinfo\<lparr>eofResendCount := 0\<rparr>"
  obtain c out where c: "to_poll ck (fresh_queue ws) 1 ?i 0 = (c, out)" by fastforce
  have "filling b (fresh_queue ws) 1 ?i ?s"
    using assms(1,2) by (simp add: filling_def proto_start_def fresh_queue_def empty_queue_def)
  from to_poll_path [OF this c inv b] obtain t where
    t: "srv_path ck b ?s (datas out @ final ck c) t" "srv_matches ck b c t" by blast
  with c assms(3) show ?thesis
    by (intro exI [of _ t]) (auto simp: joint_def srv_run_def srv_path_def intro: proto_reach.start)
qed

lemma joint_server:
  assumes j: "joint ck b ws wc f sinfo cinfo ds s" and inv: "num_inv ck b f cap lo s"
    and b: "0 < unat b" "unat b \<le> MAXBUF" "length f + 3 < 2 ^ 32"
    and e: "\<And>d a. e = Arrive d a \<Longrightarrow> d \<in> set (to_server s)"
  shows "\<exists>t. joint ck b ws wc f sinfo cinfo (ds @ [ToServer e]) t"
proof -
  from j obtain c out cc cout where s: "proto_reach ck b (proto_start ws wc f) s"
    "headers (srv_events ds)" "headers (cli_events ds)"
    "srv_run ck (fresh_queue ws) sinfo (srv_events ds) = (c, out)" "srv_matches ck b c s"
    "set (datas out @ final ck c) \<subseteq> set (to_client s)"
    "drive (cli_react ck) (Receives IN_ORDER cinfo) (cli_events ds) = (cc, cout)" "cli_matches cc s"
    "set (datas cout) \<subseteq> set (to_server s)" unfolding joint_def by blast
  have d: "\<forall>d a. e = Arrive d a \<longrightarrow> d \<in> set (to_server s) \<and> 7 \<le> length d"
    using e in_flight_lengths(2) [OF inv] by blast
  obtain c' out' where r: "srv_react ck c e = (c', out')" by fastforce
  from srv_react_path [OF s(5) r inv b d] obtain t where
    t: "srv_path ck b s (datas out' @ final ck c') t" "srv_matches ck b c' t" by blast
  have "cli_matches cc t" using s(8) t(1) by (cases cc) (auto simp: srv_path_def)
  moreover have "headers (srv_events (ds @ [ToServer e]))" using s(2) d by (cases e) auto
  ultimately show ?thesis
    using s t srv_run_snoc [OF s(4) r] by (intro exI [of _ t]) (auto simp: joint_def srv_path_def)
qed

lemma joint_client:
  assumes j: "joint ck b ws wc f sinfo cinfo ds s" and inv: "num_inv ck b f cap lo s"
    and e: "\<And>d a. e = Arrive d a \<Longrightarrow> d \<in> set (to_client s)"
  shows "\<exists>t. joint ck b ws wc f sinfo cinfo (ds @ [ToClient e]) t"
proof -
  from j obtain c out cc cout where s: "proto_reach ck b (proto_start ws wc f) s"
    "headers (srv_events ds)" "headers (cli_events ds)"
    "srv_run ck (fresh_queue ws) sinfo (srv_events ds) = (c, out)" "srv_matches ck b c s"
    "set (datas out @ final ck c) \<subseteq> set (to_client s)"
    "drive (cli_react ck) (Receives IN_ORDER cinfo) (cli_events ds) = (cc, cout)" "cli_matches cc s"
    "set (datas cout) \<subseteq> set (to_server s)" unfolding joint_def by blast
  have d: "\<forall>p a. e = Arrive p a \<longrightarrow> p \<in> set (to_client s) \<and> 7 \<le> length p \<and> length p \<le> MAXBUF + 7"
    using e in_flight_lengths(1) [OF inv] by blast
  obtain c' out' where r: "cli_react ck cc e = (c', out')" by fastforce
  have "\<forall>p a. e = Arrive p a \<longrightarrow> p \<in> set (to_client s) \<and> length p \<le> MAXBUF + 7" using d by blast
  from cli_react_step [OF inv s(8) r this] obtain t where
    t: "s = t \<or> proto_step ck b s t" "cli_matches c' t" "to_client t = to_client s"
      "win t = win s" "next_seq t = next_seq s" "unread t = unread s" "ended t = ended s"
      "set (to_server t) = set (datas out') \<union> set (to_server s)" by blast
  have "proto_reach ck b (proto_start ws wc f) t" using s(1) t(1) by (auto intro: proto_reach.step)
  moreover have "srv_matches ck b c t" using s(5) t(3-7) by (cases c) (auto simp: filling_def)
  moreover have "headers (cli_events (ds @ [ToClient e]))" using s(3) d by (cases e) auto
  ultimately show ?thesis
    using s t drive_snoc [OF s(7) r] by (intro exI [of _ t]) (auto simp: joint_def)
qed

text \<open>What the real programs send is what the machines send.\<close>

lemma sends_server:
  assumes "waits_on (childSocket info) w" "headers es" "srv_run ck q info es = (c, out)"
  shows "sends (send_data_state ck q info) w es = set (datas out @ final ck c)"
  using send_data_state_machine(2) [of info "w\<lparr>schedule := es\<rparr>" ck q c out] assms
  by (simp add: sends_def datas_def image_Un)

lemma sends_client:
  assumes "is_open w (socketNum info)" "headers es"
    "drive (cli_react ck) (Receives IN_ORDER info) es = (c, out)"
  shows "sends (process_transfer_state ck info) w es = set (datas out)"
    "fst (process_transfer_state ck info (w\<lparr>schedule := es\<rparr>)) = cli_result c"
  using process_transfer_loop_machine [of "w\<lparr>schedule := es\<rparr>" info ck IN_ORDER] assms
  by (auto simp: sends_def datas_def cli_agrees_def process_transfer_state_def is_open_def Let_def)

text \<open>Every causal network is a run of the step relation.\<close>

abbreviation server_sends :: "cksum \<Rightarrow> int \<Rightarrow> ServerInfo \<Rightarrow> world \<Rightarrow> event list \<Rightarrow> byte list set" where
  "server_sends ck ws sinfo sw \<equiv> sends (send_data_state ck (fresh_queue ws) sinfo) sw"

abbreviation client_sends :: "cksum \<Rightarrow> ReceiveInfo \<Rightarrow> world \<Rightarrow> event list \<Rightarrow> byte list set" where
  "client_sends ck cinfo cw \<equiv> sends (process_transfer_state ck cinfo) cw"

lemma causal_joint:
  assumes server: "waits_on (childSocket sinfo) sw" "in_file sinfo = Some f" "bufferSize sinfo = b"
    and client: "is_open cw (socketNum cinfo)" "abs_rcv cinfo = fresh_receiver wc 0 0"
    and bounds: "0 < ws" "ws < 2 ^ 31" "0 < wc" "wc < 2 ^ 31" "0 < unat b" "unat b \<le> MAXBUF" "length f + 3 < 2 ^ 32"
    and "causal (server_sends ck ws sinfo sw) (client_sends ck cinfo cw) ds"
  shows "\<exists>s. joint ck b ws wc f sinfo cinfo ds s"
  using assms(13)
proof (induction ds rule: rev_induct)
  case Nil
  obtain lo where "num_inv ck b f (nat ws) lo (proto_start ws wc f)" using reach_nums [OF proto_reach.start bounds] .
  then show ?case by (rule joint_start [OF server(2,3) client(2) _ bounds(5-7)])
next
  case (snoc d ds)
  then have cd: "causal (server_sends ck ws sinfo sw) (client_sends ck cinfo cw) ds"
    "delivers (server_sends ck ws sinfo sw) (client_sends ck cinfo cw) ds d"
    by (simp_all add: causal_snoc)
  from snoc.IH [OF cd(1)] obtain s where j: "joint ck b ws wc f sinfo cinfo ds s" by blast
  then obtain c out cc cout where s: "proto_reach ck b (proto_start ws wc f) s"
    "headers (srv_events ds)" "headers (cli_events ds)"
    "srv_run ck (fresh_queue ws) sinfo (srv_events ds) = (c, out)"
    "set (datas out @ final ck c) \<subseteq> set (to_client s)"
    "drive (cli_react ck) (Receives IN_ORDER cinfo) (cli_events ds) = (cc, cout)"
    "set (datas cout) \<subseteq> set (to_server s)" unfolding joint_def by blast
  obtain lo where inv: "num_inv ck b f (nat ws) lo s" using reach_nums [OF s(1) bounds] .
  show ?case
  proof (cases d)
    case (ToServer e)
    have "p \<in> set (to_server s)" if "e = Arrive p a" for p a
      using cd(2) ToServer that s(7) sends_client(1) [OF client(1) s(3,6)] by (auto simp: delivers_def)
    with joint_server [OF j inv bounds(5-7)] ToServer show ?thesis by blast
  next
    case (ToClient e)
    have "p \<in> set (to_client s)" if "e = Arrive p a" for p a
      using cd(2) ToClient that s(5) sends_server [OF server(1) s(2,4)] by (auto simp: delivers_def)
    with joint_client [OF j inv] ToClient show ?thesis by blast
  qed
qed

text \<open>
  A network that delivers the first chunk twice, the second one and the EOF packet, and the
  acknowledgements of both chunks.
\<close>

lemma causal_code:
  "causal server client ds \<longleftrightarrow> list_all (\<lambda>i. delivers server client (take i ds) (ds ! i)) [0..<length ds]"
  by (auto simp: causal_def list_all_iff)

definition small_network :: "delivery list" where
  "small_network =
     [ToClient (Arrive (pdu_of (\<lambda>_. 0) 1 16 [1, 2]) 7), ToServer Quiet,
      ToServer (Arrive (pdu_of (\<lambda>_. 0) 2 5 []) 9),
      ToClient (Arrive (pdu_of (\<lambda>_. 0) 1 16 [1, 2]) 7), ToClient (Arrive (pdu_of (\<lambda>_. 0) 2 16 [3]) 7),
      ToServer Quiet, ToServer (Arrive (pdu_of (\<lambda>_. 0) 3 5 []) 9),
      ToClient (Arrive (pdu_of (\<lambda>_. 0) 3 10 []) 7)]"

lemma small_network_causal:
  "causal (server_sends (\<lambda>_. 0) 1 small_session polled_world)
     (client_sends (\<lambda>_. 0) (fresh_receiver 3 0 0\<lparr>outFile_fd := 4\<rparr>) (start_world [])) small_network"
  unfolding causal_code by code_simp

text \<open>What the client's machine says of the file: the receiver it holds, running or returned.\<close>

fun cli_receiver :: "cli \<Rightarrow> ReceiveInfo option" where
  "cli_receiver (Receives _ info) = Some info"
| "cli_receiver (Returned info) = Some info"
| "cli_receiver (CliStop _) = None"



end
