(* ===== verification/Liveness.thy ===== *)
theory Liveness
  imports Any_Windows Transitions
begin

text \<open>
  The transfer is never at a dead end as long as the network still delivers what was sent: from
  every reachable state in which the client has not stopped, the step relation, which keeps
  every datagram deliverable, can bring the whole file over.  (What the program does when
  datagrams are gone is the subject of \<open>Loss_Recovery\<close>.)  \<open>live_inv\<close> adds to the
  invariant of \<open>Protocol\<close> what is in flight: every chunk sent so far, the EOF packet once the
  file has ended, and in state \<open>IN_ORDER\<close> the cumulative acknowledgement of everything
  written.
\<close>

subsection \<open>What is in flight\<close>

definition live_inv :: "cksum \<Rightarrow> u16 \<Rightarrow> byte list \<Rightarrow> proto \<Rightarrow> bool" where
  "live_inv ck b f s \<longleftrightarrow>
     (\<forall>m. 1 \<le> unat m \<and> unat m < unat (next_seq s) \<longrightarrow>
        pdu_of ck m 16 (file_chunk (unat b) f (unat m)) \<in> set (to_client s)) \<and>
     (ended s \<longrightarrow> pdu_of ck (next_seq s) 10 [] \<in> set (to_client s)) \<and>
     (\<not> finished s \<and> rstate s = IN_ORDER \<and> expected (rinfo s) \<noteq> 1 \<longrightarrow>
        pdu_of ck (expected (rinfo s)) 5 [] \<in> set (to_server s)) \<and>
     (\<not> finished s \<and> rstate s = FLUSH \<longrightarrow> expected (rinfo s) \<noteq> 1) \<and>
     (\<not> finished s \<and> rstate s = OUT_OF_ORDER \<longrightarrow> expected (rinfo s) \<le> highest (rinfo s))"

lemma live_invD:
  assumes "live_inv ck b f s"
  shows "1 \<le> unat m \<Longrightarrow> unat m < unat (next_seq s) \<Longrightarrow>
      pdu_of ck m 16 (file_chunk (unat b) f (unat m)) \<in> set (to_client s)"
    "ended s \<Longrightarrow> pdu_of ck (next_seq s) 10 [] \<in> set (to_client s)"
    "\<not> finished s \<Longrightarrow> rstate s = IN_ORDER \<Longrightarrow> expected (rinfo s) \<noteq> 1 \<Longrightarrow>
      pdu_of ck (expected (rinfo s)) 5 [] \<in> set (to_server s)"
    "\<not> finished s \<Longrightarrow> rstate s = FLUSH \<Longrightarrow> expected (rinfo s) \<noteq> 1"
    "\<not> finished s \<Longrightarrow> rstate s = OUT_OF_ORDER \<Longrightarrow> expected (rinfo s) \<le> highest (rinfo s)"
  using assms by (auto simp: live_inv_def)

lemma data_packet_acks:
  assumes "data_packet ck st info sq p n = Inr (st', info', pdus)"
  shows "st' = IN_ORDER \<Longrightarrow> st = IN_ORDER \<and> info' = info \<or> pdu_of ck (expected info') 5 [] \<in> set pdus"
    "st' = FLUSH \<Longrightarrow> st = OUT_OF_ORDER \<and> expected info' = expected info + 1 \<or> st = FLUSH"
    "st' = OUT_OF_ORDER \<Longrightarrow> expected info' \<le> highest info' \<or> st = OUT_OF_ORDER \<and> info' = info"
proof -
  show "st' = IN_ORDER \<Longrightarrow> st = IN_ORDER \<and> info' = info \<or> pdu_of ck (expected info') 5 [] \<in> set pdus"
    "st' = FLUSH \<Longrightarrow> st = OUT_OF_ORDER \<and> expected info' = expected info + 1 \<or> st = FLUSH"
    using assms by (cases st; auto simp: data_packet_def Let_def res_eqs split: if_splits)+
  assume st': "st' = OUT_OF_ORDER"
  show "expected info' \<le> highest info' \<or> st = OUT_OF_ORDER \<and> info' = info"
  proof (cases "st = FLUSH \<or> sq \<le> expected info")
    case True
    then show ?thesis using assms st'
      by (cases st) (auto simp: data_packet_def Let_def rbind_eq_Inr split: if_splits)
  next
    case False
    then obtain bi where bi: "buffer_packet info sq p n = Inr bi" "info' = bi\<lparr>highest := max sq (highest bi)\<rparr>"
      using assms st'
      by (cases st) (auto simp: data_packet_def Let_def rbind_eq_Inr raise_highest split: if_splits)
    with False buffer_packet_numbers [OF bi(1)] show ?thesis by (auto simp: le_max_iff_disj)
  qed
qed

lemma transfer_packet_acks:
  assumes "transfer_packet ck st info b n = Inr (More st' info' pdus)"
  shows "st' = IN_ORDER \<Longrightarrow> st = IN_ORDER \<and> info' = info \<or> pdu_of ck (expected info') 5 [] \<in> set pdus"
    "st' = FLUSH \<Longrightarrow> st = OUT_OF_ORDER \<and> expected info' = expected info + 1 \<or> st = FLUSH"
    "st' = OUT_OF_ORDER \<Longrightarrow> expected info' \<le> highest info' \<or> st = OUT_OF_ORDER \<and> info' = info"
  using assms
  by (auto simp: transfer_packet_def Let_def res_eqs split: if_splits dest: data_packet_acks)

text \<open>A data packet always takes the machine out of \<open>FLUSH\<close>.\<close>

lemma flush_leaves:
  assumes "rcv_core chunk nxt info" "nxt < 2 ^ 32" "data_packet ck FLUSH info sq p n = Inr (st', info', pdus)"
  shows "st' \<noteq> FLUSH"
proof -
  from flush_loop_core [OF assms(1,2)] obtain fi where
    f: "flush_loop info = Inr fi" "rcv_core chunk nxt fi"
      "expected fi > highest fi \<or> \<not> e_valid (buffer fi ! (unat (expected fi) mod length (buffer fi)))" by blast
  note D = rcv_coreD [OF f(2)]
  show ?thesis
  proof (cases "expected fi \<le> highest fi")
    case True
    with f D(1,3) assms(3) show ?thesis by (auto simp: data_packet_def not_less [symmetric])
  next
    case False
    with f(1) assms(3) show ?thesis by (auto simp: data_packet_def)
  qed
qed

lemma transfer_leaves_flush:
  assumes "rcv_core chunk nxt info" "nxt < 2 ^ 32"
    "transfer_packet ck FLUSH info b n = Inr (More st' info' pdus)"
  shows "st' \<noteq> FLUSH \<or> info' = info"
  using assms(3) flush_leaves [OF assms(1,2)]
  by (auto simp: transfer_packet_def Let_def res_eqs split: if_splits)

lemma live_inv_fill:
  assumes "live_inv ck b f s" "\<not> ended s"
    and "pdu = pdu_of ck (next_seq s) 16 (file_chunk (unat b) f (unat (next_seq s)))"
    and "unat sq = unat (next_seq s) + 1"
  shows "live_inv ck b f (s\<lparr>win := q, next_seq := sq, unread := rest, to_client := pdu # to_client s\<rparr>)"
proof -
  have "m = next_seq s" if "unat m < unat (next_seq s) + 1" "\<not> unat m < unat (next_seq s)" for m
    using that by (simp add: word_unat_eq_iff)
  then show ?thesis using assms unfolding live_inv_def by (auto simp: less_Suc_eq)
qed

definition live_ok :: "cksum \<Rightarrow> u16 \<Rightarrow> byte list \<Rightarrow> proto \<Rightarrow> bool" where
  "live_ok ck b f s \<longleftrightarrow> 0 < unat b \<and> unat b \<le> MAXBUF \<and> length f + 3 < 2 ^ 32 \<and>
     (\<exists>lo. proto_inv ck b f lo s) \<and> live_inv ck b f s"

lemma live_ok_step:
  assumes ok: "live_ok ck b f s" and step: "proto_step ck b s t"
  shows "live_ok ck b f t"
proof -
  from ok obtain lo where par: "0 < unat b" "unat b \<le> MAXBUF" "length f + 3 < 2 ^ 32"
    and inv: "proto_inv ck b f lo s" and live: "live_inv ck b f s" unfolding live_ok_def by blast
  have "live_inv ck b f t"
    using step
  proof cases
    case (fill q sq rest pdu)
    note F = fill_result [OF proto_inv_side [OF inv] par(3,1,2) fill(3,4)]
    show ?thesis unfolding fill(1) by (rule live_inv_fill [OF live fill(2) F(3,1)])
  next
    case (eof pdu)
    then show ?thesis using live by (auto simp: live_inv_def)
  next
    case (ack a jk q pdus)
    then show ?thesis using live by (auto simp: live_inv_def)
  next
    case (timeout pdus)
    then show ?thesis using live by (auto simp: live_inv_def)
  next
    case (deliver p jk st info pdus)
    note core = proto_invD(8) [OF inv]
    note A = transfer_packet_acks [OF deliver(4)]
    have "expected (rinfo s) \<noteq> 0" using rcv_coreD(4) [OF core] by auto
    moreover have "st \<noteq> FLUSH \<or> info = rinfo s" if "rstate s = FLUSH"
      by (rule transfer_leaves_flush [OF core snd_windowD(4) [OF proto_invD(1) [OF inv]]
            deliver(4) [unfolded that]])
    ultimately have "st = FLUSH \<Longrightarrow> expected info \<noteq> 1"
      using A(2) live_invD(4) [OF live deliver(2)] by auto
    then show ?thesis using live deliver(2) A(1,3) unfolding deliver(1) live_inv_def by auto
  next
    case (finish p jk info pdus)
    then show ?thesis using live by (auto simp: live_inv_def)
  qed
  moreover have "\<exists>lo'. proto_inv ck b f lo' t" by (rule proto_inv_step [OF step inv par(3,1,2)])
  ultimately show ?thesis using par by (simp add: live_ok_def)
qed

subsection \<open>Progress\<close>

definition live_rank :: "(proto \<times> proto) set" where
  "live_rank = measures
     [\<lambda>s. length (unread s) + (if ended s then 0 else 1),
      \<lambda>s. unat (next_seq s) - unat (expected (rinfo s)),
      \<lambda>s. if rstate s = FLUSH then 1 else 0,
      \<lambda>s. if CircularQueue_is_full (win s) then 1 else 0]"

text \<open>A turn of the client that takes a data packet in flight.\<close>

lemma progress_deliver:
  assumes inv: "proto_inv ck b f lo s" and "\<not> finished s" and p: "p = pdu_of ck m 16 (file_chunk (unat b) f (unat m))"
    "p \<in> set (to_client s)" "unat m < unat (next_seq s)"
    and ok: "if rstate s = FLUSH then True else m = expected (rinfo s)"
  shows "\<exists>t. proto_step ck b s t \<and> \<not> finished t \<and> (t, s) \<in> live_rank"
proof -
  note D = proto_invD [OF inv] and core = proto_invD(8) [OF inv]
  note n32 = snd_windowD(4) [OF D(1)]
  have arr: "arrival_ok (file_chunk (unat b) f) (unat (next_seq s)) (rinfo s) m (file_chunk (unat b) f (unat m))"
    using in_flight_arrival [OF inv p(3)] snd_windowD(5) [OF D(1)] by simp
  have sixteen: "(16 :: byte) = 16 \<or> (16 :: byte) = 17 \<or> (16 :: byte) = 18" by simp
  obtain st info pdus where
    t: "transfer_packet ck (rstate s) (rinfo s) (rbuf_of p (\<lambda>_. 0)) (int (length p)) = Inr (More st info pdus)"
    "rcv_inv (file_chunk (unat b) f) (unat (next_seq s)) st info" "expected (rinfo s) \<le> expected info"
    using transfer_packet_data [OF D(9) [OF assms(2)] n32 sixteen arr] unfolding p(1) by metis
  let ?t = "s\<lparr>rstate := st, rinfo := info, to_server := pdus @ to_server s\<rparr>"
  have step: "proto_step ck b s ?t" by (rule proto_step.deliver [OF assms(2) p(2) t(1)])
  have le: "unat (expected info) \<le> unat (next_seq s)" using t(2) by (auto simp: rcv_inv_def rcv_core_def)
  have mono: "unat (expected (rinfo s)) \<le> unat (expected info)" using t(3) by (simp add: word_le_nat_alt)
  have "(?t, s) \<in> live_rank"
  proof (cases "rstate s = FLUSH")
    case True
    have "data_packet ck FLUSH (rinfo s) m (file_chunk (unat b) f (unat m))
        (int (length (file_chunk (unat b) f (unat m)))) = Inr (st, info, pdus)"
      using t(1) True unfolding p(1) by (auto simp: transfer_packet_def Let_def res_eqs)
    then have "st \<noteq> FLUSH" by (rule flush_leaves [OF core n32])
    with True mono le show ?thesis by (auto simp: live_rank_def)
  next
    case False
    with deliver_expected [OF False, of 16 ck "rinfo s" "file_chunk (unat b) f (unat m)" "\<lambda>_. 0"] t(1) ok
    have "expected info = expected (rinfo s) + 1" unfolding p(1) by auto
    moreover have "unat (expected (rinfo s)) < unat (next_seq s)" using p(3) ok False by simp
    ultimately have "unat (expected info) = unat (expected (rinfo s)) + 1"
      using unat_Suc_u32 [of "expected (rinfo s)"] n32 by simp
    moreover have "unat (next_seq s) - (unat (expected (rinfo s)) + 1) < unat (next_seq s) - unat (expected (rinfo s))"
      using \<open>unat (expected (rinfo s)) < unat (next_seq s)\<close> by linarith
    ultimately show ?thesis by (simp add: live_rank_def)
  qed
  with step assms(2) show ?thesis by (intro exI [of _ ?t]) simp
qed

text \<open>With everything sent written, the acknowledgement of it all empties a full window.\<close>

lemma progress_ack:
  assumes inv: "proto_inv ck b f lo s" and "\<not> ended s" "\<not> finished s" "CircularQueue_is_full (win s)"
    and e: "expected (rinfo s) = next_seq s" "pdu_of ck (expected (rinfo s)) 5 [] \<in> set (to_server s)"
  shows "\<exists>t. proto_step ck b s t \<and> \<not> finished t \<and> (t, s) \<in> live_rank"
proof -
  note W = snd_windowD [OF proto_invD(1) [OF inv]]
  let ?a = "pdu_of ck (expected (rinfo s)) 5 []"
  from handle_ack_rr [OF proto_invD(1) [OF inv], of "rbuf_of ?a (\<lambda>_. 0)"] obtain q where
    q: "handle_ack ck (win s) (rbuf_of ?a (\<lambda>_. 0)) = Inr (q, [])" "queue_cap q = queue_cap (win s)"
    "snd_window ck (file_chunk (unat b) f) (unat (next_seq s)) (unat (next_seq s)) q"
    using W(3) e(1) by (auto simp: max_def)
  have "0 < queue_cap (win s)" using W(1) by (auto elim!: queue_okE simp: queue_cap_def)
  then have "\<not> CircularQueue_is_full q"
    using cq.full_range [OF snd_windowD(1,7) [OF q(3)]] W(4) q(2) by simp
  then have "(s\<lparr>win := q, to_client := [] @ to_client s\<rparr>, s) \<in> live_rank" using assms(4) by (simp add: live_rank_def)
  moreover have "proto_step ck b s (s\<lparr>win := q, to_client := [] @ to_client s\<rparr>)"
    by (rule proto_step.ack [OF assms(2) e(2) q(1)])
  ultimately show ?thesis using assms(3) by (intro exI [of _ "s\<lparr>win := q, to_client := [] @ to_client s\<rparr>"]) simp
qed

text \<open>With room in the window the server reads on, or ends.\<close>

lemma progress_fill:
  assumes inv: "proto_inv ck b f lo s" and "\<not> ended s" "\<not> finished s" "\<not> CircularQueue_is_full (win s)"
    and b: "0 < unat b" "unat b \<le> MAXBUF" and len: "length f + 3 < 2 ^ 32"
  shows "\<exists>t. proto_step ck b s t \<and> \<not> finished t \<and> (t, s) \<in> live_rank"
proof (cases "unread s = []")
  case True
  let ?t = "s\<lparr>ended := True, to_client := pdu_of ck (next_seq s) 10 [] # to_client s\<rparr>"
  have "proto_step ck b s ?t"
    by (rule proto_step.eof) (use assms True in \<open>simp_all add: send_chunk_end\<close>)
  moreover have "(?t, s) \<in> live_rank" using assms(2) by (simp add: live_rank_def)
  ultimately show ?thesis using assms(3) by (intro exI [of _ ?t]) simp
next
  case False
  note D = proto_invD [OF inv]
  let ?n = "unat (next_seq s)"
  have w: "(word_of_nat ?n :: u32) = next_seq s" by simp
  have n: "?n + 1 < 2 ^ 32" using D(4) len by linarith
  have ch: "take (unat b) (unread s) = file_chunk (unat b) f ?n" by (simp add: D(3) file_chunk_def)
  from send_chunk_window [OF D(1) assms(4) n b False ch] obtain q sq rest pdu where
    sc: "send_chunk ck True (win s) (next_seq s) b (unread s) = Inr (Some (q, sq, rest, pdu))"
    unfolding w by blast
  let ?t = "s\<lparr>win := q, next_seq := sq, unread := rest, to_client := pdu # to_client s\<rparr>"
  have "proto_step ck b s ?t" by (rule proto_step.fill [OF assms(2,4) sc])
  moreover have "(?t, s) \<in> live_rank" using send_chunk_shorter [OF sc] by (simp add: live_rank_def)
  ultimately show ?thesis using assms(3) by (intro exI [of _ ?t]) simp
qed

text \<open>The EOF packet, taken when everything is written, finishes the whole file.\<close>

lemma progress_finish:
  assumes inv: "proto_inv ck b f lo s" and "ended s" "\<not> finished s" "rstate s = IN_ORDER"
    and e: "expected (rinfo s) = next_seq s" "pdu_of ck (next_seq s) 10 [] \<in> set (to_client s)"
  shows "\<exists>t. proto_step ck b s t \<and> finished t \<and> outFile (rinfo t) = f"
proof -
  have "highest (rinfo s) < expected (rinfo s)"
    using proto_invD(9) [OF inv assms(3)] assms(4) by (simp add: rcv_inv_def)
  then have idle: "flush_loop (rinfo s\<lparr>rcv_eofSeq := next_seq s\<rparr>) = Inr (rinfo s\<lparr>rcv_eofSeq := next_seq s\<rparr>)"
    by (intro flush_loop_idle) simp
  let ?p = "pdu_of ck (next_seq s) 10 []"
  let ?i = "rinfo s\<lparr>rcv_eofSeq := next_seq s, outFile_open := False\<rparr>"
  have tp: "transfer_packet ck (rstate s) (rinfo s) (rbuf_of ?p (\<lambda>_. 0)) (int (length ?p)) =
      Inr (Finished ?i [pdu_of ck (next_seq s) 35 []])"
    using idle by (simp add: transfer_packet_def Let_def send_eof_ack_def)
  let ?t = "s\<lparr>finished := True, rinfo := ?i, to_server := [pdu_of ck (next_seq s) 35 []] @ to_server s\<rparr>"
  have step: "proto_step ck b s ?t" by (rule proto_step.finish [OF assms(3) e(2) tp])
  have "proto_inv ck b f lo ?t" using proto_inv_receive [OF inv assms(3) e(2), of "\<lambda>_. 0"] tp by auto
  from inv_complete [OF this] e(1) have "outFile (rinfo ?t) = f" by simp
  with step show ?thesis by (intro exI [of _ ?t]) simp
qed

lemma live_progress:
  assumes ok: "live_ok ck b f s" and unf: "\<not> finished s"
  shows "\<exists>t. proto_step ck b s t \<and>
    (finished t \<and> outFile (rinfo t) = f \<or> \<not> finished t \<and> (t, s) \<in> live_rank)"
proof -
  from ok obtain lo where b: "0 < unat b" "unat b \<le> MAXBUF" and len: "length f + 3 < 2 ^ 32"
    and inv: "proto_inv ck b f lo s" and live: "live_inv ck b f s" unfolding live_ok_def by blast
  note D = proto_invD [OF inv] and L = live_invD [OF live]
  note C = rcv_coreD [OF D(8)]
  consider (lag) "unat (expected (rinfo s)) < unat (next_seq s)"
    | (flush) "expected (rinfo s) = next_seq s" "rstate s = FLUSH"
    | (level) "expected (rinfo s) = next_seq s" "rstate s \<noteq> FLUSH"
    using C(5) by (metis le_neq_implies_less word_unat_eq_iff)
  then show ?thesis
  proof cases
    case lag
    have "\<exists>t. proto_step ck b s t \<and> \<not> finished t \<and> (t, s) \<in> live_rank"
      by (rule progress_deliver [OF inv unf refl L(1) lag]) (use C(4) lag in simp_all)
    then show ?thesis by blast
  next
    case flush
    have "1 < unat (next_seq s)"
      using L(4) [OF unf flush(2)] flush(1) C(4) by (metis le_neq_implies_less unat_1 word_unat_eq_iff)
    then have "\<exists>t. proto_step ck b s t \<and> \<not> finished t \<and> (t, s) \<in> live_rank"
      by (intro progress_deliver [OF inv unf refl L(1) [of 1]]) (simp_all add: flush(2))
    then show ?thesis by blast
  next
    case level
    have "rstate s \<noteq> OUT_OF_ORDER"
      using L(5) [OF unf] C(6) level(1) by (auto simp: word_le_nat_alt)
    then have io: "rstate s = IN_ORDER" using level(2) by (cases "rstate s") simp_all
    show ?thesis
    proof (cases "ended s")
      case True
      then show ?thesis using progress_finish [OF inv True unf io level(1) L(2)] by blast
    next
      case False
      show ?thesis
      proof (cases "CircularQueue_is_full (win s)")
        case full: True
        note W = snd_windowD [OF D(1)]
        have "0 < queue_cap (win s)" using W(1) by (auto elim!: queue_okE simp: queue_cap_def)
        then have "unat (next_seq s) \<noteq> 1" using cq.full_range [OF W(1,7)] W(2,4) full by auto
        then have "expected (rinfo s) \<noteq> 1" using level(1) by auto
        then show ?thesis using progress_ack [OF inv False unf full level(1) L(3)] unf io by blast
      qed (use progress_fill [OF inv False unf _ b len] in blast)
    qed
  qed
qed

interpretation live: progress_system "proto_step ck b" "live_ok ck b f" "\<lambda>s. \<not> finished s"
    "\<lambda>s. finished s \<and> outFile (rinfo s) = f" live_rank for ck b f
proof unfold_locales
  show "live_ok ck b f t" if "live_ok ck b f s" "proto_step ck b s t" for s t
    using live_ok_step [OF that] .
  show "wf live_rank" by (simp add: live_rank_def)
  show "\<exists>t. (proto_step ck b)\<^sup>*\<^sup>* s t \<and>
      ((finished t \<and> outFile (rinfo t) = f) \<or> \<not> finished t \<and> (t, s) \<in> live_rank)"
    if "live_ok ck b f s" "\<not> finished s" for s
    using live_progress [OF that] by blast
qed

lemma live_start:
  assumes "0 < ws" "ws \<le> wc" "wc < 2 ^ 31" "0 < unat b" "unat b \<le> MAXBUF" "length f + 3 < 2 ^ 32"
  shows "live_ok ck b f (proto_start ws wc f)"
proof -
  have "live_inv ck b f (proto_start ws wc f)"
    by (auto simp: live_inv_def fresh_receiver_def)
  then show ?thesis using assms proto_inv_start [OF assms(1-3,5)] by (auto simp: live_ok_def)
qed

subsection \<open>Completion\<close>

text \<open>
  From every reachable state in which the client has not stopped, the transfer can go on to a
  state in which the client has stopped with the whole file written, provided the server's window
  is no larger than the client's and the network still delivers what is in flight.
\<close>

lemma transfer_can_complete:
  assumes "proto_reach ck b (proto_start ws wc f) s" "\<not> finished s"
    and "0 < ws" "ws \<le> wc" "wc < 2 ^ 31" "0 < unat b" "unat b \<le> MAXBUF" "length f + 3 < 2 ^ 32"
  shows "\<exists>t. proto_reach ck b s t \<and> finished t \<and> outFile (rinfo t) = f"
proof -
  have "live_ok ck b f s"
    using live.run_inv assms(1) live_start [OF assms(3-8)] unfolding reach_star by blast
  from live.reaches_goal [OF this assms(2)] show ?thesis unfolding reach_star by blast
qed

end
