(* ===== verification/Loss_Recovery.thy ===== *)
theory Loss_Recovery
  imports Any_Windows Transitions
begin

text \<open>
  What the timeouts and the SREJs of the server are good for: the window is full, the server
  waits for room in \<open>wait_for_room\<close>, and the network has lost everything in flight in both
  directions.  From there the chunk the client waits for can come only from a retransmission.
  A timeout resends the packet in the lowest occupied slot, not the oldest one, and the client
  answers nothing to a packet it has written already, so the transfer recovers or is wedged
  for good, depending on the numbers alone.
\<close>

subsection \<open>The timeout of a full window\<close>

text \<open>In a full window the first slot is occupied, by the one number in it that it divides.\<close>

lemma resend_full:
  assumes win: "snd_window ck chunk lo nxt q" and full: "CircularQueue_is_full q"
    and r: "nxt \<le> unat r + queue_cap q" "unat r < nxt" "unat r mod queue_cap q = 0"
  shows "resend_oldest ck q = Inr [pdu_of ck r 18 (chunk (unat r))]" "lo \<le> unat r"
proof -
  note W = snd_windowD [OF win]
  show lo: "lo \<le> unat r" using cq.full_range [OF W(1,7)] W(3,4) full r(1) by simp
  from W(1) obtain es where es: "entries q = Some es" "length es = nat (WindowSize q)" "0 < length es"
    "0 < WindowSize q" "\<And>i. i < length es \<Longrightarrow> entry_ok (length es) i (es ! i)" by (elim queue_okE) blast
  have "unat r mod length es = 0" using r(3) es(1,2) by (simp add: queue_cap_def)
  then have e: "valid (es ! 0)" "sequenceNum (es ! 0) = r"
    "packet (es ! 0) = Some (pdu_of ck r 16 (chunk (unat r)))"
    using W(8) [OF lo r(2)] es(1) by (auto simp: queue_lookup_def slot_lookup_def Let_def split: if_splits)
  then have l: "packetLen (es ! 0) = int (length (pdu_of ck r 16 (chunk (unat r))))"
    using es(5) [OF es(3)] by (auto simp: entry_ok_def)
  have "[0..<nat (WindowSize q)] = 0 # [1..<nat (WindowSize q)]" using es(4) by (simp add: upt_conv_Cons)
  then have "scan_valid es [0..<nat (WindowSize q)] = Inr (Some (es ! 0))" using e(1) es(3) by simp
  then show "resend_oldest ck q = Inr [pdu_of ck r 18 (chunk (unat r))]"
    using es(1,4) e(3) l W(5) [of "unat r"]
    by (simp add: resend_oldest_def entries_of_def entry_packet_def createPDU_full nth_pdu_of)
qed

definition all_lost :: "proto \<Rightarrow> proto" where
  "all_lost s = s\<lparr>to_client := [], to_server := []\<rparr>"

lemma all_lost_simps [simp]:
  "win (all_lost s) = win s" "next_seq (all_lost s) = next_seq s" "unread (all_lost s) = unread s"
  "ended (all_lost s) = ended s" "to_client (all_lost s) = []" "to_server (all_lost s) = []"
  "rinfo (all_lost s) = rinfo s" "rstate (all_lost s) = rstate s" "finished (all_lost s) = finished s"
  by (simp_all add: all_lost_def)

lemma num_inv_all_lost: "num_inv ck b f cap lo s \<Longrightarrow> num_inv ck b f cap lo (all_lost s)"
  unfolding num_inv_def srv_side_def all_lost_simps list.set(1) by blast

subsection \<open>Wedged for good\<close>

text \<open>
  The server only resends packet \<open>r\<close>, and the client does not answer it: it has written it, or
  it has asked for another one before and waits.
\<close>

definition wedged :: "cksum \<Rightarrow> u32 \<Rightarrow> byte list \<Rightarrow> u32 \<Rightarrow> byte list \<Rightarrow> proto \<Rightarrow> bool" where
  "wedged ck r pl ex out s \<longleftrightarrow>
     \<not> ended s \<and> \<not> finished s \<and> CircularQueue_is_full (win s) \<and>
     resend_oldest ck (win s) = Inr [pdu_of ck r 18 pl] \<and>
     to_server s = [] \<and> set (to_client s) \<subseteq> {pdu_of ck r 18 pl} \<and>
     expected (rinfo s) = ex \<and> outFile (rinfo s) = out \<and>
     (rstate s = IN_ORDER \<and> r < ex \<or> rstate s = OUT_OF_ORDER \<and> r \<noteq> ex)"

lemma silent_packet:
  assumes "data_packet ck st info r p n = Inr (st', info', pdus)"
    and "st = IN_ORDER \<and> r < expected info \<or> st = OUT_OF_ORDER \<and> r \<noteq> expected info"
  shows "st' = st" "pdus = []" "expected info' = expected info" "outFile info' = outFile info"
proof -
  have "\<not> expected info < r" if "r < expected info" using that by auto
  then have "st' = st \<and> pdus = [] \<and> expected info' = expected info \<and> outFile info' = outFile info"
    using assms
    by (auto simp: data_packet_def Let_def rbind_eq_Inr dest!: buffer_packet_numbers split: if_splits)
  then show "st' = st" "pdus = []" "expected info' = expected info" "outFile info' = outFile info" by auto
qed

interpretation wedge: invariant_system "proto_step ck b" "wedged ck r pl ex out" for ck b r pl ex out
proof unfold_locales
  fix s t
  assume w: "wedged ck r pl ex out s" and step: "proto_step ck b s t"
  show "wedged ck r pl ex out t"
    using step
  proof cases
    case (deliver p jk st info pdus)
    have "p = pdu_of ck r 18 pl" using w deliver(3) by (auto simp: wedged_def)
    then have "data_packet ck (rstate s) (rinfo s) r pl (int (length pl)) = Inr (st, info, pdus)"
      using deliver(4) by (auto simp: transfer_packet_def Let_def rbind_eq_Inr)
    from silent_packet [OF this] w show ?thesis unfolding deliver(1) by (auto simp: wedged_def)
  next
    case (finish p jk info pdus)
    have "p = pdu_of ck r 18 pl" using w finish(3) by (auto simp: wedged_def)
    with finish(4) show ?thesis by (auto simp: transfer_packet_def Let_def rbind_eq_Inr)
  qed (use w in \<open>auto simp: wedged_def\<close>)
qed

lemma wedged_run: "proto_reach ck b s t \<Longrightarrow> wedged ck r pl ex out s \<Longrightarrow> wedged ck r pl ex out t"
  using wedge.run_inv unfolding reach_star by blast

subsection \<open>Recovered\<close>

text \<open>The expected chunk is in flight: the client writes it.\<close>

lemma writes_expected:
  assumes "\<not> finished s" "rstate s \<noteq> FLUSH" "fl = 17 \<or> fl = 18"
    and "pdu_of ck (expected (rinfo s)) fl pl \<in> set (to_client s)"
  shows "\<exists>t. proto_reach ck b s t \<and> expected (rinfo t) = expected (rinfo s) + 1 \<and>
    outFile (rinfo t) = outFile (rinfo s) @ pl"
proof -
  have "fl \<noteq> 10" "fl = 16 \<or> fl = 17 \<or> fl = 18" using assms(3) by auto
  from deliver_expected [OF assms(2) this(2), of ck "rinfo s" pl "\<lambda>_. 0"] obtain st info pdus where
    t: "transfer_packet ck (rstate s) (rinfo s) (rbuf_of (pdu_of ck (expected (rinfo s)) fl pl) (\<lambda>_. 0))
      (int (length (pdu_of ck (expected (rinfo s)) fl pl))) = Inr (More st info pdus)"
    "expected info = expected (rinfo s) + 1" "outFile info = outFile (rinfo s) @ pl" by blast
  let ?t = "s\<lparr>rstate := st, rinfo := info, to_server := pdus @ to_server s\<rparr>"
  have "proto_step ck b s ?t" by (rule proto_step.deliver [OF assms(1,4) t(1)])
  with t(2,3) show ?thesis
    by (intro exI [of _ ?t]) (auto intro: proto_reach.step [OF proto_reach.start])
qed

text \<open>A packet beyond the expected one makes an idle client ask for the expected one.\<close>

lemma asks_expected:
  assumes "rcv_wf info" "expected info < m" "fl = 16 \<or> fl = 17 \<or> fl = 18" "length pl \<le> MAXBUF"
  obtains info' where
    "transfer_packet ck IN_ORDER info (rbuf_of (pdu_of ck m fl pl) jk) (int (length (pdu_of ck m fl pl))) =
       Inr (More OUT_OF_ORDER info' [pdu_of ck (expected info) 6 []])"
    "expected info' = expected info" "outFile info' = outFile info"
proof -
  obtain bi where bi: "buffer_packet info m pl (int (length pl)) = Inr bi"
    using buffer_packet_wf [OF assms(1,4)] by blast
  from assms(3) have "fl \<noteq> 10" by auto
  with assms(2,3) bi buffer_packet_numbers [OF bi]
  have "transfer_packet ck IN_ORDER info (rbuf_of (pdu_of ck m fl pl) jk) (int (length (pdu_of ck m fl pl))) =
      Inr (More OUT_OF_ORDER (bi\<lparr>highest := max m (highest bi)\<rparr>) [pdu_of ck (expected info) 6 []])"
    by (auto simp: transfer_packet_def data_packet_def Let_def raise_highest)
  with that buffer_packet_numbers [OF bi] show thesis by simp
qed

text \<open>The SREJ in flight brings the chunk again.\<close>

lemma srej_recovers:
  assumes inv: "num_inv ck b f cap lo s" and st: "\<not> ended s" "\<not> finished s" "rstate s \<noteq> FLUSH"
    and lack: "expected (rinfo s) < next_seq s" and srej: "pdu_of ck (expected (rinfo s)) 6 [] \<in> set (to_server s)"
  shows "\<exists>t. proto_reach ck b s t \<and> expected (rinfo t) = expected (rinfo s) + 1 \<and>
    outFile (rinfo t) = outFile (rinfo s) @ file_chunk (unat b) f (unat (expected (rinfo s)))"
proof -
  note N = num_invD [OF inv]
  let ?ex = "expected (rinfo s)" and ?ch = "file_chunk (unat b) f (unat (expected (rinfo s)))"
  let ?t = "s\<lparr>win := win s, to_client := [pdu_of ck ?ex 17 ?ch] @ to_client s\<rparr>"
  have "unat ?ex < unat (next_seq s)" using lack by (simp add: word_less_nat_alt)
  then have "handle_ack ck (win s) (rbuf_of (pdu_of ck ?ex 6 []) (\<lambda>_. 0)) = Inr (win s, [pdu_of ck ?ex 17 ?ch])"
    using handle_ack_srej [OF N(5), of "rbuf_of (pdu_of ck ?ex 6 []) (\<lambda>_. 0)"] N(7) by simp
  then have "proto_step ck b s ?t" by (rule proto_step.ack [OF st(1) srej])
  then have r: "proto_reach ck b s ?t" by (rule proto_reach.step [OF proto_reach.start])
  have "\<exists>t. proto_reach ck b ?t t \<and> expected (rinfo t) = ?ex + 1 \<and> outFile (rinfo t) = outFile (rinfo s) @ ?ch"
    using writes_expected [of ?t 17 ck ?ch b] st by simp
  with reach_trans [OF _ r] show ?thesis by blast
qed

lemma timeout_recovers:
  assumes inv: "num_inv ck b f cap lo s" and par: "length f + 3 < 2 ^ 32" "0 < unat b" "unat b \<le> MAXBUF"
    and st: "\<not> ended s" "\<not> finished s" "CircularQueue_is_full (win s)"
    and resend: "resend_oldest ck (win s) = Inr [pdu_of ck r 18 (file_chunk (unat b) f (unat r))]" "r < next_seq s"
    and ok: "rstate s = IN_ORDER \<and> expected (rinfo s) \<le> r \<or> rstate s = OUT_OF_ORDER \<and> expected (rinfo s) = r"
  shows "\<exists>t. proto_reach ck b s t \<and> expected (rinfo t) = expected (rinfo s) + 1 \<and>
    outFile (rinfo t) = outFile (rinfo s) @ file_chunk (unat b) f (unat (expected (rinfo s)))"
proof -
  note N = num_invD [OF inv]
  let ?ch = "file_chunk (unat b) f (unat r)"
  let ?s1 = "s\<lparr>to_client := [pdu_of ck r 18 ?ch] @ to_client s\<rparr>"
  have step: "proto_step ck b s ?s1" by (rule proto_step.timeout [OF st(1,3) resend(1)])
  then have r1: "proto_reach ck b s ?s1" by (rule proto_reach.step [OF proto_reach.start])
  have "\<exists>t. proto_reach ck b ?s1 t \<and> expected (rinfo t) = expected (rinfo s) + 1 \<and>
    outFile (rinfo t) = outFile (rinfo s) @ file_chunk (unat b) f (unat (expected (rinfo s)))"
  proof (cases "expected (rinfo s) = r")
    case True
    with ok st writes_expected [of ?s1 18 ck ?ch b] show ?thesis by auto
  next
    case False
    with ok have io: "rstate s = IN_ORDER" "expected (rinfo s) < r" by auto
    obtain info where t: "transfer_packet ck IN_ORDER (rinfo s) (rbuf_of (pdu_of ck r 18 ?ch) (\<lambda>_. 0))
        (int (length (pdu_of ck r 18 ?ch))) = Inr (More OUT_OF_ORDER info [pdu_of ck (expected (rinfo s)) 6 []])"
      "expected info = expected (rinfo s)" "outFile info = outFile (rinfo s)"
      using asks_expected [OF N(3) io(2), of 18 ?ch] snd_windowD(5) [OF N(5)] by auto
    let ?s2 = "?s1\<lparr>rstate := OUT_OF_ORDER, rinfo := info,
      to_server := [pdu_of ck (expected (rinfo s)) 6 []] @ to_server ?s1\<rparr>"
    have step2: "proto_step ck b ?s1 ?s2"
      by (rule proto_step.deliver [where p = "pdu_of ck r 18 ?ch" and jk = "\<lambda>_. 0"])
        (use st(2) t(1) io(1) in simp_all)
    then have r2: "proto_reach ck b ?s1 ?s2" by (rule proto_reach.step [OF proto_reach.start])
    obtain lo1 where "num_inv ck b f cap lo1 ?s1" using num_inv_step [OF step inv par] by blast
    then obtain lo2 where inv2: "num_inv ck b f cap lo2 ?s2" using num_inv_step [OF step2 _ par] by blast
    have "expected (rinfo s) < next_seq s" using io(2) resend(2) by (rule less_trans)
    then have "\<exists>t. proto_reach ck b ?s2 t \<and> expected (rinfo t) = expected (rinfo s) + 1 \<and>
      outFile (rinfo t) = outFile (rinfo s) @ file_chunk (unat b) f (unat (expected (rinfo s)))"
      using srej_recovers [OF inv2] st t(2,3) by simp
    with reach_trans [OF _ r2] show ?thesis by blast
  qed
  with reach_trans [OF _ r1] show ?thesis by blast
qed

subsection \<open>Property\<close>

text \<open>
  C11: Loss and recovery.  In any reachable state in which the server waits for room in a full
  window, for every pair of window sizes, let everything in flight be lost, in both directions.
  The timeout then resends the packet \<open>r\<close> of the window whose number is a multiple of the window
  size.  If the client (not in \<open>FLUSH\<close>) reads in order and \<open>r\<close> is not behind \<open>expected\<close>, or it is
  out of order and \<open>r\<close> is the expected packet, the retransmissions (the timeout, or the SREJ it
  provokes and the answer) can bring the next chunk, which the client appends to its file.
  Otherwise the transfer is wedged for good: in every run from there the client's file and number
  stay as they are and the server never hears anything, so it ends by its ten timeouts.
\<close>

theorem lost_window:
  assumes "proto_reach ck b (proto_start ws wc f) s"
    and "0 < ws" "ws < 2 ^ 31" "0 < wc" "wc < 2 ^ 31" "0 < unat b" "unat b \<le> MAXBUF" "length f + 3 < 2 ^ 32"
    and "\<not> ended s" "\<not> finished s" "CircularQueue_is_full (win s)" "rstate s \<noteq> FLUSH"
    and "unat (next_seq s) \<le> unat r + nat ws" "r < next_seq s" "unat r mod nat ws = 0"
  shows "if (if rstate s = IN_ORDER then expected (rinfo s) \<le> r else expected (rinfo s) = r)
    then \<exists>t. proto_reach ck b (all_lost s) t \<and> expected (rinfo t) = expected (rinfo s) + 1 \<and>
      outFile (rinfo t) = outFile (rinfo s) @ file_chunk (unat b) f (unat (expected (rinfo s)))
    else \<forall>t. proto_reach ck b (all_lost s) t \<longrightarrow> expected (rinfo t) = expected (rinfo s) \<and>
      outFile (rinfo t) = outFile (rinfo s) \<and> to_server t = [] \<and> \<not> ended t \<and> \<not> finished t"
proof -
  obtain lo where inv: "num_inv ck b f (nat ws) lo s" using reach_nums [OF assms(1-8)] .
  note N = num_invD [OF inv]
  let ?ch = "file_chunk (unat b) f (unat r)"
  have "unat r < unat (next_seq s)" using assms(14) by (simp add: word_less_nat_alt)
  then have resend: "resend_oldest ck (win s) = Inr [pdu_of ck r 18 ?ch]"
    using resend_full(1) [OF N(5) assms(11)] assms(13,15) N(2) by simp
  show ?thesis
  proof (cases "rstate s = IN_ORDER \<and> expected (rinfo s) \<le> r \<or> rstate s = OUT_OF_ORDER \<and> expected (rinfo s) = r")
    case True
    with timeout_recovers [OF num_inv_all_lost [OF inv] assms(8,6,7)] resend assms(9-11,14) show ?thesis by auto
  next
    case False
    with assms(9-12) resend have
      "wedged ck r ?ch (expected (rinfo s)) (outFile (rinfo s)) (all_lost s)"
      by (cases "rstate s") (auto simp: wedged_def)
    then have "wedged ck r ?ch (expected (rinfo s)) (outFile (rinfo s)) t" if "proto_reach ck b (all_lost s) t" for t
      using wedged_run [OF that] by blast
    with False assms(12) show ?thesis by (cases "rstate s") (auto simp: wedged_def)
  qed
qed

theorem lost_window_witness:
  "\<exists>s t. proto_reach (\<lambda>_. 0) 2 (proto_start 2 3 [7, 8, 9]) s \<and> CircularQueue_is_full (win s) \<and>
     proto_reach (\<lambda>_. 0) 2 (all_lost s) t \<and> outFile (rinfo t) = [7, 8]"
proof -
  have "map_option (\<lambda>s. (ended s, finished s, CircularQueue_is_full (win s), rstate s, next_seq s,
        expected (rinfo s), outFile (rinfo s)))
      (run_actions (\<lambda>_. 0) 2 [Fill, Fill] (proto_start 2 3 [7, 8, 9])) =
      Some (False, False, True, IN_ORDER, 3, 1, [])"
    by code_simp
  then obtain s where s: "proto_reach (\<lambda>_. 0) 2 (proto_start 2 3 [7, 8, 9]) s"
    "(ended s, finished s, CircularQueue_is_full (win s), rstate s, next_seq s, expected (rinfo s),
      outFile (rinfo s)) = (False, False, True, IN_ORDER, 3, 1, [])" by (rule run_result)
  note both = lost_window [OF s(1), of 2]
  have "\<exists>t. proto_reach (\<lambda>_. 0) 2 (all_lost s) t \<and>
      outFile (rinfo t) = outFile (rinfo s) @ file_chunk (unat (2 :: u16)) [7, 8, 9] (unat (expected (rinfo s)))"
    using both s(2) by (auto simp: MAXBUF_def)
  with s show ?thesis by (auto simp: file_chunk_def)
qed

text \<open>
  So the acknowledgements of a window must not all be lost: when the client has written
  everything sent and its RRs do not arrive, nothing ever moves again.
\<close>

lemma lost_acks_wedge:
  assumes "proto_reach ck b (proto_start ws wc f) s"
    and "0 < ws" "ws < 2 ^ 31" "0 < wc" "wc < 2 ^ 31" "0 < unat b" "unat b \<le> MAXBUF" "length f + 3 < 2 ^ 32"
    and "\<not> ended s" "\<not> finished s" "CircularQueue_is_full (win s)" "rstate s = IN_ORDER"
    and "expected (rinfo s) = next_seq s" "proto_reach ck b (all_lost s) t"
  shows "outFile (rinfo t) = outFile (rinfo s) \<and> to_server t = []"
proof -
  obtain lo where inv: "num_inv ck b f (nat ws) lo s" using reach_nums [OF assms(1-8)] .
  note N = num_invD [OF inv]
  from resend_oldest_window [OF N(5)] obtain r where
    r: "resend_oldest ck (win s) = Inr [pdu_of ck r 18 (file_chunk (unat b) f (unat r))]" "unat r < unat (next_seq s)"
    using cq.full_range [OF snd_windowD(1,7) [OF N(5)]] N(2,6) assms(2,11) by fastforce
  then have "wedged ck r (file_chunk (unat b) f (unat r)) (expected (rinfo s)) (outFile (rinfo s)) (all_lost s)"
    using assms(9-13) by (simp add: wedged_def word_less_nat_alt)
  from wedged_run [OF assms(14) this] show ?thesis by (simp add: wedged_def)
qed

end
