(* ===== verification/Names.thy ===== *)
theory Names
  imports Prelude
begin

text \<open>
  \<open>gethostbyname.c\<close>: host name lookup and printable addresses.  Each function hands out a
  pointer to a static buffer of its own; the buffers are fields of the state, and a pointer is
  a value that names its buffer, so that the sharing of the C code shows.  \<open>getaddrinfo\<close> and
  \<open>inet_ntop\<close> of the C library are parameters; what goes to standard output is the field
  \<open>stdout\<close>, standard error is left out.
\<close>

subsection \<open>The library and the static buffers\<close>

datatype family = AF_INET | AF_INET6

record hints =
  ai_flags :: int
  ai_family :: family

text \<open>
  \<open>getaddrinfo\<close> gives an error code and the addresses found, in network byte order;
  \<open>inet_ntop\<close> the text of an address.
\<close>

record libc =
  getaddrinfo :: "byte list \<Rightarrow> hints \<Rightarrow> int \<times> byte list list"
  inet_ntop :: "family \<Rightarrow> byte list \<Rightarrow> byte list"

abbreviation INET6_ADDRSTRLEN :: nat where
  "INET6_ADDRSTRLEN \<equiv> 46"

text \<open>
  The three statics: \<open>ipAddress\<close> of \<open>getIPAddress46\<close>, \<open>ipString46\<close> of \<open>getIPAddressString46\<close>
  and \<open>ipString\<close> of \<open>ipAddressToString\<close>.
\<close>

record names =
  ipAddress :: "byte list"
  ipString46 :: "byte list"
  ipString :: "byte list"
  stdout :: "byte list"

definition zero_names :: names where
  "zero_names = \<lparr>ipAddress = replicate INET6_ADDRSTRLEN 0, ipString46 = replicate INET6_ADDRSTRLEN 0,
     ipString = replicate INET6_ADDRSTRLEN 0, stdout = []\<rparr>"

text \<open>A non-null \<open>unsigned char *\<close>: the static buffer, or memory of the caller by its content.\<close>

datatype byte_ptr = StaticAddress | Memory "byte list"

fun bytes_at :: "byte_ptr \<Rightarrow> 'z names_scheme \<Rightarrow> byte list" where
  "bytes_at StaticAddress w = ipAddress w"
| "bytes_at (Memory b) w = b"

datatype text_ptr = StaticText46 | StaticText

fun text_at :: "text_ptr \<Rightarrow> 'z names_scheme \<Rightarrow> byte list" where
  "text_at StaticText46 w = c_string (ipString46 w)"
| "text_at StaticText w = c_string (ipString w)"

definition printf :: "byte list \<Rightarrow> ('z names_scheme, unit) run" where
  "printf t w = (Inr (), w\<lparr>stdout := stdout w @ t\<rparr>)"

text \<open>A \<open>struct sockaddr_in\<close> or \<open>sockaddr_in6\<close>: port and address in network order.\<close>

record sockaddr =
  sin_port :: u16
  sin_addr :: "byte list"

definition addr_len :: "family \<Rightarrow> nat" where
  "addr_len f = (if f = AF_INET then 4 else 16)"

subsection \<open>Lookup\<close>

text \<open>
  The pointer returned and the new content of the address field of the caller's struct.
  \<open>24\<close> is \<open>AI_V4MAPPED | AI_ALL\<close>.
\<close>

definition getIPAddress46 ::
    "libc \<Rightarrow> byte list \<Rightarrow> byte list \<Rightarrow> family \<Rightarrow> ('z names_scheme, byte_ptr option \<times> byte list) run" where
  "getIPAddress46 lc hostName addressField addressFamily w =
     (let hints = (if addressFamily = AF_INET then \<lparr>ai_flags = 0, ai_family = AF_INET\<rparr>
                   else \<lparr>ai_flags = 24, ai_family = AF_INET6\<rparr>);
          (addrError, hostInfo) = getaddrinfo lc hostName hints
      in if addrError \<noteq> 0 then (Inr (None, addressField), w)
         else case hostInfo of
           [] \<Rightarrow> (Inl (Fault NullPointer), w)
         | ai_addr # _ \<Rightarrow>
             bnd (lift (to_stop (read_bytes ai_addr (int (addr_len addressFamily))))) (\<lambda>bytes.
             bnd (lift (to_stop (memcpy_at INET6_ADDRSTRLEN (ipAddress w) 0 bytes))) (\<lambda>static v.
               (Inr (Some StaticAddress, bytes), v\<lparr>ipAddress := static\<rparr>))) w)"

text \<open>A null struct is replaced by a local one, whose address field is lost on return.\<close>

definition gethostbyname4 ::
    "libc \<Rightarrow> byte list \<Rightarrow> sockaddr option \<Rightarrow> ('z names_scheme, byte_ptr option \<times> sockaddr option) run" where
  "gethostbyname4 lc hostName aSockaddr =
     bnd (getIPAddress46 lc hostName (case aSockaddr of None \<Rightarrow> [] | Some s \<Rightarrow> sin_addr s) AF_INET) (\<lambda>(p, a).
       ret (p, map_option (\<lambda>s. s\<lparr>sin_addr := a\<rparr>) aSockaddr))"

definition gethostbyname6 ::
    "libc \<Rightarrow> byte list \<Rightarrow> sockaddr option \<Rightarrow> ('z names_scheme, byte_ptr option \<times> sockaddr option) run" where
  "gethostbyname6 lc hostName aSockaddr6 =
     bnd (getIPAddress46 lc hostName (case aSockaddr6 of None \<Rightarrow> [] | Some s \<Rightarrow> sin_addr s) AF_INET6) (\<lambda>(p, a).
       ret (p, map_option (\<lambda>s. s\<lparr>sin_addr := a\<rparr>) aSockaddr6))"

subsection \<open>Printable addresses\<close>

text \<open>
  \<open>inet_ntop\<close> into a static of 46 bytes; a text that does not fit leaves it as it was
  (\<open>ENOSPC\<close>, which the code does not look at).
\<close>

definition ntop_into :: "libc \<Rightarrow> family \<Rightarrow> byte list \<Rightarrow> byte list \<Rightarrow> byte list" where
  "ntop_into lc f addr buf =
     (let t = inet_ntop lc f addr @ [0]
      in if length t \<le> INET6_ADDRSTRLEN then t @ drop (length t) buf else buf)"

definition getIPAddressString46 ::
    "libc \<Rightarrow> byte_ptr option \<Rightarrow> family \<Rightarrow> ('z names_scheme, text_ptr) run" where
  "getIPAddressString46 lc ip addressFamily w =
     (case ip of
        Some p \<Rightarrow>
          bnd (lift (to_stop (read_bytes (bytes_at p w) (int (addr_len addressFamily))))) (\<lambda>bytes v.
            (Inr StaticText46, v\<lparr>ipString46 := ntop_into lc addressFamily bytes (ipString46 v)\<rparr>)) w
      | None \<Rightarrow>
          bnd (lift (to_stop (memcpy_at INET6_ADDRSTRLEN (ipString46 w) 0 (str ''(IP not found)'' @ [0]))))
            (\<lambda>s v. (Inr StaticText46, v\<lparr>ipString46 := s\<rparr>)) w)"

definition getIPAddressString4 :: "libc \<Rightarrow> byte_ptr option \<Rightarrow> ('z names_scheme, text_ptr) run" where
  "getIPAddressString4 lc ip = getIPAddressString46 lc ip AF_INET"

definition getIPAddressString6 :: "libc \<Rightarrow> byte_ptr option \<Rightarrow> ('z names_scheme, text_ptr) run" where
  "getIPAddressString6 lc ip = getIPAddressString46 lc ip AF_INET6"

definition ipAddressToString :: "libc \<Rightarrow> sockaddr \<Rightarrow> ('z names_scheme, text_ptr) run" where
  "ipAddressToString lc ipAddressStruct w =
     bnd (lift (to_stop (read_bytes (sin_addr ipAddressStruct) 16))) (\<lambda>bytes v.
       (Inr StaticText, v\<lparr>ipString := ntop_into lc AF_INET6 bytes (ipString v)\<rparr>)) w"

definition printIPInfo :: "libc \<Rightarrow> sockaddr \<Rightarrow> ('z names_scheme, unit) run" where
  "printIPInfo lc ipAddressStruct =
     bnd (ipAddressToString lc ipAddressStruct) (\<lambda>s w.
       printf (str ''IP: '' @ text_at s w @ str '' Port: '' @
         print_int (uint (ntohs (sin_port ipAddressStruct))) @ [10]) w)"

subsection \<open>The test functions\<close>

definition gethostbyname_test_lookup :: "libc \<Rightarrow> byte list \<Rightarrow> ('z names_scheme, unit) run" where
  "gethostbyname_test_lookup lc hostname =
     bnd (gethostbyname6 lc hostname None) (\<lambda>(ip6, _).
     bnd (case ip6 of
            None \<Rightarrow> ret ()
          | Some _ \<Rightarrow> bnd (getIPAddressString6 lc ip6) (\<lambda>s w.
              printf (str ''IPV6 Host: '' @ hostname @ str '' IP: '' @ text_at s w @ str '' '' @ [10]) w)) (\<lambda>_.
     bnd (gethostbyname4 lc hostname None) (\<lambda>(ip4, _).
     bnd (case ip4 of
            None \<Rightarrow> ret ()
          | Some _ \<Rightarrow> bnd (getIPAddressString4 lc ip4) (\<lambda>s w.
              printf (str ''IPv4 Host: '' @ hostname @ str '' IP: '' @ text_at s w @ str '' '' @ [10]) w)) (\<lambda>_.
       printf [10]))))"

definition gethostbyname_test :: "libc \<Rightarrow> ('z names_scheme, unit) run" where
  "gethostbyname_test lc =
     bnd (gethostbyname_test_lookup lc (str ''www.google.com'')) (\<lambda>_.
     bnd (gethostbyname_test_lookup lc (str ''ipv6.google.com'')) (\<lambda>_.
     bnd (gethostbyname_test_lookup lc (str ''my.calpoly.edu'')) (\<lambda>_.
       gethostbyname_test_lookup lc (str ''does not exist''))))"

subsection \<open>Documented behaviour of the library\<close>

text \<open>
  A successful \<open>getaddrinfo\<close> gives at least one address, of the family asked for;
  \<open>inet_ntop\<close> writes at most \<open>INET6_ADDRSTRLEN\<close> bytes with the terminating zero.
\<close>

abbreviation hints_for :: "family \<Rightarrow> hints" where
  "hints_for f \<equiv> (if f = AF_INET then \<lparr>ai_flags = 0, ai_family = AF_INET\<rparr> else \<lparr>ai_flags = 24, ai_family = AF_INET6\<rparr>)"

definition found :: "libc \<Rightarrow> byte list \<Rightarrow> family \<Rightarrow> bool" where
  "found lc host f \<longleftrightarrow> fst (getaddrinfo lc host (hints_for f)) = 0"

definition first_address :: "libc \<Rightarrow> byte list \<Rightarrow> family \<Rightarrow> byte list" where
  "first_address lc host f = hd (snd (getaddrinfo lc host (hints_for f)))"

definition libc_ok :: "libc \<Rightarrow> bool" where
  "libc_ok lc \<longleftrightarrow>
     (\<forall>host f. found lc host f \<longrightarrow> snd (getaddrinfo lc host (hints_for f)) \<noteq> [] \<and>
        length (first_address lc host f) = addr_len f) \<and>
     (\<forall>f a. length (inet_ntop lc f a) < INET6_ADDRSTRLEN \<and> 0 \<notin> set (inet_ntop lc f a))"

lemma libc_okD:
  assumes "libc_ok lc"
  shows "found lc host f \<Longrightarrow> \<exists>rest. getaddrinfo lc host (hints_for f) = (0, first_address lc host f # rest)"
    "found lc host f \<Longrightarrow> length (first_address lc host f) = addr_len f"
    "length (inet_ntop lc f a) < INET6_ADDRSTRLEN" "0 \<notin> set (inet_ntop lc f a)"
proof -
  show "\<exists>rest. getaddrinfo lc host (hints_for f) = (0, first_address lc host f # rest)" if "found lc host f"
  proof -
    obtain e xs where g: "getaddrinfo lc host (hints_for f) = (e, xs)" by fastforce
    then have "e = 0" "xs \<noteq> []" using assms that unfolding libc_ok_def found_def by fastforce+
    with g show ?thesis by (cases xs) (simp_all add: first_address_def)
  qed
qed (use assms in \<open>auto simp: libc_ok_def\<close>)

text \<open>A library to evaluate with: every host but the empty one has the address of its letters.\<close>

definition sample_libc :: libc where
  "sample_libc =
     \<lparr>getaddrinfo = (\<lambda>host h. if host = [] then (-2, [])
        else (0, [take (addr_len (ai_family h)) (host @ replicate 16 1)])),
      inet_ntop = (\<lambda>_ a. map (\<lambda>c. if c = 0 then 48 else c) (take 4 a))\<rparr>"

lemma sample_libc_ok: "libc_ok sample_libc"
proof -
  have "0 \<notin> set (map (\<lambda>c :: byte. if c = 0 then 48 else c) xs)" for xs by auto
  then show ?thesis
    by (auto simp: libc_ok_def sample_libc_def found_def first_address_def addr_len_def split: if_splits)
qed

subsection \<open>What lookups and texts do to the statics\<close>

lemma getIPAddress46_eq:
  assumes ok: "libc_ok lc"
  shows "getIPAddress46 lc host fld f w =
    (if found lc host f
     then (Inr (Some StaticAddress, first_address lc host f),
           w\<lparr>ipAddress := first_address lc host f @ drop (addr_len f) (ipAddress w)\<rparr>)
     else (Inr (None, fld), w))"
proof (cases "found lc host f")
  case True
  obtain rest where g: "getaddrinfo lc host (hints_for f) = (0, first_address lc host f # rest)"
    using libc_okD(1) [OF ok True] by blast
  have len: "length (first_address lc host f) = addr_len f" "addr_len f \<le> 46"
    using libc_okD(2) [OF ok True] by (simp_all add: addr_len_def)
  show ?thesis using True g len
    by (simp add: getIPAddress46_def read_bytes_def memcpy_at_def bnd_def lift_def)
next
  case False
  obtain e xs where g: "getaddrinfo lc host (hints_for f) = (e, xs)" by fastforce
  with False have "e \<noteq> 0" by (simp add: found_def)
  with False g show ?thesis by (simp add: getIPAddress46_def)
qed

lemma getIPAddressString46_eq:
  assumes ok: "libc_ok lc" and "addr_len f \<le> length (bytes_at p w)"
  shows "\<exists>buf. getIPAddressString46 lc (Some p) f w = (Inr StaticText46, w\<lparr>ipString46 := buf\<rparr>) \<and>
    c_string buf = inet_ntop lc f (take (addr_len f) (bytes_at p w))"
proof -
  let ?t = "inet_ntop lc f (take (addr_len f) (bytes_at p w))"
  have "ntop_into lc f (take (addr_len f) (bytes_at p w)) (ipString46 w) =
      ?t @ [0] @ drop (length ?t + 1) (ipString46 w)"
    using libc_okD(3) [OF ok, of f "take (addr_len f) (bytes_at p w)"] by (simp add: ntop_into_def Let_def)
  moreover have "c_string (?t @ [0] @ drop (length ?t + 1) (ipString46 w)) = ?t"
    by (rule c_string_no_zero) (rule libc_okD(4) [OF ok])
  ultimately show ?thesis using assms(2)
    by (intro exI [of _ "?t @ [0] @ drop (length ?t + 1) (ipString46 w)"])
       (simp add: getIPAddressString46_def read_bytes_def)
qed

subsection \<open>Properties\<close>

text \<open>
  \<open>gethostbyname6\<close> returns \<open>NULL\<close> and changes nothing when the host is not found;
  otherwise it stores the first address found, all 16 bytes of it, in the caller's struct and
  in its static buffer, to which it returns a pointer; the port of the struct is left alone.
\<close>

lemma lookup_result:
  assumes "libc_ok lc"
  shows "gethostbyname6 lc host sa w =
    (if found lc host AF_INET6
     then (Inr (Some StaticAddress, map_option (\<lambda>s. s\<lparr>sin_addr := first_address lc host AF_INET6\<rparr>) sa),
           w\<lparr>ipAddress := first_address lc host AF_INET6 @ drop 16 (ipAddress w)\<rparr>)
     else (Inr (None, sa), w))"
  by (cases sa) (simp_all add: gethostbyname6_def bnd_def getIPAddress46_eq [OF assms] addr_len_def)

text \<open>
  C37: The results are shared: the pointer a first lookup returned shows the address of a second
  one after it, and the texts of both print as the second host's address.
\<close>

theorem two_lookups_alias:
  assumes "libc_ok lc" "found lc host1 AF_INET6" "found lc host2 AF_INET6"
  shows "\<exists>w'. bnd (gethostbyname6 lc host1 None) (\<lambda>(p, _).
      bnd (gethostbyname6 lc host2 None) (\<lambda>(q, _).
      bnd (getIPAddressString6 lc p) (\<lambda>s.
      bnd (getIPAddressString6 lc q) (\<lambda>t. ret (p, q, s, t))))) w =
    (Inr (Some StaticAddress, Some StaticAddress, StaticText46, StaticText46), w') \<and>
    take 16 (bytes_at StaticAddress w') = first_address lc host2 AF_INET6 \<and>
    text_at StaticText46 w' = inet_ntop lc AF_INET6 (first_address lc host2 AF_INET6)"
proof -
  let ?a = "first_address lc host1 AF_INET6" and ?b = "first_address lc host2 AF_INET6"
  have len: "length ?a = 16" "length ?b = 16"
    using libc_okD(2) [OF assms(1)] assms(2,3) by (simp_all add: addr_len_def)
  let ?w = "w\<lparr>ipAddress := ?b @ drop 16 (?a @ drop 16 (ipAddress w))\<rparr>"
  have big: "addr_len AF_INET6 \<le> length (bytes_at StaticAddress v)" if "ipAddress v = ipAddress ?w" for v
    using that len by (simp add: addr_len_def)
  obtain b1 where s1: "getIPAddressString46 lc (Some StaticAddress) AF_INET6 ?w =
      (Inr StaticText46, ?w\<lparr>ipString46 := b1\<rparr>)"
    using getIPAddressString46_eq [OF assms(1) big [OF refl]] by blast
  have "ipAddress (?w\<lparr>ipString46 := b1\<rparr>) = ipAddress ?w" by simp
  from getIPAddressString46_eq [OF assms(1) big [OF this]] obtain b2 where
    s2: "getIPAddressString46 lc (Some StaticAddress) AF_INET6 (?w\<lparr>ipString46 := b1\<rparr>) =
      (Inr StaticText46, ?w\<lparr>ipString46 := b1\<rparr>\<lparr>ipString46 := b2\<rparr>)"
    "c_string b2 = inet_ntop lc AF_INET6 (take 16 (ipAddress ?w))" by (auto simp: addr_len_def)
  show ?thesis
    using assms(2,3) len s1 s2
    by (simp add: bnd_def gethostbyname6_def getIPAddress46_eq [OF assms(1)] getIPAddressString6_def addr_len_def)
qed

theorem two_lookups_alias_witness:
  "\<exists>w'. bnd (gethostbyname6 sample_libc [65, 66, 67, 68] None) (\<lambda>(p, _).
      bnd (gethostbyname6 sample_libc [69, 70, 71, 72] None) (\<lambda>(q, _).
      bnd (getIPAddressString6 sample_libc p) (\<lambda>s.
      bnd (getIPAddressString6 sample_libc q) (\<lambda>t. ret (p, q, s, t))))) zero_names =
    (Inr (Some StaticAddress, Some StaticAddress, StaticText46, StaticText46), w') \<and>
    text_at StaticText46 w' = [69, 70, 71, 72]"
proof -
  have "found sample_libc [65, 66, 67, 68] AF_INET6" "found sample_libc [69, 70, 71, 72] AF_INET6"
    "inet_ntop sample_libc AF_INET6 (first_address sample_libc [69, 70, 71, 72] AF_INET6) = [69, 70, 71, 72]"
    by (simp_all add: found_def sample_libc_def first_address_def addr_len_def)
  with two_lookups_alias [OF sample_libc_ok this(1,2), of zero_names] show ?thesis by auto
qed

end
