(* ===== verification/Tcp.thy ===== *)
theory Tcp
  imports Platform Names
begin

text \<open>
  The TCP side of the repository: the three TCP functions of \<open>networks.c\<close>, \<open>safeSend\<close> and
  \<open>safeRecv\<close> of \<open>safeUtil.c\<close>, and the test programs \<open>myClient.c\<close> and \<open>myServer.c\<close>.  A
  process's world extends the state of \<open>Names\<close> by its descriptors, the answers of the system
  calls, the connections that arrive, its standard input and what it handed to \<open>send\<close>.
\<close>

subsection \<open>World\<close>

text \<open>
  \<open>kernel_port\<close>: the port (network order) \<open>getsockname\<close> reports for the one bound;
  \<open>clients\<close>: the connections \<open>accept\<close> takes in turn, \<open>None\<close> a failing call;
  \<open>inbound\<close>: the data that reaches the connected socket, in pieces as they arrive, \<open>None\<close> a
  receive error, \<open>Some []\<close> the end of the stream; \<open>send_value\<close>: what \<open>send\<close> returns.
\<close>

record tcp_world = names +
  tcp_fds :: "nat list"
  socket_works :: bool
  bind_works :: bool
  getsockname_works :: bool
  listen_works :: bool
  connect_works :: "byte list \<Rightarrow> u16 \<Rightarrow> bool"
  kernel_port :: "u16 \<Rightarrow> u16"
  clients :: "(byte list \<times> u16) option list"
  inbound :: "byte list option list"
  send_value :: "byte list \<Rightarrow> int"
  stdin :: "byte list"
  tcp_sent :: "(int \<times> byte list) list"

type_synonym 'a tcp = "(tcp_world, 'a) run"

definition tcp_socket :: "int tcp" where
  "tcp_socket w =
     (if socket_works w
      then (let n = lowest_free (tcp_fds w) in (Inr (int n), w\<lparr>tcp_fds := n # tcp_fds w\<rparr>))
      else (Inr (-1), w))"

definition tcp_close :: "int \<Rightarrow> unit tcp" where
  "tcp_close s w = (Inr (), w\<lparr>tcp_fds := filter (\<lambda>i. int i \<noteq> s) (tcp_fds w)\<rparr>)"

definition tcp_open :: "tcp_world \<Rightarrow> int \<Rightarrow> bool" where
  "tcp_open w s \<longleftrightarrow> 0 \<le> s \<and> nat s \<in> set (tcp_fds w)"

text \<open>A condition on the world decides whether the program goes on or exits.\<close>

definition exit_unless :: "(tcp_world \<Rightarrow> bool) \<Rightarrow> int \<Rightarrow> unit tcp" where
  "exit_unless c n w = (if c w then (Inr (), w) else (Inl (Exited n), w))"

subsection \<open>\<open>networks.c\<close>\<close>

definition tcpServerSetup :: "int \<Rightarrow> int tcp" where
  "tcpServerSetup serverPort =
     bnd tcp_socket (\<lambda>mainServerSocket.
     if mainServerSocket < 0 then stop_with (Exited 1)
     else bnd (exit_unless bind_works (-1)) (\<lambda>_.
          bnd (exit_unless getsockname_works (-1)) (\<lambda>_.
          bnd (exit_unless listen_works (-1)) (\<lambda>_ w.
          bnd (printf (str ''Server Port Number '' @
                 print_int (uint (ntohs (kernel_port w (htons (word_of_int serverPort))))) @ str '' '' @ [10]))
            (\<lambda>_. ret mainServerSocket) w))))"

definition tcpAccept :: "libc \<Rightarrow> int \<Rightarrow> bool \<Rightarrow> int tcp" where
  "tcpAccept lc mainServerSocket debugFlag w =
     (if \<not> tcp_open w mainServerSocket then (Inl (Exited (-1)), w)
      else case clients w of
        [] \<Rightarrow> (Inl Blocked, w)
      | None # cs \<Rightarrow> (Inl (Exited (-1)), w\<lparr>clients := cs\<rparr>)
      | Some (ip, port) # cs \<Rightarrow>
          (let n = lowest_free (tcp_fds w); v = w\<lparr>clients := cs, tcp_fds := n # tcp_fds w\<rparr>
           in if debugFlag
              then bnd (getIPAddressString6 lc (Some (Memory ip))) (\<lambda>s u.
                   bnd (printf (str ''Client accepted.  Client IP: '' @ text_at s u @
                          str '' Client Port Number: '' @ print_int (uint (ntohs port)) @ [10]))
                     (\<lambda>_. ret (int n)) u) v
              else (Inr (int n), v)))"

definition tcpClientSetup :: "libc \<Rightarrow> byte list \<Rightarrow> byte list \<Rightarrow> bool \<Rightarrow> int tcp" where
  "tcpClientSetup lc serverName serverPort debugFlag =
     bnd tcp_socket (\<lambda>socket_num.
     if socket_num < 0 then stop_with (Exited (-1))
     else bnd (gethostbyname6 lc serverName
                 (Some \<lparr>sin_port = htons (word_of_int (atoi serverPort)), sin_addr = replicate 16 0\<rparr>))
            (\<lambda>(ipAddress, sa). case (ipAddress, sa) of
               (Some p, Some serverAddress) \<Rightarrow>
                 bnd (exit_unless (\<lambda>w. connect_works w (sin_addr serverAddress) (sin_port serverAddress)) (-1)) (\<lambda>_.
                 if debugFlag
                 then bnd (getIPAddressString6 lc (Some p)) (\<lambda>s u.
                      bnd (printf (str ''Connected to '' @ serverName @ str '' IP: '' @ text_at s u @
                             str '' Port Number: '' @ print_int (atoi serverPort) @ [10]))
                        (\<lambda>_. ret socket_num) u)
                 else ret socket_num)
             | _ \<Rightarrow> stop_with (Exited (-1))))"

subsection \<open>\<open>safeUtil.c\<close>\<close>

text \<open>
  A receive takes at most \<open>len\<close> bytes of the piece that has arrived and leaves the rest; a
  send logs the bytes the call accepted.
\<close>

definition tcp_recv :: "int \<Rightarrow> nat \<Rightarrow> (byte list \<times> int) tcp" where
  "tcp_recv s len w =
     (if \<not> tcp_open w s then (Inr ([], -1), w)
      else case inbound w of
        [] \<Rightarrow> (Inl Blocked, w)
      | None # ps \<Rightarrow> (Inr ([], -1), w\<lparr>inbound := ps\<rparr>)
      | Some d # ps \<Rightarrow>
          (Inr (take len d, int (length (take len d))),
           w\<lparr>inbound := (if length d \<le> len then ps else Some (drop len d) # ps)\<rparr>))"

definition tcp_send :: "int \<Rightarrow> byte list \<Rightarrow> int tcp" where
  "tcp_send s m w =
     (if \<not> tcp_open w s then (Inr (-1), w)
      else (let n = send_value w m in (Inr n, w\<lparr>tcp_sent := tcp_sent w @ [(s, take (nat n) m)]\<rparr>)))"

definition safeRecv :: "int \<Rightarrow> nat \<Rightarrow> (byte list \<times> int) tcp" where
  "safeRecv socketNum len =
     bnd (tcp_recv socketNum len) (\<lambda>(buf, returnValue).
       if returnValue < 0 then stop_with (Exited (-1)) else ret (buf, returnValue))"

definition safeSend :: "int \<Rightarrow> byte list \<Rightarrow> int tcp" where
  "safeSend socketNum buf =
     bnd (tcp_send socketNum buf) (\<lambda>returnValue.
       if returnValue < 0 then stop_with (Exited (-1)) else ret returnValue)"

subsection \<open>\<open>myClient.c\<close>\<close>

definition TCP_MAXBUF :: nat where
  "TCP_MAXBUF = 1024"

text \<open>\<open>getchar\<close> at the end of the input is \<open>EOF\<close>, \<open>-1\<close>; stored in a \<open>char\<close> it is the byte 255.\<close>

fun c_getchar :: "byte list \<Rightarrow> byte \<times> byte list" where
  "c_getchar [] = (255, [])"
| "c_getchar (c # cs) = (c, cs)"

function read_loop :: "byte list \<Rightarrow> nat \<Rightarrow> byte \<Rightarrow> byte list \<Rightarrow> (byte list \<times> nat \<times> byte list) res" where
  "read_loop buffer inputLen aChar input =
     (if inputLen < TCP_MAXBUF - 1 \<and> aChar \<noteq> 10
      then case c_getchar input of (c, rest) \<Rightarrow>
             if c \<noteq> 10
             then rbind (memcpy_at TCP_MAXBUF buffer inputLen [c]) (\<lambda>buffer1.
                    read_loop buffer1 (inputLen + 1) c rest)
             else read_loop buffer inputLen c rest
      else Inr (buffer, inputLen, input))"
  by pat_completeness auto
termination
  by (relation "measures [\<lambda>(b, n, c, i). TCP_MAXBUF - 1 - n, \<lambda>(b, n, c, i). if c = 10 then 0 else 1]")
     (auto split: prod.splits)

declare read_loop.simps [simp del]

definition readFromStdin :: "(byte list \<times> int) tcp" where
  "readFromStdin =
     bnd (printf (str ''Enter data: '')) (\<lambda>_ w.
     bnd (lift (to_stop (read_loop [0] 0 0 (stdin w)))) (\<lambda>(buffer, inputLen, rest).
     bnd (lift (to_stop (memcpy_at TCP_MAXBUF buffer inputLen [0]))) (\<lambda>buffer1 v.
       (Inr (buffer1, int inputLen + 1), v\<lparr>stdin := rest\<rparr>))) w)"

definition sendToServer :: "int \<Rightarrow> unit tcp" where
  "sendToServer socketNum =
     bnd readFromStdin (\<lambda>(sendBuf, sendLen).
     bnd (printf (str ''read: '' @ c_string sendBuf @ str '' string len: '' @ print_int sendLen @
            str '' (including null)'' @ [10])) (\<lambda>_.
     bnd (lift (to_stop (read_bytes sendBuf sendLen))) (\<lambda>m.
     bnd (safeSend socketNum m) (\<lambda>sent.
     if sent < 0 then stop_with (Exited (-1))
     else printf (str ''Amount of data sent is: '' @ print_int sent @ [10])))))"

definition myClient_checkArgs :: "byte list list \<Rightarrow> unit tcp" where
  "myClient_checkArgs argv =
     (if length argv \<noteq> 3
      then bnd (printf (str ''usage: '' @ argv ! 0 @ str '' host-name port-number '' @ [10]))
             (\<lambda>_. stop_with (Exited 1))
      else ret ())"

definition myClient_main :: "libc \<Rightarrow> byte list list \<Rightarrow> int tcp" where
  "myClient_main lc argv =
     bnd (myClient_checkArgs argv) (\<lambda>_.
     bnd (tcpClientSetup lc (argv ! 1) (argv ! 2) True) (\<lambda>socketNum.
     bnd (sendToServer socketNum) (\<lambda>_.
     bnd (tcp_close socketNum) (\<lambda>_. ret 0))))"

subsection \<open>\<open>myServer.c\<close>\<close>

text \<open>
  \<open>%s\<close> of an array of \<open>cap\<close> bytes of which only the first \<open>length d\<close> were written: without a
  zero among them the read goes on into bytes never written, or out of the array.
\<close>

definition text_in :: "nat \<Rightarrow> byte list \<Rightarrow> byte list res" where
  "text_in cap d =
     (if 0 \<in> set d then Inr (c_string d)
      else Inl (if length d < cap then Uninitialised else OutOfBounds))"

definition recvFromClient :: "int \<Rightarrow> unit tcp" where
  "recvFromClient clientSocket =
     bnd (safeRecv clientSocket TCP_MAXBUF) (\<lambda>(dataBuffer, messageLen).
     if messageLen < 0 then stop_with (Exited (-1))
     else if messageLen > 0
     then bnd (lift (to_stop (text_in TCP_MAXBUF dataBuffer))) (\<lambda>s.
          printf (str ''Message received, length: '' @ print_int messageLen @ str '' Data: '' @ s @ [10]))
     else printf (str ''Connection closed by other side'' @ [10]))"

definition myServer_checkArgs :: "byte list list \<Rightarrow> int tcp" where
  "myServer_checkArgs argv =
     (if length argv > 2 then stop_with (Exited (-1))
      else if length argv = 2 then ret (atoi (argv ! 1))
      else ret 0)"

definition myServer_main :: "libc \<Rightarrow> byte list list \<Rightarrow> int tcp" where
  "myServer_main lc argv =
     bnd (myServer_checkArgs argv) (\<lambda>portNumber.
     bnd (tcpServerSetup portNumber) (\<lambda>mainServerSocket.
     bnd (tcpAccept lc mainServerSocket True) (\<lambda>clientSocket.
     bnd (recvFromClient clientSocket) (\<lambda>_.
     bnd (tcp_close clientSocket) (\<lambda>_.
     bnd (tcp_close mainServerSocket) (\<lambda>_. ret 0))))))"

subsection \<open>Reading a line\<close>

text \<open>
  The reference: the input, continued by the byte 255 for ever, up to the first newline or to
  1023 bytes.  \<open>line_of\<close> is what is read, \<open>after_line\<close> what is left.
\<close>

definition line_of :: "nat \<Rightarrow> byte list \<Rightarrow> byte list" where
  "line_of n input = takeWhile (\<lambda>c. c \<noteq> 10) (take n (input @ replicate n 255))"

fun after_line :: "nat \<Rightarrow> byte list \<Rightarrow> byte list" where
  "after_line 0 input = input"
| "after_line (Suc n) [] = []"
| "after_line (Suc n) (c # cs) = (if c = 10 then cs else after_line n cs)"

lemma line_of_simps [simp]:
  "line_of 0 input = []" "line_of (Suc n) [] = 255 # line_of n []"
  "line_of (Suc n) (c # cs) = (if c = 10 then [] else c # line_of n cs)"
proof -
  have "cs @ replicate (Suc n) 255 = (cs @ replicate n 255) @ [255 :: byte]"
    by (simp add: replicate_append_same)
  then have "take n (cs @ replicate (Suc n) 255) = take n (cs @ replicate n (255 :: byte))"
    by (simp del: replicate_Suc)
  then show "line_of (Suc n) (c # cs) = (if c = 10 then [] else c # line_of n cs)"
    by (simp add: line_of_def del: replicate_Suc)
  show "line_of 0 input = []" "line_of (Suc n) [] = 255 # line_of n []"
    by (simp_all add: line_of_def)
qed

lemma after_line_Nil [simp]: "after_line n [] = []"
  by (cases n) simp_all

lemma line_of_line:
  "10 \<notin> set m \<Longrightarrow> length m < n \<Longrightarrow> line_of n (m @ 10 # rest) = m \<and> after_line n (m @ 10 # rest) = rest"
proof (induction m arbitrary: n)
  case Nil
  then show ?case by (cases n) simp_all
next
  case (Cons c m)
  then show ?case by (cases n) auto
qed

lemma line_of_eof: "10 \<notin> set m \<Longrightarrow> length m \<le> n \<Longrightarrow> line_of n m = m @ replicate (n - length m) 255"
proof (induction m arbitrary: n)
  case Nil
  then show ?case by (induction n) simp_all
next
  case (Cons c m)
  then show ?case by (cases n) auto
qed

lemma length_line_of: "length (line_of n input) \<le> n"
  unfolding line_of_def by (rule order_trans [OF length_takeWhile_le]) simp

lemma read_loop_stop:
  "\<not> (inputLen < TCP_MAXBUF - 1 \<and> aChar \<noteq> 10) \<Longrightarrow>
   read_loop buffer inputLen aChar input = Inr (buffer, inputLen, input)"
  by (subst read_loop.simps) auto

lemma read_loop_line:
  assumes "inputLen + n = TCP_MAXBUF - 1" "aChar \<noteq> 10" "inputLen \<le> length buffer" "length buffer \<le> TCP_MAXBUF"
  shows "\<exists>tail. read_loop buffer inputLen aChar input =
      Inr (take inputLen buffer @ line_of n input @ tail, inputLen + length (line_of n input), after_line n input) \<and>
    inputLen + length (line_of n input) + length tail \<le> TCP_MAXBUF"
  using assms
proof (induction n arbitrary: buffer inputLen aChar input)
  case 0
  then show ?case
    by (intro exI [of _ "drop inputLen buffer"]) (simp add: read_loop_stop)
next
  case (Suc n)
  obtain c rest where g: "c_getchar input = (c, rest)" by (cases "c_getchar input")
  have lt: "inputLen < TCP_MAXBUF - 1" using Suc.prems(1) by simp
  show ?case
  proof (cases "c = 10")
    case True
    then have i: "input = 10 # rest" using g by (cases input) auto
    have "read_loop buffer inputLen aChar input = read_loop buffer inputLen 10 rest"
      using lt Suc.prems(2) g True by (subst read_loop.simps) simp
    also have "\<dots> = Inr (buffer, inputLen, rest)" by (simp add: read_loop_stop)
    finally show ?thesis using Suc.prems(3,4) i
      by (intro exI [of _ "drop inputLen buffer"]) simp
  next
    case False
    let ?b = "take inputLen buffer @ [c] @ drop (inputLen + 1) buffer"
    have m: "memcpy_at TCP_MAXBUF buffer inputLen [c] = Inr ?b" using lt by (simp add: memcpy_at_def)
    have step: "read_loop buffer inputLen aChar input = read_loop ?b (inputLen + 1) c rest"
      using lt Suc.prems(2) g False m by (subst read_loop.simps) simp
    have "line_of (Suc n) input = c # line_of n rest" "after_line (Suc n) input = after_line n rest"
      using g False by (cases input; auto; fail)+
    moreover have "take (inputLen + 1) ?b = take inputLen buffer @ [c]" using Suc.prems(3) by simp
    moreover have "inputLen + 1 + n = TCP_MAXBUF - 1" "inputLen + 1 \<le> length ?b" "length ?b \<le> TCP_MAXBUF"
      using Suc.prems lt by auto
    from Suc.IH [OF this(1) False this(2,3), of rest] obtain tail where
      "read_loop ?b (inputLen + 1) c rest = Inr (take (inputLen + 1) ?b @ line_of n rest @ tail,
         inputLen + 1 + length (line_of n rest), after_line n rest)"
      "inputLen + 1 + length (line_of n rest) + length tail \<le> TCP_MAXBUF" by blast
    ultimately show ?thesis unfolding step by (intro exI [of _ tail]) simp
  qed
qed

text \<open>
  \<open>readFromStdin\<close> reads up to the first newline, which it drops, or 1023 characters, and
  closes the buffer with a zero; it stays inside the buffer and always returns, the length
  including the zero; at the end of the input it reads the byte 255 instead.
\<close>

lemma readFromStdin_line:
  "\<exists>tail. readFromStdin w =
    (Inr (line_of 1023 (stdin w) @ [0] @ tail, int (length (line_of 1023 (stdin w))) + 1),
     w\<lparr>stdout := stdout w @ str ''Enter data: '', stdin := after_line 1023 (stdin w)\<rparr>)"
proof -
  let ?l = "line_of 1023 (stdin w)"
  obtain tail where r: "read_loop [0] 0 0 (stdin w) = Inr (?l @ tail, length ?l, after_line 1023 (stdin w))"
    "length ?l + length tail \<le> TCP_MAXBUF"
    using read_loop_line [of 0 1023 0 "[0]" "stdin w"] by (auto simp: TCP_MAXBUF_def)
  have "length ?l \<le> 1023" by (rule length_line_of)
  then have "memcpy_at TCP_MAXBUF (?l @ tail) (length ?l) [0] = Inr (?l @ [0] @ drop 1 tail)"
    by (simp add: memcpy_at_def TCP_MAXBUF_def)
  with r(1) show ?thesis
    by (intro exI [of _ "drop 1 tail"]) (simp add: readFromStdin_def printf_def bnd_def lift_def)
qed

subsection \<open>Connections that work\<close>

text \<open>A client whose calls succeed, and a server with one connection waiting.\<close>

definition client_works :: "libc \<Rightarrow> byte list \<Rightarrow> tcp_world \<Rightarrow> bool" where
  "client_works lc host w \<longleftrightarrow> libc_ok lc \<and> found lc host AF_INET6 \<and> socket_works w \<and>
     (\<forall>a p. connect_works w a p) \<and> send_value w = (\<lambda>m. int (length m))"

definition server_works :: "libc \<Rightarrow> tcp_world \<Rightarrow> bool" where
  "server_works lc w \<longleftrightarrow> libc_ok lc \<and> socket_works w \<and> bind_works w \<and> getsockname_works w \<and> listen_works w \<and>
     (\<exists>ip port cs. clients w = Some (ip, port) # cs \<and> length ip = 16)"

lemma tcp_socket_eq:
  "socket_works w \<Longrightarrow> tcp_socket w =
     (Inr (int (lowest_free (tcp_fds w))), w\<lparr>tcp_fds := lowest_free (tcp_fds w) # tcp_fds w\<rparr>)"
  by (simp add: tcp_socket_def Let_def)

text \<open>The set-up of the client opens a socket and touches only the statics and the output.\<close>

lemma tcpClientSetup_works:
  assumes "client_works lc host w"
  shows "\<exists>ip st out. tcpClientSetup lc host port True w =
    (Inr (int (lowest_free (tcp_fds w))),
     w\<lparr>tcp_fds := lowest_free (tcp_fds w) # tcp_fds w, ipAddress := ip, ipString46 := st, stdout := out\<rparr>)"
proof -
  note C = assms [unfolded client_works_def]
  let ?w1 = "w\<lparr>tcp_fds := lowest_free (tcp_fds w) # tcp_fds w\<rparr>"
  let ?a = "first_address lc host AF_INET6"
  let ?w2 = "?w1\<lparr>ipAddress := ?a @ drop 16 (ipAddress w)\<rparr>"
  have len: "length ?a = 16" using libc_okD(2) C by (simp add: addr_len_def)
  have "gethostbyname6 lc host sa ?w1 =
    (Inr (Some StaticAddress, map_option (\<lambda>s. s\<lparr>sin_addr := ?a\<rparr>) sa), ?w2)" for sa
    using C by (cases sa) (simp_all add: gethostbyname6_def bnd_def getIPAddress46_eq addr_len_def)
  moreover have "addr_len AF_INET6 \<le> length (bytes_at StaticAddress ?w2)" using len by (simp add: addr_len_def)
  from getIPAddressString46_eq [OF _ this] C obtain st where
    "getIPAddressString6 lc (Some StaticAddress) ?w2 = (Inr StaticText46, ?w2\<lparr>ipString46 := st\<rparr>)"
    unfolding getIPAddressString6_def by blast
  ultimately show ?thesis
    using C
    by (simp add: tcpClientSetup_def tcp_socket_eq exit_unless_def printf_def bnd_def)
       (intro exI, rule refl)
qed

lemma sendToServer_works:
  assumes "tcp_open w s" "send_value w = (\<lambda>m. int (length m))"
  shows "\<exists>out. sendToServer s w = (Inr (), w\<lparr>stdin := after_line 1023 (stdin w),
    tcp_sent := tcp_sent w @ [(s, line_of 1023 (stdin w) @ [0])], stdout := out\<rparr>)"
proof -
  let ?l = "line_of 1023 (stdin w)"
  obtain tail where r: "readFromStdin w = (Inr (?l @ [0] @ tail, int (length ?l) + 1),
     w\<lparr>stdout := stdout w @ str ''Enter data: '', stdin := after_line 1023 (stdin w)\<rparr>)"
    using readFromStdin_line by blast
  have "read_bytes (?l @ [0] @ tail) (int (length ?l) + 1) = Inr (?l @ [0])"
    by (simp add: read_bytes_def nat_add_distrib)
  then show ?thesis using r assms
    by (simp add: sendToServer_def printf_def safeSend_def tcp_send_def tcp_open_def Let_def bnd_def lift_def)
       (intro exI, rule refl)
qed

lemma client_sends:
  assumes "client_works lc (argv ! 1) w" "length argv = 3"
  shows "\<exists>w'. myClient_main lc argv w = (Inr 0, w') \<and> stdin w' = after_line 1023 (stdin w) \<and>
    tcp_sent w' = tcp_sent w @ [(int (lowest_free (tcp_fds w)), line_of 1023 (stdin w) @ [0])]"
proof -
  let ?n = "lowest_free (tcp_fds w)"
  from tcpClientSetup_works [OF assms(1), of "argv ! 2"] obtain ip st out where
    s: "tcpClientSetup lc (argv ! 1) (argv ! 2) True w =
      (Inr (int ?n), w\<lparr>tcp_fds := ?n # tcp_fds w, ipAddress := ip, ipString46 := st, stdout := out\<rparr>)" by blast
  let ?w = "w\<lparr>tcp_fds := ?n # tcp_fds w, ipAddress := ip, ipString46 := st, stdout := out\<rparr>"
  have "tcp_open ?w (int ?n)" "send_value ?w = (\<lambda>m. int (length m))"
    using assms(1) by (simp_all add: tcp_open_def client_works_def)
  from sendToServer_works [OF this] obtain out' where
    "sendToServer (int ?n) ?w = (Inr (), ?w\<lparr>stdin := after_line 1023 (stdin w),
       tcp_sent := tcp_sent w @ [(int ?n, line_of 1023 (stdin w) @ [0])], stdout := out'\<rparr>)" by auto
  then show ?thesis
    using s assms(2) by (simp add: myClient_main_def myClient_checkArgs_def tcp_close_def)
qed

text \<open>The server up to its connected socket.\<close>

lemma server_accepts:
  assumes "server_works lc w"
  shows "\<exists>s m st out cs. bnd (tcpServerSetup p) (\<lambda>mainServerSocket.
      bnd (tcpAccept lc mainServerSocket True) (k mainServerSocket)) w =
    k (int m) (int s) (w\<lparr>clients := cs, tcp_fds := s # m # tcp_fds w, ipString46 := st, stdout := stdout w @ out\<rparr>)"
proof -
  from assms obtain ip port cs where C: "libc_ok lc" "socket_works w" "bind_works w" "getsockname_works w"
    "listen_works w" "clients w = Some (ip, port) # cs" "length ip = 16" by (auto simp: server_works_def)
  let ?m = "lowest_free (tcp_fds w)"
  let ?s = "lowest_free (?m # tcp_fds w)"
  obtain out1 where m: "tcpServerSetup p w = (Inr (int ?m), w\<lparr>tcp_fds := ?m # tcp_fds w, stdout := stdout w @ out1\<rparr>)"
    using C by (simp add: tcpServerSetup_def tcp_socket_eq exit_unless_def printf_def)
  let ?w2 = "w\<lparr>stdout := stdout w @ out1, clients := cs, tcp_fds := ?s # ?m # tcp_fds w\<rparr>"
  have "addr_len AF_INET6 \<le> length (bytes_at (Memory ip) ?w2)" using C(7) by (simp add: addr_len_def)
  from getIPAddressString46_eq [OF C(1) this] obtain st where
    st: "getIPAddressString6 lc (Some (Memory ip)) ?w2 = (Inr StaticText46, ?w2\<lparr>ipString46 := st\<rparr>)"
    unfolding getIPAddressString6_def by blast
  obtain out where "tcpAccept lc (int ?m) True (w\<lparr>tcp_fds := ?m # tcp_fds w, stdout := stdout w @ out1\<rparr>) =
    (Inr (int ?s), w\<lparr>clients := cs, tcp_fds := ?s # ?m # tcp_fds w, ipString46 := st, stdout := stdout w @ out1 @ out\<rparr>)"
    using C(6) st by (simp add: tcpAccept_def tcp_open_def Let_def printf_def)
  with m show ?thesis
    by (intro exI [of _ ?s] exI [of _ ?m] exI [of _ st] exI [of _ "out1 @ out"] exI [of _ cs]) simp
qed

lemma server_receives:
  assumes "server_works lc w" "length argv \<le> 2" "inbound w = Some d # ps" "d \<noteq> []" "length d \<le> TCP_MAXBUF"
  shows "0 \<in> set d \<Longrightarrow> \<exists>w' out. myServer_main lc argv w = (Inr 0, w') \<and> stdout w' = stdout w @ out @
      str ''Message received, length: '' @ print_int (int (length d)) @ str '' Data: '' @ c_string d @ [10]"
    "0 \<notin> set d \<Longrightarrow> fst (myServer_main lc argv w) =
      Inl (Fault (if length d < TCP_MAXBUF then Uninitialised else OutOfBounds))"
proof -
  obtain p where p: "myServer_checkArgs argv = ret p" using assms(2)
    by (cases "length argv = 2") (auto simp: myServer_checkArgs_def)
  let ?k = "\<lambda>mainServerSocket clientSocket.
     bnd (recvFromClient clientSocket) (\<lambda>_.
     bnd (tcp_close clientSocket) (\<lambda>_.
     bnd (tcp_close mainServerSocket) (\<lambda>_. ret 0)))"
  from server_accepts [OF assms(1), of p ?k] obtain s m st out cs where
    r: "myServer_main lc argv w = ?k (int m) (int s)
      (w\<lparr>clients := cs, tcp_fds := s # m # tcp_fds w, ipString46 := st, stdout := stdout w @ out\<rparr>)"
    by (auto simp: myServer_main_def p)
  show "0 \<in> set d \<Longrightarrow> \<exists>w' out. myServer_main lc argv w = (Inr 0, w') \<and> stdout w' = stdout w @ out @
      str ''Message received, length: '' @ print_int (int (length d)) @ str '' Data: '' @ c_string d @ [10]"
    using assms(3-5)
    by (simp add: r recvFromClient_def safeRecv_def tcp_recv_def tcp_open_def text_in_def printf_def tcp_close_def bnd_def)
  show "0 \<notin> set d \<Longrightarrow> fst (myServer_main lc argv w) =
      Inl (Fault (if length d < TCP_MAXBUF then Uninitialised else OutOfBounds))"
    using assms(3-5)
    by (simp add: r recvFromClient_def safeRecv_def tcp_recv_def tcp_open_def text_in_def bnd_def)
qed

subsection \<open>Properties\<close>

text \<open>
  C34: A line typed into \<open>myClient\<close> (up to 1022 characters, no zero byte) reaches \<open>myServer\<close> as
  it was typed: when what the client hands to \<open>send\<close> arrives in one piece, the server prints
  that text, and the length with the terminating zero counted.
\<close>

theorem tcp_message:
  assumes "client_works lc (argv ! 1) w" "length argv = 3" "stdin w = m @ 10 # rest"
    and "0 \<notin> set m" "10 \<notin> set m" "length m < 1023"
    and "server_works lc v" "length sargv \<le> 2"
  shows "\<exists>w' v' out. myClient_main lc argv w = (Inr 0, w') \<and> stdin w' = rest \<and>
    myServer_main lc sargv (v\<lparr>inbound := map (\<lambda>(_, d). Some d) (drop (length (tcp_sent w)) (tcp_sent w'))\<rparr>) = (Inr 0, v') \<and>
    stdout v' = stdout v @ out @
      str ''Message received, length: '' @ print_int (int (length m) + 1) @ str '' Data: '' @ m @ [10]"
proof -
  from client_sends [OF assms(1,2)] obtain w' where
    w': "myClient_main lc argv w = (Inr 0, w')" "stdin w' = rest"
    "tcp_sent w' = tcp_sent w @ [(int (lowest_free (tcp_fds w)), m @ [0])]"
    using line_of_line [OF assms(5,6), of rest] assms(3) by auto
  let ?v = "v\<lparr>inbound := map (\<lambda>(_, d). Some d) (drop (length (tcp_sent w)) (tcp_sent w'))\<rparr>"
  have "server_works lc ?v" using assms(7) by (simp add: server_works_def)
  moreover have "inbound ?v = Some (m @ [0]) # []" using w'(3) by simp
  moreover have "m @ [0] \<noteq> []" "length (m @ [0]) \<le> TCP_MAXBUF" using assms(6) by (simp_all add: TCP_MAXBUF_def)
  ultimately have "\<exists>v' out. myServer_main lc sargv ?v = (Inr 0, v') \<and> stdout v' = stdout ?v @ out @
      str ''Message received, length: '' @ print_int (int (length (m @ [0]))) @ str '' Data: '' @ c_string (m @ [0]) @ [10]"
    using server_receives(1) [OF _ assms(8), of lc ?v "m @ [0]" "[]"] by simp
  moreover have "c_string (m @ [0]) = m" using c_string_no_zero [OF assms(4), of "[]"] by simp
  moreover have "int (length (m @ [0])) = int (length m) + 1" by simp
  ultimately obtain v' out where "myServer_main lc sargv ?v = (Inr 0, v')" "stdout v' = stdout v @ out @
      str ''Message received, length: '' @ print_int (int (length m) + 1) @ str '' Data: '' @ m @ [10]"
    by (auto simp: add.commute)
  with w'(1,2) show ?thesis by blast
qed

text \<open>A process whose calls all succeed, with one client waiting.\<close>

definition sample_tcp :: "byte list \<Rightarrow> byte list option list \<Rightarrow> tcp_world" where
  "sample_tcp input pieces =
     \<lparr>ipAddress = replicate INET6_ADDRSTRLEN 0, ipString46 = replicate INET6_ADDRSTRLEN 0,
      ipString = replicate INET6_ADDRSTRLEN 0, stdout = [], tcp_fds = [2, 1, 0], socket_works = True,
      bind_works = True, getsockname_works = True, listen_works = True, connect_works = (\<lambda>_ _. True),
      kernel_port = (\<lambda>p. p), clients = [Some (replicate 16 1, 7)], inbound = pieces,
      send_value = (\<lambda>m. int (length m)), stdin = input, tcp_sent = []\<rparr>"

lemma sample_tcp_works:
  "client_works sample_libc [104] (sample_tcp input pieces)" "server_works sample_libc (sample_tcp input pieces)"
  using sample_libc_ok
  by (simp_all add: client_works_def server_works_def sample_tcp_def found_def sample_libc_def)

theorem tcp_message_witness:
  "\<exists>w' v' out. myClient_main sample_libc [[], [104], [57]] (sample_tcp [72, 105, 10, 66] []) = (Inr 0, w') \<and>
    stdin w' = [66] \<and>
    myServer_main sample_libc [[]] (sample_tcp [] []\<lparr>inbound := map (\<lambda>(_, d). Some d) (tcp_sent w')\<rparr>) = (Inr 0, v') \<and>
    stdout v' = out @ str ''Message received, length: '' @ print_int 3 @ str '' Data: '' @ [72, 105] @ [10]"
proof -
  let ?w = "sample_tcp [72, 105, 10, 66] []"
  have "\<exists>w' v' out. myClient_main sample_libc [[], [104], [57]] ?w = (Inr 0, w') \<and> stdin w' = [66] \<and>
    myServer_main sample_libc [[]] (sample_tcp [] []\<lparr>inbound := map (\<lambda>(_, d). Some d)
      (drop (length (tcp_sent ?w)) (tcp_sent w'))\<rparr>) = (Inr 0, v') \<and>
    stdout v' = stdout (sample_tcp [] []) @ out @
      str ''Message received, length: '' @ print_int (int (length [72 :: byte, 105]) + 1) @ str '' Data: '' @ [72, 105] @ [10]"
    by (rule tcp_message) (simp_all add: sample_tcp_works, simp_all add: sample_tcp_def)
  then show ?thesis by (simp add: sample_tcp_def)
qed

text \<open>
  C36: At the end of its input \<open>myClient\<close> does not stop: \<open>getchar\<close> is not tested for \<open>EOF\<close>, so
  what is left of the line is filled up with the byte 255, and the server is sent 1023 bytes
  and a zero.
\<close>

theorem end_of_input_floods:
  assumes "client_works lc (argv ! 1) w" "length argv = 3" "stdin w = m" "10 \<notin> set m" "length m \<le> 1023"
  shows "\<exists>w'. myClient_main lc argv w = (Inr 0, w') \<and>
    tcp_sent w' = tcp_sent w @ [(int (lowest_free (tcp_fds w)), m @ replicate (1023 - length m) 255 @ [0])]"
proof -
  from client_sends [OF assms(1,2)] show ?thesis
    unfolding assms(3) line_of_eof [OF assms(4,5)] append_assoc by blast
qed

theorem end_of_input_floods_witness:
  "\<exists>w'. myClient_main sample_libc [[], [104], [57]] (sample_tcp [72] []) = (Inr 0, w') \<and>
    (\<exists>n. map snd (tcp_sent w') = [[72] @ replicate n 255 @ [0]] \<and> n = 1022)"
proof -
  have "\<exists>w'. myClient_main sample_libc [[], [104], [57]] (sample_tcp [72] []) = (Inr 0, w') \<and>
    tcp_sent w' = tcp_sent (sample_tcp [72] []) @
      [(int (lowest_free (tcp_fds (sample_tcp [72] []))), [72] @ replicate (1023 - length [72 :: byte]) 255 @ [0])]"
    by (rule end_of_input_floods) (simp_all add: sample_tcp_works, simp_all add: sample_tcp_def)
  then obtain w' n where "myClient_main sample_libc [[], [104], [57]] (sample_tcp [72] []) = (Inr 0, w')"
    "n = 1023 - length [72 :: byte]"
    "tcp_sent w' = tcp_sent (sample_tcp [72] []) @
      [(int (lowest_free (tcp_fds (sample_tcp [72] []))), [72] @ replicate n 255 @ [0])]" by blast
  then show ?thesis by (intro exI [of _ w']) (simp add: sample_tcp_def)
qed

text \<open>
  C35: TCP does not keep messages together, but the server prints after one \<open>recv\<close>: when only the
  first bytes of the client's message have arrived, without its zero, \<open>printf\<close> reads on into the
  part of the buffer that was never written.
\<close>

theorem first_piece_overread:
  assumes "server_works lc w" "length argv \<le> 2" "0 \<notin> set m" "0 < k" "k \<le> length m" "length m \<le> 1023"
    and "inbound w = [Some (take k (m @ [0])), Some (drop k (m @ [0]))]"
  shows "fst (myServer_main lc argv w) = Inl (Fault Uninitialised)"
proof -
  have t: "take k (m @ [0]) = take k m" using assms(5) by simp
  have "0 \<notin> set (take k m)" using assms(3) by (meson in_set_takeD)
  moreover have "length (take k m) < TCP_MAXBUF" "take k m \<noteq> []"
    using assms(4-6) by (auto simp: TCP_MAXBUF_def)
  ultimately show ?thesis using server_receives(2) [OF assms(1,2) assms(7) [unfolded t]] by auto
qed

theorem first_piece_overread_witness:
  "fst (myServer_main sample_libc [[]] (sample_tcp [] [Some [72, 105], Some [33, 0]])) = Inl (Fault Uninitialised)"
  by (rule first_piece_overread [where m = "[72, 105, 33]" and k = 2, OF sample_tcp_works(2)])
     (simp_all add: sample_tcp_def)

end
