(* ===== verification/Spec2Isabelle.thy ===== *)
theory Spec2Isabelle
  imports Protocol Safe_Windows Server Rcopy Composition Liveness Loss_Recovery Tcp
begin

text \<open>
  A model of the remote file copy program of src/Workspace: \<open>server\<close>, which sends a file in
  numbered chunks over UDP from a sliding window, and \<open>rcopy\<close>, which asks for a file, puts
  the chunks in order, writes them and answers with RR (receive ready, cumulative) and SREJ
  (selective reject) packets.

  \<^bold>\<open>Parts of the program and their theories.\<close>
  \<^item> \<open>Prelude\<close>: machine words, byte order of the little-endian host, faults, results, files
    as numbered chunks.
  \<^item> \<open>Pdu\<close> (functions.c, functions.h): \<open>createPDU\<close>, \<open>send_rr\<close>, \<open>send_srej\<close>, \<open>printPDU\<close> and
    the header reads of the receivers (\<open>hdr_seq\<close>, \<open>hdr_flag\<close>, \<open>hdr_cksum\<close>).
  \<^item> \<open>CircularQueue\<close> (circularQueue.c, circularQueue.h): the retransmission window; each C
    function is the definition of the same name.  The locale \<open>send_window\<close> is its contract
    with the sender, interpreted on these definitions as \<open>cq\<close>.
  \<^item> \<open>PollLib\<close> (pollLib.c, allocation of safeUtil.c): the poll set and \<open>pollCall\<close>; the locale
    \<open>one_socket\<close> is what the waiting states rely on.
  \<^item> \<open>Platform\<close> (safeUtil.c, UDP set-up of networks.c): the process's world (\<open>schedule\<close> of
    network events, poll set, allocator, descriptors, files, log \<open>sent\<close> of what is handed to
    \<open>sendtoErr\<close>) and programs over it.
  \<^item> \<open>Receiver\<close> (rcopy.c, \<open>process_transfer_state\<close> and \<open>send_eof_ack_state\<close>; \<open>buffer_packet\<close> of
    functions.c): \<open>transfer_packet\<close> is one turn of the receive loop, \<open>process_transfer_loop\<close>
    the loop.
  \<^item> \<open>Sender\<close> (server.c, \<open>send_data_state\<close> and \<open>wait_on_ack_state\<close>): \<open>fill_window\<close>,
    \<open>drain_acks\<close>, \<open>wait_for_room\<close> are the nested loops, \<open>send_chunk\<close>, \<open>handle_ack\<close>,
    \<open>resend_oldest\<close> their bodies.
  \<^item> \<open>Server\<close> (rest of server.c): the states around the data phase, \<open>client_loop\<close> and
    \<open>processClient\<close>, \<open>processServer\<close>, the command line and \<open>main\<close>.
  \<^item> \<open>Rcopy\<close> (rest of rcopy.c): command line, request with retries, state loop, \<open>main\<close>.
  \<^item> \<open>Protocol\<close>: both ends as one step relation \<open>proto_step\<close> over a network that may lose,
    duplicate and reorder datagrams, with the invariant \<open>proto_inv\<close>; \<open>run_actions\<close> is its
    executable form.  \<open>srv_side\<close> is the half of it that needs nothing of the receiver's buffer.
  \<^item> \<open>Any_Windows\<close>: what is left of \<open>proto_inv\<close> for a server window larger than the client's
    (\<open>num_inv\<close>): the server's side, the sequence numbers and the types of the receiver.
  \<^item> \<open>Receiver_Safety\<close>, \<open>Sender_Safety\<close>: each side alone against an arbitrary network, down to
    the loops \<open>process_transfer_state\<close> and \<open>send_data_state\<close> as the processes run them.
  \<^item> \<open>Sliding_Window\<close>: the specification of the data phase, \<open>sw_step\<close>, a window of two ends and
    the log of what was sent; \<open>Sender_Safety\<close> shows that \<open>send_data_state\<close> refines it.
  \<^item> \<open>Refinement\<close>: the client's loop refines its side of \<open>proto_step\<close>; \<open>served\<close> says which
    schedules a server can have caused, \<open>serves\<close> checks that on data.
  \<^item> \<open>Machines\<close>: both data loops as event machines (\<open>srv_react\<close>, \<open>cli_react\<close>), with the proof that
    the loops of the source and the machines are the same programs.
  \<^item> \<open>Composition\<close>: the two real loops against each other over a causal network (\<open>causal\<close>: only
    what the other program has sent arrives), as a run of \<open>proto_step\<close>.
  \<^item> \<open>Transitions\<close>, \<open>Liveness\<close>: the locales \<open>invariant_system\<close> and \<open>progress_system\<close>, and their
    interpretation \<open>live\<close> on \<open>proto_step\<close>: over a network that still delivers what was sent the
    transfer can always complete.
  \<^item> \<open>Loss_Recovery\<close>: the server waits on a full window and everything in flight is lost; when
    the retransmissions bring the transfer on, and when it is wedged for good (the interpretation
    \<open>wedge\<close>).
  \<^item> \<open>Safe_Windows\<close>: the window sizes for which the swapped window of the server is safe, by
    \<open>proto_inv\<close> on one side and a run that corrupts the file on the other; how much of the file
    the EOF packet can cut off.
  \<^item> \<open>Names\<close> (gethostbyname.c): lookups and printable addresses, with the static buffers as
    state and pointers as values that name a buffer.
  \<^item> \<open>Tcp\<close> (TCP functions of networks.c, \<open>safeSend\<close> and \<open>safeRecv\<close> of safeUtil.c, myClient.c,
    myServer.c): a world that extends the one of \<open>Names\<close>, and the two test programs over it.

  \<^bold>\<open>State.\<close>  C structs are records with the fields of the source; \<open>FILE *\<close> for reading is the
  unread bytes (\<open>in_file\<close>) and its descriptor, for writing the bytes written so far
  (\<open>outFile\<close>).  A pointer that may be \<open>NULL\<close> is an option.  Undefined behaviour is a value: a
  result \<open>Inl\<close> names the fault (out of bounds, \<open>NULL\<close>, division by zero, uninitialised read),
  and a program that meets one stops with \<open>Fault\<close>; \<open>exit(n)\<close> is \<open>Exited n\<close>, and a wait beyond
  the end of the schedule is \<open>Blocked\<close>.

  \<^bold>\<open>Loops.\<close>  Every loop is a terminating function without fuel: each turn that waits consumes an
  event of the schedule (or advances a bounded retry or resend counter), each turn of the
  filling loop consumes file bytes, and the state loops descend in a phase order.  The
  endless loops of the dispatcher and of the receiver end in the model when the schedule is
  exhausted (\<open>Blocked\<close>).

  \<^bold>\<open>What the lemmas show.\<close>  \<open>Protocol\<close> and this theory: for a server window no larger than the
  client's, any reachable client file is a prefix of the server's in whole chunks, it is
  complete when the client stops at the EOF number; for every pair of window sizes the client never
  faults, and the server still holds and resends what the client lacks; \<open>full_copy\<close> runs both programs from their
  command lines (\<open>server_main\<close>, the child it forks, \<open>rcopy_main\<close>) to a complete copy, over a
  network that loses requests and acknowledgements, and \<open>child_session\<close> and \<open>rcopy_session\<close>
  say for each of them alone what it sends, which descriptors it leaves and how it ends.  Each loop refines an abstract system: the client's loop its side of
  \<open>proto_step\<close>, the server's the sliding window \<open>sw_step\<close>, with flow control as a consequence.
  The component theories: the queue refines a finite map, the PDU
  builders round trip, the poll set meets its one-socket contract, each loop's behaviour under
  silence and under answers.  Further theorems state where the code departs from what it
  means to do, at concrete runs or in general: byte-swapped window and buffer size, the windows that
  makes unsafe (\<open>safe_windows\<close>) and the overrun that follows, EOF sent
  before the window is acknowledged, the inverted test of \<open>CircularQueue_get\<close>, the timeout that
  resends the wrong packet, packets dropped in \<open>FLUSH\<close>, silent old packets, ignored checksums,
  the EOF acknowledgement the server rejects, the clean-up after a missing file.

  \<^bold>\<open>Parameters and bounds.\<close>  \<open>in_cksum\<close> of the binary libcpe464 is the parameter \<open>ck\<close>
  (instantiated with the RFC 1071 sum \<open>inet_cksum\<close> where its values matter), \<open>sendtoErr\<close> is
  the log of its arguments; what it drops or flips is part of the other side's schedule.
  \<open>poll(2)\<close>, \<open>recvfrom\<close>, descriptors and \<open>fopen\<close> follow their documented behaviour, for processes
  whose standard input is open and not hung up (\<open>PollLib\<close> says what \<open>pollCall\<close> does otherwise); \<open>atof\<close> is
  the parameter \<open>to_float\<close> (NaN included), host name resolution the field \<open>resolve\<close> (in \<open>udp_setup_lookup\<close> the one of
  \<open>gethostbyname6\<close>), \<open>getaddrinfo\<close> and \<open>inet_ntop\<close> the record \<open>libc\<close>, whose documented behaviour
  is \<open>libc_ok\<close>, stack bytes a receive
  leaves untouched the field \<open>junk\<close>.  The protocol theorems assume \<open>length f + 3 < 2 ^ 32\<close>, so
  that sequence numbers do not wrap, and windows below \<open>2 ^ 31\<close>, the range of \<open>int\<close>.

  \<^bold>\<open>Not modelled.\<close>  Console output of the file transfer programs (that of the TCP programs and
  of gethostbyname.c is the field \<open>stdout\<close>) and standard error, and the
  internals of libcpe464, which is a binary: its checksum is a parameter, its lossy \<open>sendto\<close> the
  log of its arguments.
\<close>

subsection \<open>The file transfer, both ends together\<close>

text \<open>
  C1: Over a network that loses, duplicates and reorders datagrams, the file the client has
  written is at every moment exactly the first \<open>expected - 1\<close> chunks of the server's file,
  provided the server's window is no larger than the client's.  (\<open>Safe_Windows\<close> says for which
  requested windows the swapped one of the server is.)
\<close>

theorem written_prefix:
  assumes "proto_reach ck b (proto_start ws wc f) s"
    and "0 < ws" "ws \<le> wc" "wc < 2 ^ 31" "0 < unat b" "unat b \<le> MAXBUF" "length f + 3 < 2 ^ 32"
  shows "outFile (rinfo s) = take ((unat (expected (rinfo s)) - 1) * unat b) f"
proof -
  obtain lo where "proto_inv ck b f lo s" using reach_inv [OF assms] .
  then show ?thesis by (rule inv_prefix)
qed

theorem written_prefix_witness:
  "\<exists>s. proto_reach (\<lambda>_. 0) 2 (proto_start 2 3 [7, 8, 9]) s \<and> expected (rinfo s) = 2 \<and>
     outFile (rinfo s) = [7, 8]"
proof -
  have "map_option (\<lambda>s. expected (rinfo s))
      (run_actions (\<lambda>_. 0) 2 [Fill, Fill, Deliver 0, Deliver 1] (proto_start 2 3 [7, 8, 9])) = Some 2"
    by code_simp
  then obtain s where s: "proto_reach (\<lambda>_. 0) 2 (proto_start 2 3 [7, 8, 9]) s" "expected (rinfo s) = 2"
    by (rule run_result)
  have "outFile (rinfo s) = take ((unat (expected (rinfo s)) - 1) * unat (2 :: u16)) [7, 8, 9]"
    by (rule written_prefix [OF s(1)]) (simp_all add: MAXBUF_def)
  with s show ?thesis by auto
qed

text \<open>
  C2: When the client has stopped and its \<open>expected\<close> has reached the number of the EOF
  packet, it has written the whole file of the server, provided the server's window is no larger
  than the client's.  (For a larger one, as the swapped window of most requests is, \<open>Safe_Windows\<close>
  has runs that end with a wrong file.)
\<close>

theorem transfer_complete:
  assumes "proto_reach ck b (proto_start ws wc f) s"
    and "0 < ws" "ws \<le> wc" "wc < 2 ^ 31" "0 < unat b" "unat b \<le> MAXBUF" "length f + 3 < 2 ^ 32"
    and "finished s" "expected (rinfo s) = rcv_eofSeq (rinfo s)"
  shows "outFile (rinfo s) = f"
proof -
  obtain lo where "proto_inv ck b f lo s" using reach_inv [OF assms(1-7)] .
  then show ?thesis using assms(8,9) by (rule inv_complete)
qed

theorem transfer_complete_witness:
  "\<exists>s. proto_reach (\<lambda>_. 0) 2 (proto_start 2 3 [7, 8, 9]) s \<and> finished s \<and>
     outFile (rinfo s) = [7, 8, 9]"
proof -
  have "map_option (\<lambda>s. (finished s, expected (rinfo s), rcv_eofSeq (rinfo s)))
      (run_actions (\<lambda>_. 0) 2 [Fill, Deliver 0, Fill, Deliver 0, Ack 0, Eof, Deliver 0]
         (proto_start 2 3 [7, 8, 9])) = Some (True, 3, 3)"
    by code_simp
  then obtain s where s: "proto_reach (\<lambda>_. 0) 2 (proto_start 2 3 [7, 8, 9]) s"
    "(finished s, expected (rinfo s), rcv_eofSeq (rinfo s)) = (True, 3, 3)"
    by (rule run_result)
  have "outFile (rinfo s) = [7, 8, 9]"
    by (rule transfer_complete [OF s(1)]) (use s(2) in \<open>simp_all add: MAXBUF_def\<close>)
  with s show ?thesis by auto
qed

text \<open>
  In every reachable state the client processes every datagram in flight to it, whatever
  the stack held behind it, without a fault: no access out of the packet buffer, no division
  by zero, no overlong copy.
\<close>

lemma client_never_faults:
  assumes "proto_reach ck b (proto_start ws wc f) s"
    and "0 < ws" "ws \<le> wc" "wc < 2 ^ 31" "0 < unat b" "unat b \<le> MAXBUF" "length f + 3 < 2 ^ 32"
    and "\<not> finished s" "p \<in> set (to_client s)"
  shows "\<exists>t. transfer_packet ck (rstate s) (rinfo s) (rbuf_of p jk) (int (length p)) = Inr t"
proof -
  obtain lo where "proto_inv ck b f lo s" using reach_inv [OF assms(1-7)] .
  from proto_inv_receive [OF this assms(8,9), of jk] show ?thesis by blast
qed

text \<open>
  C16: The server keeps every packet the client has not written yet: in every reachable state, for
  every pair of window sizes, and for every number from
  \<open>expected\<close> to the last one sent, the window holds exactly the PDU of that chunk.
\<close>

theorem window_retained:
  assumes "proto_reach ck b (proto_start ws wc f) s"
    and "0 < ws" "ws < 2 ^ 31" "0 < wc" "wc < 2 ^ 31" "0 < unat b" "unat b \<le> MAXBUF" "length f + 3 < 2 ^ 32"
    and "expected (rinfo s) \<le> m" "m < next_seq s"
  shows "queue_lookup (win s) m = Some (pdu_of ck m 16 (file_chunk (unat b) f (unat m)))"
proof -
  obtain lo where "num_inv ck b f (nat ws) lo s" using reach_nums [OF assms(1-8)] .
  note D = num_invD [OF this]
  have "lo \<le> unat m" "unat m < unat (next_seq s)"
    using D(7) assms(9,10) by (auto simp: word_le_nat_alt word_less_nat_alt)
  then show ?thesis by (rule snd_windowD(8) [OF D(5)])
qed

theorem window_retained_witness:
  "\<exists>s. proto_reach (\<lambda>_. 0) 2 (proto_start 2 3 [7, 8, 9]) s \<and>
     queue_lookup (win s) 2 = Some (pdu_of (\<lambda>_. 0) 2 16 [9])"
proof -
  have "map_option (\<lambda>s. (expected (rinfo s), next_seq s))
      (run_actions (\<lambda>_. 0) 2 [Fill, Fill, Deliver 1, Ack 0] (proto_start 2 3 [7, 8, 9])) = Some (2, 3)"
    by code_simp
  then obtain s where s: "proto_reach (\<lambda>_. 0) 2 (proto_start 2 3 [7, 8, 9]) s"
    "(expected (rinfo s), next_seq s) = (2, 3)" by (rule run_result)
  have "queue_lookup (win s) 2 = Some (pdu_of (\<lambda>_. 0) 2 16 (file_chunk (unat (2 :: u16)) [7, 8, 9] (unat (2 :: u32))))"
    by (rule window_retained [OF s(1)]) (use s(2) in \<open>simp_all add: MAXBUF_def\<close>)
  with s show ?thesis by (auto simp: file_chunk_def)
qed

text \<open>
  C15: In every reachable state, for every pair of window sizes, a SREJ for a packet the client
  still lacks makes the server send exactly that chunk
  again, under the number asked for and with flag 17, and leaves the window alone.
\<close>

theorem srej_answered:
  assumes "proto_reach ck b (proto_start ws wc f) s"
    and "0 < ws" "ws < 2 ^ 31" "0 < wc" "wc < 2 ^ 31" "0 < unat b" "unat b \<le> MAXBUF" "length f + 3 < 2 ^ 32"
    and "expected (rinfo s) \<le> m" "m < next_seq s"
  shows "handle_ack ck (win s) (rbuf_of (pdu_of ck m 6 []) jk) =
    Inr (win s, [pdu_of ck m 17 (file_chunk (unat b) f (unat m))])"
proof -
  obtain lo where "num_inv ck b f (nat ws) lo s" using reach_nums [OF assms(1-8)] .
  note D = num_invD [OF this]
  have "lo \<le> unat m" "unat m < unat (next_seq s)"
    using D(7) assms(9,10) by (auto simp: word_le_nat_alt word_less_nat_alt)
  then show ?thesis using handle_ack_srej [OF D(5), of "rbuf_of (pdu_of ck m 6 []) jk"] by simp
qed

theorem srej_answered_witness:
  "\<exists>s. proto_reach (\<lambda>_. 0) 2 (proto_start 2 3 [7, 8, 9]) s \<and>
     handle_ack (\<lambda>_. 0) (win s) (rbuf_of (pdu_of (\<lambda>_. 0) 1 6 []) (\<lambda>_. 0)) =
       Inr (win s, [pdu_of (\<lambda>_. 0) 1 17 [7, 8]])"
proof -
  have "map_option (\<lambda>s. (expected (rinfo s), next_seq s))
      (run_actions (\<lambda>_. 0) 2 [Fill, Fill, Deliver 0] (proto_start 2 3 [7, 8, 9])) = Some (1, 3)"
    by code_simp
  then obtain s where s: "proto_reach (\<lambda>_. 0) 2 (proto_start 2 3 [7, 8, 9]) s"
    "(expected (rinfo s), next_seq s) = (1, 3)" by (rule run_result)
  have "handle_ack (\<lambda>_. 0) (win s) (rbuf_of (pdu_of (\<lambda>_. 0) 1 6 []) (\<lambda>_. 0)) =
      Inr (win s, [pdu_of (\<lambda>_. 0) 1 17 (file_chunk (unat (2 :: u16)) [7, 8, 9] (unat (1 :: u32)))])"
    by (rule srej_answered [OF s(1)]) (use s(2) in \<open>simp_all add: MAXBUF_def\<close>)
  with s show ?thesis by (auto simp: file_chunk_def)
qed

text \<open>
  C29: A SREJ that arrives late crashes the server: with a window of two, after four packets
  and their acknowledgements, the SREJ for packet 1 of the client is still in flight, and
  \<open>CircularQueue_get\<close> hands out an emptied slot whose packet pointer is \<open>NULL\<close>.
\<close>

theorem late_srej_crashes:
  "\<exists>s a. proto_reach (\<lambda>_. 0) 1 (proto_start 2 2 [1, 2, 3, 4, 5]) s \<and> \<not> ended s \<and>
     a \<in> set (to_server s) \<and> handle_ack (\<lambda>_. 0) (win s) (rbuf_of a (\<lambda>_. 0)) = Inl NullPointer"
proof -
  let ?as = "[Fill, Fill, Deliver 0, Deliver 1, Deliver 1, Ack 0, Fill, Fill,
    Deliver 1, Deliver 0, Ack 0]"
  have "map_option (\<lambda>s. (ended s, find (\<lambda>a. handle_ack (\<lambda>_. 0) (win s) (rbuf_of a (\<lambda>_. 0)) = Inl NullPointer) (to_server s)))
      (run_actions (\<lambda>_. 0) 1 ?as (proto_start 2 2 [1, 2, 3, 4, 5])) =
      Some (False, Some (pdu_of (\<lambda>_. 0) 1 6 []))"
    by code_simp
  then obtain s where s: "proto_reach (\<lambda>_. 0) 1 (proto_start 2 2 [1, 2, 3, 4, 5]) s"
    "(ended s, find (\<lambda>a. handle_ack (\<lambda>_. 0) (win s) (rbuf_of a (\<lambda>_. 0)) = Inl NullPointer) (to_server s)) =
       (False, Some (pdu_of (\<lambda>_. 0) 1 6 []))"
    by (rule run_result)
  then show ?thesis by (auto simp: find_Some_iff) (metis nth_mem)
qed

text \<open>
  The EOF packet is sent without waiting for the window to drain, and the client stops at
  it: one lost datagram leaves the client with an empty file, although it has acknowledged the
  end of the transfer.  (Window argument 512: the server's window has 2 slots.)
\<close>

lemma eof_overtakes_data:
  "\<exists>s. proto_reach (\<lambda>_. 0) 4 (proto_start (uint (htons 512)) 512 [1, 2, 3]) s \<and> finished s \<and>
     outFile (rinfo s) = [] \<and> pdu_of (\<lambda>_. 0) 2 35 [] \<in> set (to_server s)"
proof -
  have "map_option (\<lambda>s. (finished s, outFile (rinfo s), to_server s))
      (run_actions (\<lambda>_. 0) 4 [Fill, Eof, Deliver 0] (proto_start (uint (htons 512)) 512 [1, 2, 3])) =
      Some (True, [], [pdu_of (\<lambda>_. 0) 2 35 []])"
    by code_simp
  then obtain s where "proto_reach (\<lambda>_. 0) 4 (proto_start (uint (htons 512)) 512 [1, 2, 3]) s"
    "(finished s, outFile (rinfo s), to_server s) = (True, [], [pdu_of (\<lambda>_. 0) 2 35 []])"
    by (rule run_result)
  then show ?thesis by auto
qed

text \<open>
  The window size crosses the wire byte-swapped (\<open>filename_state\<close> keeps the raw
  value).  With the arguments window size 1 and buffer size 256 the server runs 256 slots of
  one byte against a client buffer of one slot, and one datagram overtaking two others makes
  the client write a wrong file and finish with every number accounted for.
\<close>

lemma swapped_window_corrupts:
  "\<exists>s. proto_reach (\<lambda>_. 0) (htons 256) (proto_start (uint (htons 1)) 1 [10, 20, 30, 40, 50]) s \<and>
     finished s \<and> expected (rinfo s) = rcv_eofSeq (rinfo s) \<and>
     outFile (rinfo s) = [10, 30, 30, 40, 50]"
proof -
  let ?as = "[Fill, Fill, Fill, Fill, Fill, Eof, Deliver 3, Deliver 5, Deliver 2, Deliver 3,
    Deliver 2, Deliver 2, Deliver 1, Deliver 0]"
  have "map_option (\<lambda>s. (finished s, expected (rinfo s), rcv_eofSeq (rinfo s), outFile (rinfo s)))
      (run_actions (\<lambda>_. 0) (htons 256) ?as (proto_start (uint (htons 1)) 1 [10, 20, 30, 40, 50])) =
      Some (True, 6, 6, [10, 30, 30, 40, 50])"
    by code_simp
  then obtain s where
    "proto_reach (\<lambda>_. 0) (htons 256) (proto_start (uint (htons 1)) 1 [10, 20, 30, 40, 50]) s"
    "(finished s, expected (rinfo s), rcv_eofSeq (rinfo s), outFile (rinfo s)) =
       (True, 6, 6, [10, 30, 30, 40, 50])"
    by (rule run_result)
  then show ?thesis by auto
qed

text \<open>
  The timeout does not resend the oldest packet, as the code says it does, but the first
  one in array order: with three slots holding packets 2, 3 and 4 it sends 3, although the
  client is waiting for 2.
\<close>

lemma timeout_not_oldest:
  "\<exists>s. proto_reach (\<lambda>_. 0) 1 (proto_start 3 3 [1, 2, 3, 4, 5]) s \<and> expected (rinfo s) = 2 \<and>
     CircularQueue_is_full (win s) \<and> queue_lookup (win s) 2 = Some (pdu_of (\<lambda>_. 0) 2 16 [2]) \<and>
     resend_oldest (\<lambda>_. 0) (win s) = Inr [pdu_of (\<lambda>_. 0) 3 18 [3]]"
proof -
  have "map_option (\<lambda>s. (expected (rinfo s), CircularQueue_is_full (win s), queue_lookup (win s) 2,
        resend_oldest (\<lambda>_. 0) (win s)))
      (run_actions (\<lambda>_. 0) 1 [Fill, Fill, Fill, Deliver 2, Ack 0, Fill] (proto_start 3 3 [1, 2, 3, 4, 5])) =
      Some (2, True, Some (pdu_of (\<lambda>_. 0) 2 16 [2]), Inr [pdu_of (\<lambda>_. 0) 3 18 [3]])"
    by code_simp
  then obtain s where "proto_reach (\<lambda>_. 0) 1 (proto_start 3 3 [1, 2, 3, 4, 5]) s"
    "(expected (rinfo s), CircularQueue_is_full (win s), queue_lookup (win s) 2, resend_oldest (\<lambda>_. 0) (win s)) =
       (2, True, Some (pdu_of (\<lambda>_. 0) 2 16 [2]), Inr [pdu_of (\<lambda>_. 0) 3 18 [3]])"
    by (rule run_result)
  then show ?thesis by auto
qed

text \<open>
  End to end over a network that behaves, with the loops of both programs as they run:
  whatever \<open>send_data_state\<close> of the server hands to \<open>sendtoErr\<close> makes
  \<open>process_transfer_state\<close> of the client write exactly the server's file and stop at the
  number of the server's EOF packet.
\<close>

lemma end_to_end:
  assumes "int n < ws" "ws < 2 ^ 31" and "b = unat (bufferSize info)" "0 < b" "b \<le> MAXBUF"
    and "0 < n \<Longrightarrow> (n - 1) * b < length f" "length f \<le> n * b"
    and "in_file info = Some f" "heap w = (\<lambda>_. True)" "pset_sane w" "schedule w = replicate n Quiet @ es"
    and "is_open v sock"
  shows "\<exists>q' info' w' ri v'. send_data_state ck (fresh_queue ws) info w = (Inr (WAIT_ON_EOF_ACK, q', info'), w') \<and>
    process_transfer_state ck (fresh_receiver wsize sock peer)
      (v\<lparr>schedule := map (\<lambda>(_, d, _). Arrive d a) (drop (length (sent w)) (sent w'))\<rparr>) = (Inr ri, v') \<and>
    outFile ri = f \<and> rcv_eofSeq ri = eofSeq info'"
proof -
  from send_data_state_quiet [OF assms(1-11), of ck] obtain q' info' w' where
    snd: "send_data_state ck (fresh_queue ws) info w = (Inr (WAIT_ON_EOF_ACK, q', info'), w')"
    "sent w' = sent w @ map (\<lambda>d. (childSocket info, d, clientAddr info)) (data_run ck (file_chunk b f) 1 (n + 1))"
    "eofSeq info' = word_of_nat (n + 1)" by auto
  let ?v = "v\<lparr>schedule := map (\<lambda>(_, d, _). Arrive d a) (drop (length (sent w)) (sent w'))\<rparr>"
  have "schedule ?v = map (\<lambda>d. Arrive d a) (data_run ck (file_chunk b f) 1 (n + 1)) @ []"
    using snd(2) by (simp add: comp_def)
  moreover have "is_open ?v sock" using assms(12) by (simp add: is_open_def)
  moreover have "n + 1 < 2 ^ 32" using assms(1,2) by simp
  ultimately obtain ri v' where "process_transfer_state ck (fresh_receiver wsize sock peer) ?v = (Inr ri, v')"
    "outFile ri = f" "rcv_eofSeq ri = word_of_nat (n + 1)"
    using in_order_transfer [OF assms(4,5,7)] by blast
  with snd(1,3) show ?thesis by metis
qed

subsection \<open>The request, from client to server\<close>

lemma accepted_request:
  assumes "length (argv ! 1) \<le> 100" "request_pdu ck argv = Inr pdu"
  shows "pdu = pdu_of ck 0 8 (store16 (htons (word_of_int (atoi (argv ! 3)))) @
      store16 (htons (word_of_int (atoi (argv ! 4)))) @ argv ! 1)"
  using assms by (simp add: request_pdu_def memcpy_at_def createPDU_eq store16_def MAXBUF_def)

lemma request_exists: "length (argv ! 1) \<le> 100 \<Longrightarrow> \<exists>pdu. request_pdu ck argv = Inr pdu"
  by (simp add: request_pdu_def memcpy_at_def createPDU_eq store16_def MAXBUF_def)

lemma request_bytes:
  fixes ck :: cksum and wsz bsz :: u16 and name :: "byte list" and jk :: "nat \<Rightarrow> byte"
  defines "b \<equiv> rbuf_of (pdu_of ck 0 8 (store16 wsz @ store16 bsz @ name)) jk"
  shows "load16 (b 7) (b 8) = wsz" "load16 (b 9) (b 10) = bsz"
    "map (\<lambda>i. b (11 + i)) [0..<length name] = name"
proof -
  show "load16 (b 7) (b 8) = wsz" "load16 (b 9) (b 10) = bsz"
    by (simp_all add: b_def rbuf_of_def pdu_of_def store32_def store16_def nth_Cons')
  show "map (\<lambda>i. b (11 + i)) [0..<length name] = name"
    by (rule nth_equalityI) (simp_all add: b_def rbuf_of_def pdu_of_def store32_def store16_def)
qed

text \<open>
  The file name buffer of the server is one byte too short: of the names \<open>checkArgs\<close> of
  the client admits, those of up to 99 bytes arrive as sent with their terminating zero, and
  a name of exactly 100 bytes makes the server write past the end of \<open>filename[100]\<close>.
\<close>

lemma hundred_byte_name:
  assumes "checkArgs to_float argv = Inr port" "request_pdu ck argv = Inr pdu"
  shows "extract_filename (rbuf_of pdu jk) (int (length pdu)) =
    (if length (argv ! 1) = 100 then Inl OutOfBounds else Inr (argv ! 1 @ [0]))"
proof -
  have le: "length (argv ! 1) \<le> 100" using assms(1) by (auto simp: checkArgs_def split: if_splits)
  note p = accepted_request [OF le assms(2)]
  have "nat (int (length pdu) - 11) = length (argv ! 1)" "\<not> int (length pdu) - 11 < 0"
    by (simp_all add: p)
  moreover have "map (\<lambda>i. rbuf_of pdu jk (11 + i)) [0..<length (argv ! 1)] = argv ! 1"
    unfolding p by (rule request_bytes)
  ultimately show ?thesis using le by (simp add: extract_filename_def Let_def memcpy_at_def)
qed

lemma request_fields:
  assumes "length (argv ! 1) \<le> 99" "0 \<notin> set (argv ! 1)" "request_pdu ck argv = Inr pdu"
  shows "11 \<le> int (length pdu)" "int (length pdu) \<le> 110"
    "load16 (rbuf_of pdu jk 7) (rbuf_of pdu jk 8) = htons (word_of_int (atoi (argv ! 3)))"
    "load16 (rbuf_of pdu jk 9) (rbuf_of pdu jk 10) = htons (word_of_int (atoi (argv ! 4)))"
    "argv ! 1 = c_string (map (\<lambda>i. rbuf_of pdu jk (11 + i)) [0..<nat (int (length pdu) - 11)])"
proof -
  have le: "length (argv ! 1) \<le> 100" using assms(1) by simp
  note p = accepted_request [OF le assms(3)]
  show "11 \<le> int (length pdu)" "int (length pdu) \<le> 110" using assms(1) by (simp_all add: p)
  show "load16 (rbuf_of pdu jk 7) (rbuf_of pdu jk 8) = htons (word_of_int (atoi (argv ! 3)))"
    "load16 (rbuf_of pdu jk 9) (rbuf_of pdu jk 10) = htons (word_of_int (atoi (argv ! 4)))"
    unfolding p by (rule request_bytes)+
  have rb: "map (\<lambda>i. rbuf_of pdu jk (11 + i)) [0..<length (argv ! 1)] = argv ! 1"
    unfolding p by (rule request_bytes)
  have n: "nat (int (length pdu) - 11) = length (argv ! 1)" by (simp add: p)
  have "takeWhile (\<lambda>c. c \<noteq> 0) (argv ! 1) = argv ! 1"
    unfolding takeWhile_eq_all_conv using assms(2) by metis
  then show "argv ! 1 = c_string (map (\<lambda>i. rbuf_of pdu jk (11 + i)) [0..<nat (int (length pdu) - 11)])"
    unfolding n rb c_string_def by (rule sym)
qed

text \<open>
  For a request of the client whose name the server can open, \<open>filename_state\<close> answers
  with the OK PDU (flag 9) from a fresh socket and keeps the stream, but the window and buffer
  size it stores are the client's with their two bytes swapped.
\<close>

lemma filename_state_request:
  assumes "length (argv ! 1) \<le> 99" "0 \<notin> set (argv ! 1)" "request_pdu ck argv = Inr pdu"
    and "sockets_ok w" "readable w (argv ! 1) = Some content"
  shows "\<exists>info' w'. filename_state ck sock (rbuf_of pdu jk) (int (length pdu)) info w =
      (Inr (WRITE_FILE_OK_ACK, info'), w') \<and> in_file info' = Some content \<and>
    windowSize info' = htons (word_of_int (atoi (argv ! 3))) \<and>
    bufferSize info' = htons (word_of_int (atoi (argv ! 4))) \<and>
    sent w' = sent w @ [(childSocket info', pdu_of ck 0 9 (argv ! 1), clientAddr info)] \<and>
    is_open w' (childSocket info')"
  using filename_state_found [OF request_fields(1,2,5) [OF assms(1-3)] assms(4,5) refl refl refl]
  by (simp add: request_fields(3,4) [OF assms(1-3)] is_open_def)

subsection \<open>A whole copy\<close>

lemma server_main_serves:
  assumes "server_checkArgs sargv = Inr sport" "getErrorRate to_float sargv = Inr rate" "\<And>k. forks k"
    and "sockets_ok u" "schedule u = [Arrive d ca]" "7 \<le> length d" "length d \<le> MAXBUF" "d ! 6 = 8"
  shows "\<exists>jk. server_main forks to_float sargv u = ([(rbuf_of d jk, int (length d), ca)], Blocked,
    u\<lparr>open_fds := lowest_free (open_fds u) # open_fds u, schedule := []\<rparr>)"
proof -
  let ?u = "u\<lparr>open_fds := lowest_free (open_fds u) # open_fds u\<rparr>"
  have "is_open ?u (int (lowest_free (open_fds u)))" by (simp add: is_open_def)
  moreover have "schedule ?u = map (\<lambda>(d, a). Arrive d a) [(d, ca)]"
    "\<forall>(d, a) \<in> set [(d, ca)]. 7 \<le> length d \<and> length d \<le> MAXBUF" using assms(5-7) by simp_all
  ultimately obtain cs where
    "processServer forks (int (lowest_free (open_fds u))) ?u = (cs, Blocked, ?u\<lparr>schedule := []\<rparr>)"
    "list_all2 child_for (filter (\<lambda>(d, a). d ! 6 = 8) [(d, ca)]) cs"
    using dispatch_children [where forks = forks, OF _ assms(3)] by blast
  with assms(1,2,4,8) show ?thesis
    by (auto simp: server_main_def udpServerSetup_eq bnd_def list_all2_Cons1 child_for_def)
qed

text \<open>
  C4: The two programs together, from both command lines to the end, on a network that loses up
  to nine requests and every acknowledgement of data, on hosts whose system calls succeed, for a
  file name of at most 99 bytes and a request whose two sizes, as the
  server reads them with their bytes swapped, are good ones: the buffer size lies between 1 and
  \<open>MAXBUF\<close> and the file has fewer chunks of that size than the window has slots.  Then \<open>main\<close> of
  the server starts a child for the client's request, that child (a copy of the server's process)
  answers OK and sends the file, and \<open>main\<close> of \<open>rcopy\<close>, fed with exactly the datagrams the child
  hands to \<open>sendtoErr\<close>, writes a copy of the file and returns; what the server and the child
  received, the request and the acknowledgement of OK, is what this client sends.  (A size whose
  swapped value exceeds \<open>MAXBUF\<close> overruns the server's buffer
  instead, as is shown below.)
\<close>

theorem full_copy:
  assumes "checkArgs to_float argv = Inr port" "length (argv ! 1) \<le> 99" "0 \<notin> set (argv ! 1)"
    and "request_pdu ck argv = Inr req"
    and "n < unat (htons (word_of_int (atoi (argv ! 3))))" "b = unat (htons (word_of_int (atoi (argv ! 4))))"
    and "0 < b" "b \<le> MAXBUF" "0 < n \<Longrightarrow> (n - 1) * b < length f" "length f \<le> n * b"
    and "server_checkArgs sargv = Inr sport" "getErrorRate to_float sargv = Inr rate" "\<And>k. forks k"
    and "readable u (argv ! 1) = Some f" "sockets_ok u" "heap u = (\<lambda>_. True)" "pset u = initial_pollset"
    and "0 \<in> set (open_fds u)" "schedule u = [Arrive req ca]"
    and "sockets_ok v" "heap v = (\<lambda>_. True)" "resolve v (argv ! 6) port = Some a" "writable v (argv ! 2)"
    and "pset v = initial_pollset" "k < 10"
  shows "\<exists>buf u' w' ri v' s acks. server_main forks to_float sargv u = ([(buf, int (length req), ca)], Blocked, u') \<and>
    child_process ck ca (int (lowest_free (open_fds u))) buf (int (length req))
      (u'\<lparr>schedule := Arrive (pdu_of ck 0 34 []) ca # replicate n Quiet @ replicate 11 Quiet\<rparr>) =
      (Inl (Exited (-1)), w') \<and>
    rcopy_main ck to_float argv g (v\<lparr>schedule := replicate k Quiet @
      map (\<lambda>(_, d, _). Arrive d sa) (drop (length (sent u)) (sent w'))\<rparr>) = (Inr (Some ri), v') \<and>
    outFile ri = f \<and>
    sent v' = sent v @ replicate (k + 1) (s, req, a) @ (s, pdu_of ck 0 34 [], sa) # acks"
proof -
  note R = request_fields [OF assms(2,3,4)]
  let ?ok = "pdu_of ck 0 9 (argv ! 1)" and ?eof = "pdu_of ck (word_of_nat (n + 1)) 10 []"
  let ?run = "data_run ck (file_chunk b f) 1 (n + 1)" and ?sock = "int (lowest_free (open_fds u))"
  have "length (argv ! 1) \<le> 100" using assms(2) by simp
  then have req: "7 \<le> length req" "length req \<le> MAXBUF" "req ! 6 = 8"
    using R(1,2) by (simp_all add: MAXBUF_def accepted_request [OF _ assms(4)] nth_pdu_of)
  obtain jk where main: "server_main forks to_float sargv u = ([(rbuf_of req jk, int (length req), ca)], Blocked,
      u\<lparr>open_fds := lowest_free (open_fds u) # open_fds u, schedule := []\<rparr>)"
    using server_main_serves [where forks = forks, OF assms(11-13,15,19) req] by blast
  let ?u = "u\<lparr>open_fds := lowest_free (open_fds u) # open_fds u, schedule := []\<rparr>"
  let ?w = "?u\<lparr>schedule := Arrive (pdu_of ck 0 34 []) ca # replicate n Quiet @ replicate 11 Quiet\<rparr>"
  have "lowest_free (open_fds u) \<noteq> 0" using lowest_free_props(1) [of "open_fds u"] assms(18) by metis
  then have w: "readable ?w (argv ! 1) = Some f" "sockets_ok ?w" "heap ?w = (\<lambda>_. True)" "pset ?w = initial_pollset"
    "0 < ?sock" "0 \<in> set (open_fds ?w)" using assms(14-18) by simp_all
  have sw: "schedule ?w = Arrive (pdu_of ck 0 34 []) ca # replicate n Quiet @ replicate 10 Quiet @ Quiet # []"
    by (simp flip: replicate_Suc add: replicate_append_same)
  have ack: "7 \<le> length (pdu_of ck 0 34 [])" "length (pdu_of ck 0 34 []) \<le> MAXBUF" "pdu_of ck 0 34 [] ! 6 = 34"
    by (simp_all add: MAXBUF_def nth_pdu_of)
  have win: "n < unat (load16 (rbuf_of req jk 7) (rbuf_of req jk 8))"
    "b = unat (load16 (rbuf_of req jk 9) (rbuf_of req jk 10))" using assms(5,6) by (simp_all add: R(3,4))
  have "eof_settled ck (word_of_nat (n + 1)) 10 Quiet" by (simp add: eof_settled_def)
  from child_session [OF R(1,2,5) w win assms(7-10) ack _ this sw] obtain child w' where
    srv: "child_process ck ca ?sock (rbuf_of req jk) (int (length req)) ?w = (Inl (Exited (-1)), w')"
    "sent w' = sent ?w @ (child, ?ok, ca) # map (\<lambda>d. (child, d, ca)) ?run @ replicate 10 (child, ?eof, ca)"
    by blast
  let ?v = "v\<lparr>schedule := replicate k Quiet @
    map (\<lambda>(_, d, _). Arrive d sa) (drop (length (sent u)) (sent w'))\<rparr>"
  have sch: "schedule ?v = replicate k Quiet @ Arrive ?ok sa # map (\<lambda>d. Arrive d sa) ?run @ replicate 10 (Arrive ?eof sa)"
    unfolding srv(2) by (simp add: comp_def)
  have ok: "7 \<le> length ?ok" "length ?ok \<le> MAXBUF + 7" "?ok ! 6 = 9"
    using assms(2) by (simp_all add: MAXBUF_def nth_pdu_of)
  have v: "sockets_ok ?v" "heap ?v = (\<lambda>_. True)" "resolve ?v (argv ! 6) port = Some a" "writable ?v (argv ! 2)"
    "pset ?v = initial_pollset" using assms(20-24) by simp_all
  have "unat x < 2 ^ 16" for x :: u16 using unsigned_less [of x] by simp
  from this [of "htons (word_of_int (atoi (argv ! 3)))"]
  have "n + 1 < 2 ^ 32" using assms(5) by simp
  from rcopy_session [OF assms(1,25) v ok assms(7,8,10) this sch, of g] assms(4) obtain ri v' s where
    "rcopy_main ck to_float argv g ?v = (Inr (Some ri), v')" "outFile ri = f"
    "sent v' = sent ?v @ replicate (k + 1) (s, req, a) @
      (s, pdu_of ck 0 34 [], sa) # map (\<lambda>d. (s, d, sa)) (rr_run ck 1 (n + 1))" by auto
  moreover from this(3) have "sent v' = sent v @ replicate (k + 1) (s, req, a) @
      (s, pdu_of ck 0 34 [], sa) # map (\<lambda>d. (s, d, sa)) (rr_run ck 1 (n + 1))" by simp
  ultimately show ?thesis using main srv(1) by blast
qed

theorem full_copy_witness:
  "\<exists>req buf u' w' ri v'. request_pdu (\<lambda>_. 0) [[], [97], [98], [52], [50], [48], [104], [57]] = Inr req \<and>
    server_main (\<lambda>_. True) (\<lambda>_. Some 0) [[], [48], [57]]
      (start_world [Arrive req 8]\<lparr>readable := \<lambda>_. Some [1, 2, 3]\<rparr>) = ([(buf, int (length req), 8)], Blocked, u') \<and>
    child_process (\<lambda>_. 0) 8 3 buf (int (length req))
      (u'\<lparr>schedule := Arrive (pdu_of (\<lambda>_. 0) 0 34 []) 8 # replicate 1 Quiet @ replicate 11 Quiet\<rparr>) =
      (Inl (Exited (-1)), w') \<and>
    rcopy_main (\<lambda>_. 0) (\<lambda>_. Some 0) [[], [97], [98], [52], [50], [48], [104], [57]] 0
      (start_world []\<lparr>schedule := replicate 2 Quiet @ map (\<lambda>(_, d, _). Arrive d 6) (sent w')\<rparr>) = (Inr (Some ri), v') \<and>
    outFile ri = [1, 2, 3]"
proof -
  let ?argv = "[[], [97], [98], [52], [50], [48], [104], [57]] :: byte list list"
  have args: "checkArgs (\<lambda>_. Some 0) ?argv = Inr 9" "atoi [52] = 4" "atoi [50] = 2" by code_simp+
  have sargs: "server_checkArgs [[], [48], [57]] = Inr 9" "getErrorRate (\<lambda>_. Some 0) [[], [48], [57]] = Inr (Some 0)"
    by code_simp+
  have sizes: "unat (htons 4) = 1024" "unat (htons 2) = 512" by code_simp+
  obtain req where req: "request_pdu (\<lambda>_. 0) ?argv = Inr req" using request_exists [of ?argv] by auto
  let ?u = "start_world [Arrive req 8]\<lparr>readable := \<lambda>_. Some [1, 2, 3]\<rparr>"
  have a: "length (?argv ! 1) \<le> 99" "0 \<notin> set (?argv ! 1)" by simp_all
  have n: "(1 :: nat) < unat (htons (word_of_int (atoi (?argv ! 3))))"
    "512 = unat (htons (word_of_int (atoi (?argv ! 4))))" "(0 :: nat) < 512" "512 \<le> MAXBUF"
    "(1 - 1) * 512 < length [1 :: byte, 2, 3]" "length [1 :: byte, 2, 3] \<le> 1 * 512"
    by (simp_all add: args sizes MAXBUF_def)
  have u: "readable ?u (?argv ! 1) = Some [1, 2, 3]" "sockets_ok ?u" "heap ?u = (\<lambda>_. True)" "pset ?u = initial_pollset"
    "0 \<in> set (open_fds ?u)" "schedule ?u = [Arrive req 8]" "sent ?u = []" "open_fds ?u = [2, 1, 0]"
    by (simp_all add: start_world_def)
  have v: "sockets_ok (start_world [])" "heap (start_world []) = (\<lambda>_. True)"
    "resolve (start_world []) (?argv ! 6) 9 = Some 0" "writable (start_world []) (?argv ! 2)"
    "pset (start_world []) = initial_pollset" "(2 :: nat) < 10"
    by (simp_all add: start_world_def)
  have three: "int (lowest_free [2, 1, 0]) = 3" by code_simp
  from full_copy [where forks = "\<lambda>_. True", OF args(1) a req n sargs TrueI u(1-6) v, of 0 6, unfolded u(7,8) three] req
  show ?thesis by (simp only: list.size drop_0) blast
qed

text \<open>
  C27: The swapped buffer size overruns the server's \<open>payload\<close> array: for every buffer size up to
  1400 that exceeds a multiple of 256 by more than five, such as 1000, a file of more than 1400
  bytes makes the first \<open>fread\<close> of \<open>send_data_state\<close> write past the end of \<open>payload[MAXBUF]\<close>.
\<close>

theorem buffer_size_overflows:
  assumes "length (argv ! 1) \<le> 99" "0 \<notin> set (argv ! 1)" "request_pdu ck argv = Inr pdu"
    and "sockets_ok w" "readable w (argv ! 1) = Some content" "1400 < length content"
    and "1 \<le> atoi (argv ! 4)" "atoi (argv ! 4) \<le> 1400" "5 < atoi (argv ! 4) mod 256"
    and "0 < ws" "ws < 2 ^ 31"
  shows "\<exists>info' w'. filename_state ck sock (rbuf_of pdu jk) (int (length pdu)) info w =
      (Inr (WRITE_FILE_OK_ACK, info'), w') \<and>
    (\<forall>v. fst (send_data_state ck (fresh_queue ws) info' v) = Inl (Fault OutOfBounds))"
proof -
  obtain info' w' where f: "filename_state ck sock (rbuf_of pdu jk) (int (length pdu)) info w =
      (Inr (WRITE_FILE_OK_ACK, info'), w')" "in_file info' = Some content"
    "bufferSize info' = htons (word_of_int (atoi (argv ! 4)))"
    using filename_state_request [OF assms(1-5), of sock jk info] by blast
  have "int (unat (bufferSize info')) = 256 * (atoi (argv ! 4) mod 256) + atoi (argv ! 4) div 256"
    unfolding f(3) using assms(7,8) by (intro unat_htons) simp_all
  moreover have "0 \<le> atoi (argv ! 4) div 256" using assms(7) by simp
  ultimately have "1400 < unat (bufferSize info')" using assms(9) by linarith
  then have "send_chunk ck mem q sq (bufferSize info') content = Inl OutOfBounds" for mem q sq
    using assms(6) by (simp add: send_chunk_def Let_def MAXBUF_def)
  then have "fst (send_data_state ck (fresh_queue ws) info' v) = Inl (Fault OutOfBounds)" for v
    using f(2) is_full_fresh [OF assms(10,11)]
    by (simp add: send_data_state_def bnd_def send_data_loop.simps [of ck "fresh_queue ws"]
        fill_window.simps [of ck "fresh_queue ws"] alloc_def)
  with f(1) show ?thesis by blast
qed

theorem buffer_size_overflows_witness:
  "\<exists>pdu content. request_pdu (\<lambda>_. 0) [[], [97], [98], [52], [49, 48, 48, 48], [48], [104], [57]] = Inr pdu \<and>
     length content = 1401 \<and>
     (\<exists>info' w'. filename_state (\<lambda>_. 0) 2 (rbuf_of pdu (\<lambda>_. 0)) (int (length pdu)) (initial_info 9)
         (start_world []\<lparr>readable := \<lambda>_. Some content\<rparr>) = (Inr (WRITE_FILE_OK_ACK, info'), w') \<and>
       (\<forall>v. fst (send_data_state (\<lambda>_. 0) (fresh_queue 4) info' v) = Inl (Fault OutOfBounds)))"
proof -
  obtain content :: "byte list" where len: "length content = 1401"
    using Ex_list_of_length [of 1401] by blast
  let ?argv = "[[], [97], [98], [52], [49, 48, 48, 48], [48], [104], [57]] :: byte list list"
  have a: "atoi [49, 48, 48, 48] = 1000" by code_simp
  have big: "1400 < length content" unfolding len by simp
  have "length (?argv ! 1) \<le> 100" by simp
  then obtain pdu where r: "request_pdu (\<lambda>_. 0) ?argv = Inr pdu" by (blast dest: request_exists)
  have "\<exists>info' w'. filename_state (\<lambda>_. 0) 2 (rbuf_of pdu (\<lambda>_. 0)) (int (length pdu)) (initial_info 9)
         (start_world []\<lparr>readable := \<lambda>_. Some content\<rparr>) = (Inr (WRITE_FILE_OK_ACK, info'), w') \<and>
       (\<forall>v. fst (send_data_state (\<lambda>_. 0) (fresh_queue 4) info' v) = Inl (Fault OutOfBounds))"
    by (rule buffer_size_overflows [where argv = ?argv])
      (use r a big in \<open>simp_all add: start_world_def\<close>)
  with r len show ?thesis by blast
qed

subsection \<open>Name lookup of the UDP client\<close>

text \<open>
  The address \<open>setupUdpClientToServer\<close> gets from \<open>gethostbyname6\<close>, as a number: port and address
  bytes in one.
\<close>

definition addr_code :: "sockaddr \<Rightarrow> addr" where
  "addr_code s = foldl (\<lambda>n c. 256 * n + unat c) (unat (sin_port s)) (sin_addr s)"

definition resolve_by :: "libc \<Rightarrow> byte list \<Rightarrow> int \<Rightarrow> addr option" where
  "resolve_by lc hostName serverPort =
     (case fst (gethostbyname6 lc hostName
                 (Some \<lparr>sin_port = htons (word_of_int serverPort), sin_addr = replicate 16 0\<rparr>) zero_names) of
        Inr (Some _, Some serverAddress) \<Rightarrow> Some (addr_code serverAddress)
      | _ \<Rightarrow> None)"

lemma udp_setup_lookup:
  assumes "libc_ok lc" "sockets_ok w" "resolve w = resolve_by lc"
  shows "fst (setupUdpClientToServer host port w) =
    (if found lc host AF_INET6
     then Inr (int (lowest_free (open_fds w)), addr_code
            \<lparr>sin_port = htons (word_of_int port), sin_addr = first_address lc host AF_INET6\<rparr>)
     else Inl (Exited (-1)))"
proof -
  have "resolve_by lc host port = (if found lc host AF_INET6 then Some (addr_code
      \<lparr>sin_port = htons (word_of_int port), sin_addr = first_address lc host AF_INET6\<rparr>) else None)"
    by (simp add: resolve_by_def gethostbyname6_def bnd_def getIPAddress46_eq [OF assms(1)])
  with assms(2,3) show ?thesis by (simp add: setupUdpClientToServer_def open_fd_def Let_def bnd_def)
qed

subsection \<open>The end of the session\<close>

lemma inet_cksum_eof_ack:
  "inet_cksum (store32 (htonl (ucast (c :: byte))) @ [0, 0, 35]) = NOT (load16 35 c)"
proof -
  have bytes: "store32 (htonl (ucast c)) = [0, 0, 0, c]"
  proof -
    have "drop_bit k (ucast c :: u32) = 0" if "8 \<le> k" for k
      using that by (intro bit_word_eqI) (auto simp: bit_simps bit_byte_beyond)
    moreover have "ucast (ucast c :: u32) = c" by (rule bit_word_eqI) (simp add: bit_simps)
    ultimately have "htonl (ucast c) = load32 0 0 0 c" by (simp add: htonl_def)
    then show ?thesis by (simp add: store32_def)
  qed
  have "load16 35 c = ucast (35 :: byte) + push_bit 8 (ucast c)" by (rule load16_plus)
  also have "\<dots> = word_of_int (35 + 256 * uint c)"
    by (simp add: push_bit_eq_mult)
  finally have l: "load16 35 c = word_of_int (35 + 256 * uint c)" .
  have "uint c < 256" using uint_lt2p [of c] by simp
  moreover have "sum16 [0, 0, 0, c, 0, 0, 35] = 35 + 256 * uint c" by simp
  ultimately have "sum16 [0, 0, 0, c, 0, 0, 35] mod 65536 = 35 + 256 * uint c"
    "sum16 [0, 0, 0, c, 0, 0, 35] div 65536 = 0" "(35 + 256 * uint c) div 65536 = 0"
    by (simp_all del: sum16.simps)
  then show ?thesis by (simp add: bytes inet_cksum_def Let_def l del: sum16.simps)
qed

lemma htons_NOT: "htons (NOT x) = NOT (htons x)"
  by (rule bit_word_eqI) (auto simp: htons_def load16_def bit_simps bit_byte_beyond)

text \<open>
  C30: With the Internet checksum (RFC 1071) that condition nearly never holds: of the EOF
  numbers below 256 the server accepts the client's acknowledgement of 35 only, so it goes
  on resending the EOF to a client that has already left.
\<close>

theorem eof_ack_rejected:
  "eof_ack_accepted inet_cksum info (rbuf_of (pdu_of inet_cksum (ucast (c :: byte)) 35 []) jk) 7 \<longleftrightarrow>
     ucast c = eofSeq info \<and> c = 35"
proof -
  have "load16 c 35 = load16 35 c \<longleftrightarrow> c = 35" by (metis load16_bytes(1))
  then show ?thesis
    unfolding eof_ack_accepted_client inet_cksum_eof_ack htons_NOT htons_load16
    by simp
qed

end
